(* ===== verification/Prelude.thy ===== *)
theory Prelude
  imports Main "HOL-Library.Word"
begin

text \<open>
  Shared vocabulary of the development: machine integers, threads and their
  interleavings, the futex interface of the \<open>atomic_wait\<close> crate, and the generic
  lemmas on thread lists that the component theories use.

  Every operation of the library is modelled at the grain of its atomic accesses:
  one step of a thread performs one load, store or read-modify-write on a shared
  atomic (or one access to the data an acquired lock protects), and the steps of
  different threads interleave in any order.  The interleaving is sequentially
  consistent: the \<open>Ordering\<close> arguments of the source are not modelled.
\<close>

section \<open>Machine integers\<close>

type_synonym u32 = "32 word"
type_synonym u64 = "64 word"
type_synonym usize = "64 word"

abbreviation U32_MAX :: u32 where "U32_MAX \<equiv> - 1"
abbreviation USIZE_MAX :: usize where "USIZE_MAX \<equiv> - 1"

section \<open>Function bodies as step functions\<close>

text \<open>
  A source function is a step function on its program points.  After one atomic
  access the function goes on at another point (\<open>Next\<close>), returns (\<open>Ret\<close>) or panics.
  A caller embeds the step function of its callee.
\<close>

datatype ('p, 'r) ctl = Next 'p | Ret 'r | Panic

section \<open>Threads and interleavings\<close>

text \<open>
  What the environment decides in a step: which operation an idle thread calls next,
  whether a \<open>compare_exchange_weak\<close> fails spuriously, whether a blocking call of the
  standard library returns spuriously, the reading of the clock, and a number
  that resolves the choices of the futex implementation.
\<close>

record 'op env =
  call :: 'op
  weak_fails :: bool
  spurious :: bool
  clock :: nat
  pick :: nat

text \<open>A step with the given call and no interference from the environment.\<close>

definition quiet :: "'op \<Rightarrow> 'op env" where
  "quiet op = \<lparr>call = op, weak_fails = False, spurious = False, clock = 0, pick = 0\<rparr>"

lemma quiet_simps [simp]:
  "call (quiet op) = op" "weak_fails (quiet op) = False" "spurious (quiet op) = False"
  "clock (quiet op) = 0" "pick (quiet op) = 0"
  by (simp_all add: quiet_def)

text \<open>A system is a shared state and the local states of its threads, numbered from 0.\<close>

record ('g, 'l) sys =
  glob :: 'g
  locs :: "'l list"

text \<open>
  A program says what a step of thread \<open>t\<close> does to the shared state and to its own local
  state; \<open>None\<close> means that the thread cannot move (it is blocked, or has ended).
\<close>

type_synonym ('op, 'g, 'l) program = "'op env \<Rightarrow> nat \<Rightarrow> 'g \<Rightarrow> 'l \<Rightarrow> ('g \<times> 'l) option"

definition sys_step :: "('op, 'g, 'l) program \<Rightarrow> nat \<times> 'op env \<Rightarrow> ('g, 'l) sys \<Rightarrow> ('g, 'l) sys option" where
  "sys_step p a s =
     (if fst a < length (locs s)
      then (case p (snd a) (fst a) (glob s) (locs s ! fst a) of
              None \<Rightarrow> None
            | Some (g', l') \<Rightarrow> Some \<lparr>glob = g', locs = (locs s)[fst a := l']\<rparr>)
      else None)"

text \<open>A schedule names the thread of each step and the choices of the environment there.\<close>

fun run :: "('op, 'g, 'l) program \<Rightarrow> (nat \<times> 'op env) list \<Rightarrow> ('g, 'l) sys \<Rightarrow> ('g, 'l) sys option" where
  "run p [] s = Some s"
| "run p (a # as) s = (case sys_step p a s of None \<Rightarrow> None | Some s' \<Rightarrow> run p as s')"

inductive reachable :: "('op, 'g, 'l) program \<Rightarrow> (('g, 'l) sys \<Rightarrow> bool) \<Rightarrow> ('g, 'l) sys \<Rightarrow> bool"
  for p :: "('op, 'g, 'l) program" and init :: "('g, 'l) sys \<Rightarrow> bool" where
  reachable_init: "init s \<Longrightarrow> reachable p init s"
| reachable_step: "reachable p init s \<Longrightarrow> sys_step p a s = Some s' \<Longrightarrow> reachable p init s'"

lemma sys_step_SomeE:
  assumes "sys_step p a s = Some s'"
  obtains g' l' where "fst a < length (locs s)"
    and "p (snd a) (fst a) (glob s) (locs s ! fst a) = Some (g', l')"
    and "s' = \<lparr>glob = g', locs = (locs s)[fst a := l']\<rparr>"
  using assms unfolding sys_step_def by (auto split: if_splits option.splits)

lemma sys_step_length: "sys_step p a s = Some s' \<Longrightarrow> length (locs s') = length (locs s)"
  by (erule sys_step_SomeE) simp

lemma run_append:
  "run p (xs @ ys) s = (case run p xs s of None \<Rightarrow> None | Some s' \<Rightarrow> run p ys s')"
  by (induction xs arbitrary: s) (auto split: option.splits)

lemma run_reachable: "reachable p init s \<Longrightarrow> run p as s = Some s' \<Longrightarrow> reachable p init s'"
  by (induction as arbitrary: s) (auto split: option.splits intro: reachable_step)

lemma reachable_run: "reachable p init s' \<Longrightarrow> \<exists>s as. init s \<and> run p as s = Some s'"
proof (induction rule: reachable.induct)
  case (reachable_init s)
  then show ?case by (metis run.simps(1))
next
  case (reachable_step s a s')
  then obtain s0 as where "init s0" and "run p as s0 = Some s" by blast
  with reachable_step.hyps(2) have "run p (as @ [a]) s0 = Some s'"
    by (simp add: run_append)
  with \<open>init s0\<close> show ?case by blast
qed

text \<open>Unrolling a schedule of known length.\<close>

lemma replicate_numeral: "replicate (numeral k) x = x # replicate (pred_numeral k) x"
  by (simp add: numeral_eq_Suc)

text \<open>
  The interface between a program and its invariant: what every component provides is
  that the initial states satisfy the invariant and that a step of any thread keeps it;
  what it gets is the invariant in every reachable state.
\<close>

locale invariant_system =
  fixes prog :: "('op, 'g, 'l) program"
    and init :: "('g, 'l) sys \<Rightarrow> bool"
    and inv :: "('g, 'l) sys \<Rightarrow> bool"
  assumes inv_init: "init s \<Longrightarrow> inv s"
    and inv_step: "inv \<lparr>glob = g, locs = ls\<rparr> \<Longrightarrow> t < length ls \<Longrightarrow>
      prog e t g (ls ! t) = Some (g', l') \<Longrightarrow> inv \<lparr>glob = g', locs = ls[t := l']\<rparr>"
begin

lemma inv_sys_step: "sys_step prog a s = Some s' \<Longrightarrow> inv s \<Longrightarrow> inv s'"
proof (erule sys_step_SomeE)
  fix g' l'
  assume "inv s" and "fst a < length (locs s)"
    and "prog (snd a) (fst a) (glob s) (locs s ! fst a) = Some (g', l')"
    and "s' = \<lparr>glob = g', locs = (locs s)[fst a := l']\<rparr>"
  moreover have "s = \<lparr>glob = glob s, locs = locs s\<rparr>" by simp
  ultimately show "inv s'" using inv_step by metis
qed

lemma reachable_inv: "reachable prog init s \<Longrightarrow> inv s"
  by (induction rule: reachable.induct) (auto intro: inv_init inv_sys_step)

lemma run_inv: "inv s \<Longrightarrow> run prog as s = Some s' \<Longrightarrow> inv s'"
  by (induction as arbitrary: s) (auto split: option.splits dest: inv_sys_step)

end

section \<open>Thread lists\<close>

text \<open>Counting the threads whose local state satisfies a predicate.\<close>

definition cnt :: "('l \<Rightarrow> bool) \<Rightarrow> 'l list \<Rightarrow> nat" where
  "cnt P ls = length (filter P ls)"

lemma cnt_simps [simp]:
  "cnt P [] = 0"
  "cnt P (x # xs) = (if P x then Suc (cnt P xs) else cnt P xs)"
  by (simp_all add: cnt_def)

lemma cnt_update:
  "t < length ls \<Longrightarrow>
    cnt P (ls[t := l]) + (if P (ls ! t) then 1 else 0) = cnt P ls + (if P l then 1 else 0)"
proof (induction ls arbitrary: t)
  case Nil
  then show ?case by simp
next
  case (Cons x xs)
  then show ?case by (cases t) auto
qed

lemma cnt_update_same:
  "t < length ls \<Longrightarrow> P l = P (ls ! t) \<Longrightarrow> cnt P (ls[t := l]) = cnt P ls"
  using cnt_update [of t ls P l] by (auto split: if_splits)

lemma cnt_update_gain:
  "t < length ls \<Longrightarrow> P l \<Longrightarrow> \<not> P (ls ! t) \<Longrightarrow> cnt P (ls[t := l]) = Suc (cnt P ls)"
  using cnt_update [of t ls P l] by simp

lemma cnt_update_loss:
  "t < length ls \<Longrightarrow> \<not> P l \<Longrightarrow> P (ls ! t) \<Longrightarrow> Suc (cnt P (ls[t := l])) = cnt P ls"
  using cnt_update [of t ls P l] by simp

lemma cnt_le_length: "cnt P ls \<le> length ls"
  by (simp add: cnt_def)

lemma cnt_0_iff: "cnt P ls = 0 \<longleftrightarrow> (\<forall>t < length ls. \<not> P (ls ! t))"
  by (auto simp: cnt_def filter_empty_conv all_set_conv_all_nth)

lemma cnt_pos: "t < length ls \<Longrightarrow> P (ls ! t) \<Longrightarrow> 0 < cnt P ls"
  using cnt_0_iff [of P ls] by auto

lemma cnt_witness: "0 < cnt P ls \<Longrightarrow> \<exists>t < length ls. P (ls ! t)"
  using cnt_0_iff [of P ls] by auto

lemma cnt_mono: "(\<And>l. P l \<Longrightarrow> Q l) \<Longrightarrow> cnt P ls \<le> cnt Q ls"
  by (induction ls) (auto simp: le_Suc_eq)

lemma cnt_le_1_unique:
  "cnt P ls \<le> 1 \<Longrightarrow> t < length ls \<Longrightarrow> u < length ls \<Longrightarrow> P (ls ! t) \<Longrightarrow> P (ls ! u) \<Longrightarrow> t = u"
proof (induction ls arbitrary: t u)
  case Nil
  then show ?case by simp
next
  case (Cons x xs)
  show ?case
  proof (cases "P x")
    case True
    with Cons.prems(1) have none: "\<forall>i < length xs. \<not> P (xs ! i)"
      by (auto simp: cnt_0_iff)
    with True Cons.prems show ?thesis by (cases t; cases u) auto
  next
    case False
    with Cons.prems obtain t' u' where "t = Suc t'" and "u = Suc u'"
      by (cases t; cases u) auto
    with False Cons show ?thesis by auto
  qed
qed

lemma cnt_unique_le_1:
  "(\<And>t u. t < length ls \<Longrightarrow> u < length ls \<Longrightarrow> P (ls ! t) \<Longrightarrow> P (ls ! u) \<Longrightarrow> t = u) \<Longrightarrow>
    cnt P ls \<le> 1"
proof (induction ls)
  case (Cons x xs)
  have "cnt P xs \<le> 1"
  proof (rule Cons.IH)
    fix t u
    assume "t < length xs" "u < length xs" "P (xs ! t)" "P (xs ! u)"
    with Cons.prems [of "Suc t" "Suc u"] show "t = u" by simp
  qed
  moreover have "cnt P xs = 0" if "P x"
    using Cons.prems [of 0 "Suc _"] that by (auto simp: cnt_0_iff)
  ultimately show ?case by simp
qed simp

lemma cnt_disjoint_le:
  "(\<And>l. \<not> (P l \<and> Q l)) \<Longrightarrow> cnt P ls + cnt Q ls \<le> length ls"
proof (induction ls)
  case (Cons x xs)
  then have "cnt P xs + cnt Q xs \<le> length xs" by simp
  with Cons.prems [of x] show ?case by auto
qed simp

lemma cnt_minus: "(\<And>l. P l \<Longrightarrow> Q l) \<Longrightarrow> cnt P ls + cnt (\<lambda>l. Q l \<and> \<not> P l) ls = cnt Q ls"
  by (induction ls) auto

lemma cnt_replicate: "cnt P (replicate n l) = (if P l then n else 0)"
  by (induction n) auto

text \<open>A queue of distinct threads that all satisfy \<open>P\<close> is no longer than their number.\<close>

lemma cnt_eq_card: "cnt P ls = card {t. t < length ls \<and> P (ls ! t)}"
  by (simp add: cnt_def length_filter_conv_card)

lemma length_le_cnt:
  assumes "distinct q" and "\<And>t. t \<in> set q \<Longrightarrow> t < length ls \<and> P (ls ! t)"
  shows "length q \<le> cnt P ls"
proof -
  have "card (set q) \<le> card {t. t < length ls \<and> P (ls ! t)}"
    using assms(2) by (intro card_mono) auto
  then show ?thesis using assms(1) by (simp add: distinct_card cnt_eq_card)
qed

lemma card_not_queued:
  assumes "distinct q" and "\<And>t. t \<in> set q \<Longrightarrow> t < length ls \<and> P (ls ! t)"
  shows "card {t. t < length ls \<and> P (ls ! t) \<and> t \<notin> set q} = cnt P ls - length q"
proof -
  have "{t. t < length ls \<and> P (ls ! t) \<and> t \<notin> set q} = {t. t < length ls \<and> P (ls ! t)} - set q"
    by auto
  moreover have "set q \<subseteq> {t. t < length ls \<and> P (ls ! t)}" using assms(2) by auto
  ultimately show ?thesis
    using assms(1) by (simp add: card_Diff_subset distinct_card cnt_eq_card)
qed

text \<open>Assertions attached to each thread, and how one step of one thread changes them.\<close>

definition each :: "(nat \<Rightarrow> 'l \<Rightarrow> bool) \<Rightarrow> 'l list \<Rightarrow> bool" where
  "each P ls \<longleftrightarrow> (\<forall>t < length ls. P t (ls ! t))"

lemma each_simps [simp]:
  "each P []"
  "each P (x # xs) \<longleftrightarrow> P 0 x \<and> each (\<lambda>t. P (Suc t)) xs"
  by (auto simp: each_def All_less_Suc2)

lemma each_replicate: "each P (replicate n l) \<longleftrightarrow> (\<forall>t < n. P t l)"
  by (simp add: each_def)

lemma eachD: "each P ls \<Longrightarrow> t < length ls \<Longrightarrow> P t (ls ! t)"
  by (simp add: each_def)

lemma each_update:
  assumes "each P ls" and "t < length ls" and "Q t l"
    and "\<And>u. u < length ls \<Longrightarrow> u \<noteq> t \<Longrightarrow> P u (ls ! u) \<Longrightarrow> Q u (ls ! u)"
  shows "each Q (ls[t := l])"
  using assms by (auto simp: each_def nth_list_update)

lemma each_update_same:
  "each P ls \<Longrightarrow> t < length ls \<Longrightarrow> P t l \<Longrightarrow> each P (ls[t := l])"
  by (rule each_update [of P]) auto

section \<open>Words\<close>

lemma unat_of_nat_u32: "n < 2 ^ 32 \<Longrightarrow> unat (of_nat n :: u32) = n"
  by (simp add: unat_of_nat take_bit_nat_eq_self)

lemma unat_of_nat_usize: "n < 2 ^ 64 \<Longrightarrow> unat (of_nat n :: usize) = n"
  by (simp add: unat_of_nat take_bit_nat_eq_self)

lemma unat_U32_MAX: "unat U32_MAX = 4294967295"
  by (simp add: unsigned_minus_1_eq_mask mask_eq_exp_minus_1)

lemma unat_USIZE_MAX: "unat USIZE_MAX = 18446744073709551615"
  by (simp add: unsigned_minus_1_eq_mask mask_eq_exp_minus_1)

lemma unat_minus_1: "c \<noteq> 0 \<Longrightarrow> unat (c - 1) = unat c - 1"
  by (simp add: unat_sub word_le_nat_alt unat_gt_0 Suc_leI)

lemma unat_plus_1_u32: "unat (c :: u32) + 1 < 2 ^ 32 \<Longrightarrow> unat (c + 1) = unat c + 1"
  by (simp add: unat_word_ariths)

lemma unat_plus_1_le: "unat (c + 1) \<le> unat c + 1"
  by (simp add: unat_word_ariths)

lemma of_nat_u32_0_iff: "n < 2 ^ 32 \<Longrightarrow> (of_nat n :: u32) = 0 \<longleftrightarrow> n = 0"
  using unat_of_nat_u32 [of n] by (auto simp: unat_eq_0 [symmetric])

lemma cnt_update_word:
  "t < length ls \<Longrightarrow> of_nat (cnt P (ls[t := l])) + of_bool (P (ls ! t)) =
    (of_nat (cnt P ls) + of_bool (P l) :: 'a::len word)"
  using cnt_update [of t ls P l]
  by (cases "P (ls ! t)"; cases "P l") (simp_all add: add.commute, metis of_nat_Suc add.commute)

section \<open>The futex interface\<close>

text \<open>
  \<open>wait\<close>, \<open>wake_one\<close> and \<open>wake_all\<close> are functions of the crate \<open>atomic_wait\<close>, which is not
  part of the sources.  They are a parameter of every model that uses them:
  whether a \<open>wait\<close> call blocks, given whether the atomic has the expected value; which
  waiters stay blocked after a wake call; and whether a blocked call returns on its own.
  The number is the environment's choice \<open>pick\<close>, so the parameter stands for every
  behaviour of a nondeterministic implementation.
\<close>

record futex_api =
  blocks :: "nat \<Rightarrow> bool \<Rightarrow> bool"
  wake_one_rest :: "nat \<Rightarrow> nat list \<Rightarrow> nat list"
  wake_all_rest :: "nat \<Rightarrow> nat list \<Rightarrow> nat list"
  returns_early :: "nat \<Rightarrow> bool"

text \<open>
  The documented behaviour: \<open>wait\<close> returns at once when the value differs from the expected
  one; \<open>wake_one\<close> wakes one waiter if there is any; \<open>wake_all\<close> wakes all waiters.
  Nothing is said about when a call that may block does so, or about spurious returns.
\<close>

definition futex_ok :: "futex_api \<Rightarrow> bool" where
  "futex_ok F \<longleftrightarrow>
     (\<forall>c. \<not> blocks F c False) \<and>
     (\<forall>c q. q \<noteq> [] \<longrightarrow> (\<exists>t \<in> set q. wake_one_rest F c q = remove1 t q)) \<and>
     (\<forall>c. wake_one_rest F c [] = []) \<and>
     (\<forall>c q. wake_all_rest F c q = [])"

text \<open>An atomic with the threads blocked on it.\<close>

record 'v futex =
  val :: 'v
  waiters :: "nat list"

definition futex_new :: "'v \<Rightarrow> 'v futex" where
  "futex_new v = \<lparr>val = v, waiters = []\<rparr>"

text \<open>
  A call \<open>wait(&a, expected)\<close> compares and blocks in one atomic step; a blocked call
  returns when a wake call has removed the thread from the waiters, or early.
\<close>

definition futex_wait :: "futex_api \<Rightarrow> 'op env \<Rightarrow> nat \<Rightarrow> 'v \<Rightarrow> 'v futex \<Rightarrow> bool \<times> 'v futex" where
  "futex_wait F e t expected f =
     (if blocks F (pick e) (val f = expected) then (True, f\<lparr>waiters := waiters f @ [t]\<rparr>)
      else (False, f))"

definition futex_return :: "futex_api \<Rightarrow> 'op env \<Rightarrow> nat \<Rightarrow> 'v futex \<Rightarrow> 'v futex option" where
  "futex_return F e t f =
     (if t \<notin> set (waiters f) then Some f
      else if returns_early F (pick e) then Some (f\<lparr>waiters := removeAll t (waiters f)\<rparr>)
      else None)"

definition futex_wake_one :: "futex_api \<Rightarrow> 'op env \<Rightarrow> 'v futex \<Rightarrow> 'v futex" where
  "futex_wake_one F e f = f\<lparr>waiters := wake_one_rest F (pick e) (waiters f)\<rparr>"

definition futex_wake_all :: "futex_api \<Rightarrow> 'op env \<Rightarrow> 'v futex \<Rightarrow> 'v futex" where
  "futex_wake_all F e f = f\<lparr>waiters := wake_all_rest F (pick e) (waiters f)\<rparr>"

named_theorems futex_simps

lemma futex_new_simps [futex_simps, simp]:
  "val (futex_new v) = v" "waiters (futex_new v) = []"
  by (simp_all add: futex_new_def)

lemma futex_wake_val [futex_simps, simp]:
  "val (futex_wake_one F e f) = val f" "val (futex_wake_all F e f) = val f"
  by (simp_all add: futex_wake_one_def futex_wake_all_def)

lemma futex_wait_val: "futex_wait F e t x f = (b, f') \<Longrightarrow> val f' = val f"
  by (auto simp: futex_wait_def split: if_splits)

lemma futex_return_val: "futex_return F e t f = Some f' \<Longrightarrow> val f' = val f"
  by (auto simp: futex_return_def split: if_splits)

lemma futex_wait_blocked:
  "futex_ok F \<Longrightarrow> futex_wait F e t x f = (True, f') \<Longrightarrow>
    val f = x \<and> f' = f\<lparr>waiters := waiters f @ [t]\<rparr>"
  by (cases "val f = x") (auto simp: futex_wait_def futex_ok_def split: if_splits)

lemma futex_wait_passed: "futex_wait F e t x f = (False, f') \<Longrightarrow> f' = f"
  by (auto simp: futex_wait_def split: if_splits)

lemma futex_ok_wake_one:
  "futex_ok F \<Longrightarrow> waiters f \<noteq> [] \<Longrightarrow>
    \<exists>t \<in> set (waiters f). futex_wake_one F e f = f\<lparr>waiters := remove1 t (waiters f)\<rparr>"
  unfolding futex_ok_def futex_wake_one_def by metis

lemma futex_ok_wake_one_empty:
  "futex_ok F \<Longrightarrow> waiters f = [] \<Longrightarrow> futex_wake_one F e f = f"
  by (simp add: futex_ok_def futex_wake_one_def)

lemma futex_ok_wake_all: "futex_ok F \<Longrightarrow> waiters (futex_wake_all F e f) = []"
  by (simp add: futex_ok_def futex_wake_all_def)

text \<open>One implementation: first in, first out; a call blocks whenever it may.\<close>

definition fifo_futex :: futex_api where
  "fifo_futex = \<lparr>blocks = (\<lambda>_ eq. eq), wake_one_rest = (\<lambda>_ q. tl q),
     wake_all_rest = (\<lambda>_ _. []), returns_early = (\<lambda>_. False)\<rparr>"

lemma fifo_futex_simps [simp]:
  "blocks fifo_futex c b = b" "wake_one_rest fifo_futex c q = tl q"
  "wake_all_rest fifo_futex c q = []" "returns_early fifo_futex c = False"
  by (simp_all add: fifo_futex_def)

lemma fifo_futex_ok [simp, intro]: "futex_ok fifo_futex"
proof -
  have "\<exists>t \<in> set q. tl q = remove1 t q" if "q \<noteq> []" for q :: "nat list"
    using that by (cases q) auto
  then show ?thesis by (simp add: futex_ok_def)
qed

end
