(* ===== verification/Script.thy ===== *)
theory Script
  imports Prelude
begin

text \<open>
  Operations that run to their end one after the other, as a sequential test calls them.  A
  script says which thread calls which operation; running it gives what is observed of the caller and of the shared
  state after each operation.
\<close>

text \<open>The steps of one call, until its thread is back with its client; the fuel bounds their number.\<close>

fun finish_call ::
  "('op, 'g, 'l) program \<Rightarrow> ('l \<Rightarrow> bool) \<Rightarrow> nat \<Rightarrow> nat \<times> 'op \<Rightarrow> ('g, 'l) sys \<Rightarrow> ('g, 'l) sys option" where
  "finish_call p home 0 a s = None"
| "finish_call p home (Suc n) a s =
     (case sys_step p (fst a, quiet (snd a)) s of
        None \<Rightarrow> None
      | Some s' \<Rightarrow> if home (locs s' ! fst a) then Some s' else finish_call p home n a s')"

text \<open>Unfolding one step of a literal amount of fuel.\<close>

lemma finish_call_numeral [simp]:
  "finish_call p home (numeral k) a s =
     (case sys_step p (fst a, quiet (snd a)) s of
        None \<Rightarrow> None
      | Some s' \<Rightarrow> if home (locs s' ! fst a) then Some s' else finish_call p home (pred_numeral k) a s')"
  by (simp add: numeral_eq_Suc)

fun run_script ::
  "('op, 'g, 'l) program \<Rightarrow> ('l \<Rightarrow> bool) \<Rightarrow> ('g \<Rightarrow> 'l \<Rightarrow> 'r) \<Rightarrow> (nat \<times> 'op) list \<Rightarrow> ('g, 'l) sys \<Rightarrow> 'r list option" where
  "run_script p home obs [] s = Some []"
| "run_script p home obs (a # as) s =
     (case finish_call p home 30 a s of
        None \<Rightarrow> None
      | Some s' \<Rightarrow> map_option ((#) (obs (glob s') (locs s' ! fst a))) (run_script p home obs as s'))"

text \<open>A script is a schedule: it visits reachable states only.\<close>

lemma finish_call_run:
  "finish_call p home n a s = Some s' \<Longrightarrow> \<exists>k. run p (replicate k (fst a, quiet (snd a))) s = Some s'"
proof (induction n arbitrary: s)
  case (Suc n)
  then obtain s1 where s1: "sys_step p (fst a, quiet (snd a)) s = Some s1" by (auto split: option.splits)
  show ?case
  proof (cases "home (locs s1 ! fst a)")
    case True
    with Suc.prems s1 show ?thesis by (intro exI [of _ 1]) simp
  next
    case False
    with Suc s1 obtain k where "run p (replicate k (fst a, quiet (snd a))) s1 = Some s'" by auto
    with s1 show ?thesis by (intro exI [of _ "Suc k"]) simp
  qed
qed simp

lemma finish_call_reachable:
  "reachable p start s \<Longrightarrow> finish_call p home n a s = Some s' \<Longrightarrow> reachable p start s'"
  using finish_call_run run_reachable by metis

end
