(* ===== verification/Locking.thy ===== *)
theory Locking
  imports Prelude
begin

text \<open>
  The contract every lock of the library offers its client, as a locale: at most one thread
  holds the lock, and only a thread that holds it changes the protected data.  What a
  client may rely on follows from these two laws once: data only changes under a sole
  owner, and a critical section is isolated from the steps of all other threads.
\<close>

lemma run_locs_other:
  "run p as s = Some s' \<Longrightarrow> t \<notin> fst ` set as \<Longrightarrow> locs s' ! t = locs s ! t"
proof (induction as arbitrary: s)
  case (Cons a as)
  from Cons.prems(1) obtain s1 where s1: "sys_step p a s = Some s1" and "run p as s1 = Some s'"
    by (auto split: option.splits)
  with Cons.IH Cons.prems(2) have "locs s' ! t = locs s1 ! t" by auto
  also have "\<dots> = locs s ! t"
    using s1 Cons.prems(2) by (auto elim!: sys_step_SomeE)
  finally show ?case .
qed simp

lemma run_length: "run p as s = Some s' \<Longrightarrow> length (locs s') = length (locs s)"
  by (induction as arbitrary: s) (auto split: option.splits dest: sys_step_length)

text \<open>A property of a thread's own state that its own steps keep is kept by every run.\<close>

lemma run_local_closed:
  assumes "\<And>e g l g' l'. P l \<Longrightarrow> p e t g l = Some (g', l') \<Longrightarrow> P l'"
    and "run p as s = Some s'" and "P (locs s ! t)"
  shows "P (locs s' ! t)"
  using assms(2,3)
proof (induction as arbitrary: s)
  case (Cons a as)
  from Cons.prems(1) obtain s1 where s1: "sys_step p a s = Some s1" and run: "run p as s1 = Some s'"
    by (auto split: option.splits)
  then obtain g' l' where "p (snd a) (fst a) (glob s) (locs s ! fst a) = Some (g', l')"
    and "fst a < length (locs s)" and "s1 = \<lparr>glob = g', locs = (locs s)[fst a := l']\<rparr>"
    by (auto elim: sys_step_SomeE)
  with assms(1) Cons.prems(2) have "P (locs s1 ! t)" by (cases "fst a = t") auto
  with run show ?case by (rule Cons.IH)
qed simp

locale exclusive_lock =
  fixes prog :: "('op, 'g, 'l) program"
    and start :: "('g, 'l) sys \<Rightarrow> bool"
    and holds :: "'l \<Rightarrow> bool"
    and payload :: "'g \<Rightarrow> 'd"
  assumes exclusive: "reachable prog start s \<Longrightarrow> cnt holds (locs s) \<le> 1"
    and payload_by_holder: "prog e t g l = Some (g', l') \<Longrightarrow> payload g' \<noteq> payload g \<Longrightarrow>
      holds l \<and> holds l'"
begin

lemma holders_equal:
  "reachable prog start s \<Longrightarrow> t < length (locs s) \<Longrightarrow> u < length (locs s) \<Longrightarrow>
    holds (locs s ! t) \<Longrightarrow> holds (locs s ! u) \<Longrightarrow> t = u"
  using exclusive cnt_le_1_unique by blast

lemma payload_guarded:
  assumes "reachable prog start s" and "sys_step prog (t, e) s = Some s'"
    and "payload (glob s') \<noteq> payload (glob s)"
  shows "holds (locs s ! t) \<and> cnt holds (locs s) = 1"
proof -
  from assms(2,3) have t: "t < length (locs s)" and "holds (locs s ! t)"
    by (auto elim!: sys_step_SomeE dest: payload_by_holder)
  with exclusive [OF assms(1)] cnt_pos [where P = holds, OF t] show ?thesis by auto
qed

text \<open>While a thread holds the lock, steps of the others leave the data alone.\<close>

lemma isolated:
  assumes "reachable prog start s" and "t < length (locs s)" and "holds (locs s ! t)"
    and "run prog as s = Some s'" and "t \<notin> fst ` set as"
  shows "payload (glob s') = payload (glob s) \<and> holds (locs s' ! t)"
  using assms
proof (induction as arbitrary: s)
  case (Cons a as)
  from Cons.prems(4) obtain s1 where s1: "sys_step prog a s = Some s1" and run: "run prog as s1 = Some s'"
    by (auto split: option.splits)
  from Cons.prems(5) have other: "fst a \<noteq> t" by auto
  have here: "locs s1 ! t = locs s ! t"
    using s1 other by (auto elim!: sys_step_SomeE)
  have reach: "reachable prog start s1"
    using Cons.prems(1) s1 by (rule reachable_step)
  have "payload (glob s1) = payload (glob s)"
  proof (rule ccontr)
    assume "payload (glob s1) \<noteq> payload (glob s)"
    with payload_guarded [OF Cons.prems(1), of "fst a" "snd a" s1] s1
    have "holds (locs s ! fst a)" by simp
    moreover have "fst a < length (locs s)" using s1 by (auto elim: sys_step_SomeE)
    ultimately show False
      using holders_equal [OF Cons.prems(1)] Cons.prems(2,3) other by blast
  qed
  moreover have "payload (glob s') = payload (glob s1) \<and> holds (locs s' ! t)"
    using Cons.prems here s1
    by (intro Cons.IH [OF reach _ _ run]) (auto simp: sys_step_length)
  ultimately show ?case by simp
qed simp

end

section \<open>Thread identifiers\<close>

text \<open>
  What the locks that store the identifier of their owner rely on: \<open>thread_id::get()\<close> is not 0 and differs between threads that
  live at the same time.
\<close>

definition tid_ok :: "(nat \<Rightarrow> usize) \<Rightarrow> nat \<Rightarrow> bool" where
  "tid_ok tid n \<longleftrightarrow> (\<forall>t < n. tid t \<noteq> 0) \<and> (\<forall>t < n. \<forall>u < n. tid t = tid u \<longrightarrow> t = u)"

lemma tid_ok_nonzero: "tid_ok tid n \<Longrightarrow> t < n \<Longrightarrow> tid t \<noteq> 0"
  by (simp add: tid_ok_def)

lemma tid_ok_eq_iff: "tid_ok tid n \<Longrightarrow> t < n \<Longrightarrow> u < n \<Longrightarrow> tid t = tid u \<longleftrightarrow> t = u"
  by (auto simp: tid_ok_def)

text \<open>Identifiers for concrete runs.\<close>

definition tid_succ :: "nat \<Rightarrow> usize" where
  "tid_succ t = of_nat (Suc t)"

lemma tid_succ_ok: "n < 1000 \<Longrightarrow> tid_ok tid_succ n"
proof -
  assume n: "n < 1000"
  have unat: "unat (tid_succ t) = Suc t" if "t < n" for t
    using that n unfolding tid_succ_def by (intro unat_of_nat_usize) simp
  have "tid_succ t \<noteq> 0" if "t < n" for t
    using unat [OF that] by (metis nat.distinct(1) unat_0)
  moreover have "t = u" if "t < n" "u < n" "tid_succ t = tid_succ u" for t u
    using unat [OF that(1)] unat [OF that(2)] that(3) by (metis Suc_inject)
  ultimately show ?thesis by (auto simp: tid_ok_def)
qed

end
