(* ===== verification/LockSpec.thy ===== *)
theory LockSpec
  imports Locking
begin

text \<open>
  What a lock promises, as an abstract object: a set of threads that hold it for reading, a set
  of threads that hold it for writing, and the protected data.  Its events change this object one
  at a time, and each has a guard: nobody enters while a writer is in, a writer enters only
  alone, and only a writer stores.  A lock refines the object when every run of its program
  produces a history of events that the object can execute.
\<close>

section \<open>The abstract lock\<close>

record 'd lock_view =
  lv_readers :: "nat set"
  lv_writers :: "nat set"
  lv_contents :: 'd

datatype 'd lock_event =
  Lock_read nat | Unlock_read nat | Lock_write nat | Unlock_write nat | Store nat 'd

fun lock_exec :: "'d lock_event \<Rightarrow> 'd lock_view \<Rightarrow> 'd lock_view option" where
  "lock_exec (Lock_read t) v =
     (if lv_writers v = {} then Some (v\<lparr>lv_readers := insert t (lv_readers v)\<rparr>) else None)"
| "lock_exec (Unlock_read t) v =
     (if t \<in> lv_readers v then Some (v\<lparr>lv_readers := lv_readers v - {t}\<rparr>) else None)"
| "lock_exec (Lock_write t) v =
     (if lv_writers v = {} \<and> lv_readers v = {} then Some (v\<lparr>lv_writers := {t}\<rparr>) else None)"
| "lock_exec (Unlock_write t) v =
     (if t \<in> lv_writers v then Some (v\<lparr>lv_writers := lv_writers v - {t}\<rparr>) else None)"
| "lock_exec (Store t d) v = (if lv_writers v = {t} then Some (v\<lparr>lv_contents := d\<rparr>) else None)"

fun lock_execs :: "'d lock_event list \<Rightarrow> 'd lock_view \<Rightarrow> 'd lock_view option" where
  "lock_execs [] v = Some v"
| "lock_execs (x # xs) v = (case lock_exec x v of None \<Rightarrow> None | Some v' \<Rightarrow> lock_execs xs v')"

lemma lock_execs_append:
  "lock_execs (xs @ ys) v = (case lock_execs xs v of None \<Rightarrow> None | Some v' \<Rightarrow> lock_execs ys v')"
  by (induction xs arbitrary: v) (auto split: option.splits)

text \<open>The object on its own keeps readers and writers apart.\<close>

definition lock_view_ok :: "'d lock_view \<Rightarrow> bool" where
  "lock_view_ok v \<longleftrightarrow> lv_writers v = {} \<or> lv_readers v = {} \<and> (\<exists>t. lv_writers v = {t})"

lemma lock_exec_ok: "lock_exec x v = Some v' \<Longrightarrow> lock_view_ok v \<Longrightarrow> lock_view_ok v'"
  by (cases x) (auto simp: lock_view_ok_def split: if_splits)

lemma lock_execs_ok: "lock_execs xs v = Some v' \<Longrightarrow> lock_view_ok v \<Longrightarrow> lock_view_ok v'"
  by (induction xs arbitrary: v) (auto split: option.splits dest: lock_exec_ok)

section \<open>The history of a run\<close>

definition lock_view_of ::
  "('l \<Rightarrow> bool) \<Rightarrow> ('l \<Rightarrow> bool) \<Rightarrow> ('g \<Rightarrow> 'd) \<Rightarrow> ('g, 'l) sys \<Rightarrow> 'd lock_view" where
  "lock_view_of reads writes payload s =
     \<lparr>lv_readers = {t. t < length (locs s) \<and> reads (locs s ! t)},
      lv_writers = {t. t < length (locs s) \<and> writes (locs s ! t)},
      lv_contents = payload (glob s)\<rparr>"

text \<open>The events of one step: what its thread stores, gives up and acquires.\<close>

definition lock_step_events ::
  "('l \<Rightarrow> bool) \<Rightarrow> ('l \<Rightarrow> bool) \<Rightarrow> ('g \<Rightarrow> 'd) \<Rightarrow> nat \<Rightarrow> ('g, 'l) sys \<Rightarrow> ('g, 'l) sys \<Rightarrow> 'd lock_event list" where
  "lock_step_events reads writes payload t s s' =
     (let l = locs s ! t; l' = locs s' ! t in
      (if payload (glob s') \<noteq> payload (glob s) then [Store t (payload (glob s'))] else []) @
      (if reads l \<and> \<not> reads l' then [Unlock_read t] else []) @
      (if writes l \<and> \<not> writes l' then [Unlock_write t] else []) @
      (if \<not> reads l \<and> reads l' then [Lock_read t] else []) @
      (if \<not> writes l \<and> writes l' then [Lock_write t] else []))"

fun lock_history ::
  "('op, 'g, 'l) program \<Rightarrow> ('l \<Rightarrow> bool) \<Rightarrow> ('l \<Rightarrow> bool) \<Rightarrow> ('g \<Rightarrow> 'd) \<Rightarrow>
     (nat \<times> 'op env) list \<Rightarrow> ('g, 'l) sys \<Rightarrow> 'd lock_event list" where
  "lock_history p reads writes payload [] s = []"
| "lock_history p reads writes payload (a # as) s =
     (case sys_step p a s of
        None \<Rightarrow> []
      | Some s' \<Rightarrow> lock_step_events reads writes payload (fst a) s s' @
          lock_history p reads writes payload as s')"

section \<open>Locks that refine the object\<close>

text \<open>
  The laws a program has to provide: its threads never hold the lock in conflict, and a step that
  changes the data is one of a thread that holds it for writing, before and after.
\<close>

locale shared_lock =
  fixes prog :: "('op, 'g, 'l) program"
    and start :: "('g, 'l) sys \<Rightarrow> bool"
    and reads :: "'l \<Rightarrow> bool"
    and writes :: "'l \<Rightarrow> bool"
    and payload :: "'g \<Rightarrow> 'd"
  assumes apart: "reachable prog start s \<Longrightarrow>
      cnt writes (locs s) = 0 \<or> cnt writes (locs s) = 1 \<and> cnt reads (locs s) = 0"
    and store_by_writer: "prog e t g l = Some (g', l') \<Longrightarrow> payload g' \<noteq> payload g \<Longrightarrow>
      writes l \<and> writes l'"
begin

abbreviation view :: "('g, 'l) sys \<Rightarrow> 'd lock_view" where
  "view \<equiv> lock_view_of reads writes payload"

lemma writer_alone:
  assumes "reachable prog start s" and "t < length (locs s)" and "writes (locs s ! t)"
    and "u < length (locs s)"
  shows "(writes (locs s ! u) \<longrightarrow> u = t) \<and> \<not> reads (locs s ! u)"
proof -
  have "cnt writes (locs s) = 1" and "cnt reads (locs s) = 0"
    using apart [OF assms(1)] cnt_pos [where P = writes, OF assms(2,3)] by auto
  then show ?thesis
    using cnt_le_1_unique [of writes "locs s"] assms(2-4) by (auto simp: cnt_0_iff)
qed

lemma step_refines:
  assumes "reachable prog start s" and step: "sys_step prog a s = Some s'"
  shows "lock_execs (lock_step_events reads writes payload (fst a) s s') (view s) = Some (view s')"
proof -
  let ?t = "fst a"
  from step obtain g' l' where t: "?t < length (locs s)"
    and p: "prog (snd a) ?t (glob s) (locs s ! ?t) = Some (g', l')"
    and s': "s' = \<lparr>glob = g', locs = (locs s)[?t := l']\<rparr>" by (rule sys_step_SomeE)
  let ?l = "locs s ! ?t"
  define R W where "R = {u. u < length (locs s) \<and> reads (locs s ! u)}"
    and "W = {u. u < length (locs s) \<and> writes (locs s ! u)}"
  have R': "{u. u < length (locs s) \<and> reads ((locs s)[?t := l'] ! u)} =
      (if reads l' then insert ?t R else R - {?t})"
    and W': "{u. u < length (locs s) \<and> writes ((locs s)[?t := l'] ! u)} =
      (if writes l' then insert ?t W else W - {?t})"
    using t by (auto simp: R_def W_def nth_list_update)
  have alone: "W = {?t} \<and> R = {}" if "writes ?l"
  proof -
    have "(writes (locs s ! u) \<longrightarrow> u = ?t) \<and> \<not> reads (locs s ! u)" if "u < length (locs s)" for u
      using assms(1) t \<open>writes ?l\<close> that by (rule writer_alone)
    with t that show ?thesis unfolding R_def W_def by blast
  qed
  have reach': "reachable prog start s'" using assms(1) step by (rule reachable_step)
  have here: "locs s' ! ?t = l'" "?t < length (locs s')" using t by (simp_all add: s')
  have after: "glob s' = g'" by (simp add: s')
  have there: "locs s' ! u = locs s ! u" if "u \<noteq> ?t" for u using that by (simp add: s')
  have free: "W - {?t} = {}" if now: "reads l' \<or> writes l'"
  proof (rule ccontr)
    assume "W - {?t} \<noteq> {}"
    then obtain u where u: "u < length (locs s)" "writes (locs s ! u)" "u \<noteq> ?t"
      by (auto simp: W_def)
    from u(1) have "u < length (locs s')" by (simp add: s')
    moreover from u(2) there [OF u(3)] have "writes (locs s' ! u)" by simp
    ultimately have "(writes (locs s' ! ?t) \<longrightarrow> ?t = u) \<and> \<not> reads (locs s' ! ?t)"
      using here(2) by (rule writer_alone [OF reach'])
    with here(1) now u(3) show False by simp
  qed
  have empty: "R - {?t} = {} \<and> \<not> reads l'" if now: "writes l'"
  proof -
    have "\<not> reads (locs s' ! u)" if "u < length (locs s)" for u
      using writer_alone [OF reach' here(2)] here(1) now that by (simp add: s')
    then have "\<not> reads (locs s ! u)" if "u < length (locs s)" "u \<noteq> ?t" for u
      using that there by metis
    moreover have "\<not> reads l'"
      using writer_alone [OF reach' here(2) _ here(2)] here(1) now by simp
    ultimately show ?thesis unfolding R_def by blast
  qed
  have mem: "?t \<in> R \<longleftrightarrow> reads ?l" "?t \<in> W \<longleftrightarrow> writes ?l" using t by (auto simp: R_def W_def)
  have views: "view s = \<lparr>lv_readers = R, lv_writers = W, lv_contents = payload (glob s)\<rparr>"
    "view s' = \<lparr>lv_readers = (if reads l' then insert ?t R else R - {?t}),
      lv_writers = (if writes l' then insert ?t W else W - {?t}), lv_contents = payload g'\<rparr>"
    by (simp_all add: lock_view_of_def R_def W_def s' R' [unfolded R_def] W' [unfolded W_def])
  show ?thesis
    using store_by_writer [OF p] alone free empty mem t
    by (cases "writes ?l"; cases "reads ?l"; cases "writes l'"; cases "reads l'")
      (auto simp: views lock_step_events_def here(1) after insert_absorb)
qed

lemma run_refines:
  "reachable prog start s \<Longrightarrow> run prog as s = Some s' \<Longrightarrow>
    lock_execs (lock_history prog reads writes payload as s) (view s) = Some (view s')"
proof (induction as arbitrary: s)
  case (Cons a as)
  then obtain s1 where s1: "sys_step prog a s = Some s1" "run prog as s1 = Some s'"
    by (auto split: option.splits)
  with Cons.IH [OF reachable_step [OF Cons.prems(1) s1(1)]] step_refines [OF Cons.prems(1) s1(1)]
  show ?case by (simp add: lock_execs_append)
qed simp

end

text \<open>A mutex is a lock nobody reads.\<close>

sublocale exclusive_lock \<subseteq> lock: shared_lock prog start "\<lambda>_. False" holds payload
proof
  fix s
  assume "reachable prog start s"
  then have "cnt holds (locs s) \<le> 1" by (rule exclusive)
  then have "cnt holds (locs s) = 0 \<or> cnt holds (locs s) = 1" by linarith
  moreover have "cnt (\<lambda>_. False) (locs s) = 0" by (simp only: cnt_0_iff) simp
  ultimately show "cnt holds (locs s) = 0 \<or> cnt holds (locs s) = 1 \<and> cnt (\<lambda>_. False) (locs s) = 0"
    by blast
qed (rule payload_by_holder)

end
