(* ===== verification/MutexCommon.thy ===== *)
theory MutexCommon
  imports LockSpec
begin

text \<open>
  \<open>src/utils/mutex_common.rs\<close>: the error type shared by the two mutexes, its equality and
  its messages.  A guard is a value of the type parameter.
\<close>

datatype 'g poisoned_lock = PoisonedLock (pl_guard: 'g)

datatype 'g lock_error = WouldBlock | Poisoned "'g poisoned_lock"

text \<open>\<open>LockResult<Guard> = Result<Guard, LockError<Guard>>\<close> of both mutexes.\<close>

type_synonym 'g lock_result = "'g lock_error + 'g"

fun lock_error_eq :: "'g lock_error \<Rightarrow> 'g lock_error \<Rightarrow> bool" where
  "lock_error_eq WouldBlock other = (case other of WouldBlock \<Rightarrow> True | _ \<Rightarrow> False)"
| "lock_error_eq (Poisoned _) other = (case other of WouldBlock \<Rightarrow> False | _ \<Rightarrow> True)"

fun lock_error_display :: "'g lock_error \<Rightarrow> string" where
  "lock_error_display WouldBlock = ''Error: Can cause blocking''"
| "lock_error_display (Poisoned _) = ''Error: Lock is poisoned''"

definition poisoned_lock_display :: "'g poisoned_lock \<Rightarrow> string" where
  "poisoned_lock_display _ = ''Lock is poisoned!''"

text \<open>The last lines of \<open>lock\<close> and \<open>try_lock\<close>: a poisoned lock hands the guard out in the error.\<close>

definition poison_result :: "bool \<Rightarrow> unit lock_result" where
  "poison_result poisoned = (if poisoned then Inl (Poisoned (PoisonedLock ())) else Inr ())"

text \<open>Does a result carry a guard?\<close>

fun carries_guard :: "'g lock_result \<Rightarrow> bool" where
  "carries_guard (Inr _) = True"
| "carries_guard (Inl (Poisoned _)) = True"
| "carries_guard (Inl WouldBlock) = False"

lemma carries_guard_poison_result [simp]: "carries_guard (poison_result b)"
  by (simp add: poison_result_def)

text \<open>
  Equality of lock errors is an equivalence relation that ignores the guard: two errors
  are equal exactly when they print the same message.\<close>

theorem lock_error_eq_display:
  "lock_error_eq a b = (lock_error_display a = lock_error_display b)"
  by (cases a; cases b) simp_all

end
