(* ===== verification/Progress.thy ===== *)
theory Progress
  imports Prelude
begin

text \<open>
  The contract of the operations that never wait: a thread inside one of them can always move,
  and returns after a bounded number of its own steps, whatever the other threads do
  meanwhile.  The laws speak of single steps of one thread; the lemmas speak of whole runs.
\<close>

text \<open>How many steps of a schedule are steps of one thread.\<close>

definition steps_of :: "nat \<Rightarrow> (nat \<times> 'op env) list \<Rightarrow> nat" where
  "steps_of t as = length (filter (\<lambda>a. fst a = t) as)"

lemma steps_of_simps [simp]:
  "steps_of t [] = 0"
  "steps_of t (a # as) = (if fst a = t then Suc (steps_of t as) else steps_of t as)"
  by (simp_all add: steps_of_def)

text \<open>
  A thread returns within \<open>n\<close> steps if it is not blocked, and if every run with \<open>n\<close> steps of the
  thread, and any number of steps of the others in between, passes a state in which it is
  back \<open>home\<close> with its client, unless the process has been \<open>halted\<close>.
\<close>

definition returns_within ::
  "('op, 'g, 'l) program \<Rightarrow> ('l \<Rightarrow> bool) \<Rightarrow> ('g \<Rightarrow> bool) \<Rightarrow> nat \<Rightarrow> nat \<Rightarrow> ('g, 'l) sys \<Rightarrow> bool" where
  "returns_within p home halted n t s \<longleftrightarrow>
     (\<forall>e. sys_step p (t, e) s \<noteq> None) \<and>
     (\<forall>as s'. run p as s = Some s' \<longrightarrow> n \<le> steps_of t as \<longrightarrow>
        (\<exists>xs ys s1. as = xs @ ys \<and> run p xs s = Some s1 \<and> steps_of t xs \<le> n \<and>
          (home (locs s1 ! t) \<or> halted (glob s1))))"

lemma returns_withinD:
  "returns_within p home halted n t s \<Longrightarrow> run p as s = Some s' \<Longrightarrow> n \<le> steps_of t as \<Longrightarrow>
    \<exists>xs ys s1. as = xs @ ys \<and> run p xs s = Some s1 \<and> steps_of t xs \<le> n \<and>
      (home (locs s1 ! t) \<or> halted (glob s1))"
  unfolding returns_within_def by blast

text \<open>
  What a component provides: a bound on the steps a thread still takes, positive inside its
  operations that do not wait, which every step of the thread lowers until it is home.
\<close>

locale wait_free =
  fixes prog :: "('op, 'g, 'l) program"
    and left :: "'l \<Rightarrow> nat"
    and home :: "'l \<Rightarrow> bool"
    and halted :: "'g \<Rightarrow> bool"
  assumes enabled: "0 < left l \<Longrightarrow> \<not> halted g \<Longrightarrow> prog e t g l \<noteq> None"
    and advances: "0 < left l \<Longrightarrow> prog e t g l = Some (g', l') \<Longrightarrow>
      halted g' \<or> home l' \<or> 0 < left l' \<and> left l' < left l"
begin

lemma finishes:
  assumes "run prog as s = Some s'" and "0 < left (locs s ! t)" and "left (locs s ! t) \<le> steps_of t as"
  shows "\<exists>xs ys s1. as = xs @ ys \<and> run prog xs s = Some s1 \<and> steps_of t xs \<le> left (locs s ! t) \<and>
    (home (locs s1 ! t) \<or> halted (glob s1))"
  using assms
proof (induction as arbitrary: s)
  case (Cons a as)
  then obtain s1 where s1: "sys_step prog a s = Some s1" and run: "run prog as s1 = Some s'"
    by (auto split: option.splits)
  then obtain g' l' where a: "fst a < length (locs s)"
    and p: "prog (snd a) (fst a) (glob s) (locs s ! fst a) = Some (g', l')"
    and s1': "s1 = \<lparr>glob = g', locs = (locs s)[fst a := l']\<rparr>"
    by (auto elim: sys_step_SomeE)
  show ?case
  proof (cases "home (locs s1 ! t) \<or> halted (glob s1)")
    case True
    moreover have "steps_of t [a] \<le> left (locs s ! t)" using Cons.prems(2) by simp
    ultimately show ?thesis
      using s1 by (intro exI [of _ "[a]"] exI [of _ as] exI [of _ s1]) simp
  next
    case False
    have bound: "0 < left (locs s1 ! t) \<and> left (locs s1 ! t) + steps_of t [a] \<le> left (locs s ! t)"
    proof (cases "fst a = t")
      case True
      with p have "prog (snd a) t (glob s) (locs s ! t) = Some (g', l')" by simp
      from advances [OF Cons.prems(2) this] False True a show ?thesis by (simp add: s1')
    qed (use s1' Cons.prems(2) in simp)
    moreover from this Cons.prems(3) have "left (locs s1 ! t) \<le> steps_of t as"
      by (simp split: if_splits)
    ultimately obtain xs ys s2 where "as = xs @ ys" "steps_of t xs \<le> left (locs s1 ! t)"
      "run prog xs s1 = Some s2" "home (locs s2 ! t) \<or> halted (glob s2)"
      using Cons.IH [OF run] by blast
    with s1 bound show ?thesis
      by (intro exI [of _ "a # xs"] exI [of _ ys] exI [of _ s2]) (simp split: if_splits)
  qed
qed simp

lemma returns:
  assumes "t < length (locs s)" and "0 < left (locs s ! t)" and "\<not> halted (glob s)"
    and "left (locs s ! t) \<le> n"
  shows "returns_within prog home halted n t s"
proof -
  have "sys_step prog (t, e) s \<noteq> None" for e
    using enabled [OF assms(2,3), of e t] assms(1) by (auto simp: sys_step_def)
  moreover have "\<exists>xs ys s1. as = xs @ ys \<and> run prog xs s = Some s1 \<and> steps_of t xs \<le> n \<and>
      (home (locs s1 ! t) \<or> halted (glob s1))"
    if run: "run prog as s = Some s'" and n: "n \<le> steps_of t as" for as s'
  proof -
    from n assms(4) have "left (locs s ! t) \<le> steps_of t as" by simp
    from finishes [OF run assms(2) this] obtain xs ys s1 where "as = xs @ ys"
      "run prog xs s = Some s1" "steps_of t xs \<le> left (locs s ! t)"
      "home (locs s1 ! t) \<or> halted (glob s1)" by blast
    with assms(4) show ?thesis using le_trans by blast
  qed
  ultimately show ?thesis unfolding returns_within_def by blast
qed

end

section \<open>What a schedule can bring about\<close>

text \<open>A sum over the threads, when one of them changes.\<close>

lemma sum_list_map_update:
  fixes f :: "'a \<Rightarrow> 'b::comm_monoid_add"
  shows "t < length xs \<Longrightarrow> sum_list (map f (xs[t := x])) + f (xs ! t) = sum_list (map f xs) + f x"
proof (induction xs arbitrary: t)
  case (Cons y ys)
  then show ?case by (cases t) (auto simp: ac_simps)
qed simp

lemma sum_list_map_update_less:
  fixes f :: "'a \<Rightarrow> nat"
  assumes "t < length xs" and "f x < f (xs ! t)"
  shows "sum_list (map f (xs[t := x])) < sum_list (map f xs)"
  using sum_list_map_update [OF assms(1), of f x] assms(2) by linarith

text \<open>Some schedule leads from one state to the other.\<close>

definition can_reach :: "('op, 'g, 'l) program \<Rightarrow> ('g, 'l) sys \<Rightarrow> ('g, 'l) sys \<Rightarrow> bool" where
  "can_reach p s s' \<longleftrightarrow> (\<exists>as. run p as s = Some s')"

lemma can_reach_refl [simp, intro]: "can_reach p s s"
  unfolding can_reach_def by (rule exI [of _ "[]"]) simp

lemma can_reach_step: "sys_step p a s = Some s' \<Longrightarrow> can_reach p s s'"
  unfolding can_reach_def by (rule exI [of _ "[a]"]) simp

lemma can_reach_trans: "can_reach p s s1 \<Longrightarrow> can_reach p s1 s2 \<Longrightarrow> can_reach p s s2"
  unfolding can_reach_def
proof (elim exE)
  fix as bs
  assume "run p as s = Some s1" and "run p bs s1 = Some s2"
  then show "\<exists>cs. run p cs s = Some s2" by (intro exI [of _ "as @ bs"]) (simp add: run_append)
qed

lemma can_reach_reachable: "reachable p start s \<Longrightarrow> can_reach p s s' \<Longrightarrow> reachable p start s'"
  unfolding can_reach_def using run_reachable by blast

text \<open>
  A goal can be reached if from every state on the way a schedule leads to the goal, or to a state closer
  to it.\<close>

lemma can_reach_closer:
  fixes dist :: "('g, 'l) sys \<Rightarrow> nat"
  assumes "\<And>s. reachable p start s \<Longrightarrow> way s \<Longrightarrow>
      \<exists>s'. can_reach p s s' \<and> (goal s' \<or> way s' \<and> dist s' < dist s)"
    and "reachable p start s" and "way s"
  shows "\<exists>s'. can_reach p s s' \<and> goal s'"
  using assms(2,3)
proof (induction "dist s" arbitrary: s rule: less_induct)
  case less
  from assms(1) [OF less.prems] obtain s1 where
    s1: "can_reach p s s1" "goal s1 \<or> way s1 \<and> dist s1 < dist s" by blast
  from s1(2) show ?case
  proof
    assume "way s1 \<and> dist s1 < dist s"
    with less.hyps can_reach_reachable [OF less.prems(1) s1(1)] obtain s2 where
      "can_reach p s1 s2" "goal s2" by blast
    with s1(1) can_reach_trans show ?thesis by blast
  qed (use s1 in blast)
qed

text \<open>The same where all steps are taken by one thread, with quiet choices of the environment.\<close>

lemma can_reach_alone:
  fixes dist :: "'g \<Rightarrow> 'l \<Rightarrow> nat"
  assumes "\<And>s. reachable p start s \<Longrightarrow> t < length (locs s) \<Longrightarrow> way (glob s) (locs s ! t) \<Longrightarrow>
      \<exists>e g' l'. p e t (glob s) (locs s ! t) = Some (g', l') \<and>
        (goal g' l' \<or> way g' l' \<and> dist g' l' < dist (glob s) (locs s ! t))"
    and "reachable p start s" and "t < length (locs s)" and "way (glob s) (locs s ! t)"
  shows "\<exists>g' l'. can_reach p s \<lparr>glob = g', locs = (locs s)[t := l']\<rparr> \<and> goal g' l'"
proof -
  let ?same = "\<lambda>s'. \<exists>l'. locs s' = (locs s)[t := l']"
  let ?goal = "\<lambda>s'. ?same s' \<and> goal (glob s') (locs s' ! t)"
  let ?way = "\<lambda>s'. ?same s' \<and> way (glob s') (locs s' ! t)"
  have "\<exists>s'. can_reach p s s' \<and> ?goal s'"
  proof (rule can_reach_closer [where way = ?way and dist = "\<lambda>s'. dist (glob s') (locs s' ! t)"])
    fix s1
    assume s1: "reachable p start s1" "?way s1"
    then have t: "t < length (locs s1)" using assms(3) by auto
    with assms(1) [OF s1(1)] s1(2) obtain e g' l' where step: "p e t (glob s1) (locs s1 ! t) = Some (g', l')"
      and closer: "goal g' l' \<or> way g' l' \<and> dist g' l' < dist (glob s1) (locs s1 ! t)" by blast
    let ?s' = "\<lparr>glob = g', locs = (locs s1)[t := l']\<rparr>"
    from t step have "sys_step p (t, e) s1 = Some ?s'" by (simp add: sys_step_def)
    then have "can_reach p s1 ?s'" by (rule can_reach_step)
    moreover from s1(2) have "?same ?s'" by auto
    ultimately show "\<exists>s'. can_reach p s1 s' \<and>
        (?goal s' \<or> ?way s' \<and> dist (glob s') (locs s' ! t) < dist (glob s1) (locs s1 ! t))"
      using closer t by (intro exI [of _ ?s']) auto
  next
    have "locs s = (locs s)[t := locs s ! t]" by simp
    with assms(4) show "?way s" by blast
  qed (rule assms(2))
  then obtain s' l' where "can_reach p s s'" "locs s' = (locs s)[t := l']" "goal (glob s') (locs s' ! t)"
    by blast
  with assms(3) show ?thesis by (intro exI [of _ "glob s'"] exI [of _ l']) (cases s', simp)
qed

end
