(* ===== verification/Embedding.thy ===== *)
theory Embedding
  imports LockSpec
begin

text \<open>
  Programs that run another program inside: a condition variable runs the operations of its
  mutex, a client thread those of its lock.  Where each step of the outer program leaves the
  inner part alone or is a step of the inner program, the inner part of a reachable state is a reachable
  state of the inner program, and a lock inside is a lock outside.
\<close>

text \<open>The choices of the environment for a step of an embedded program.\<close>

definition with_call :: "'b \<Rightarrow> 'op env \<Rightarrow> 'b env" where
  "with_call op e = \<lparr>call = op, weak_fails = weak_fails e, spurious = spurious e,
     clock = clock e, pick = pick e\<rparr>"

lemma with_call_simps [simp]:
  "call (with_call op e) = op" "weak_fails (with_call op e) = weak_fails e"
  "spurious (with_call op e) = spurious e" "clock (with_call op e) = clock e"
  "pick (with_call op e) = pick e"
  by (simp_all add: with_call_def)

definition sys_view :: "('g \<Rightarrow> 'h) \<Rightarrow> ('l \<Rightarrow> 'm) \<Rightarrow> ('g, 'l) sys \<Rightarrow> ('h, 'm) sys" where
  "sys_view pg pl s = \<lparr>glob = pg (glob s), locs = map pl (locs s)\<rparr>"

lemma cnt_map: "cnt P (map f ls) = cnt (\<lambda>l. P (f l)) ls"
  by (induction ls) auto

locale embedding =
  fixes outer :: "('o, 'g, 'l) program"
    and outer_start :: "('g, 'l) sys \<Rightarrow> bool"
    and inner :: "('p, 'h, 'm) program"
    and inner_start :: "('h, 'm) sys \<Rightarrow> bool"
    and pg :: "'g \<Rightarrow> 'h"
    and pl :: "'l \<Rightarrow> 'm"
  assumes simulates: "outer e t g l = Some (g', l') \<Longrightarrow>
      pg g' = pg g \<and> pl l' = pl l \<or> (\<exists>e'. inner e' t (pg g) (pl l) = Some (pg g', pl l'))"
    and starts: "outer_start s \<Longrightarrow> inner_start (sys_view pg pl s)"
begin

lemma step_view:
  assumes "sys_step outer a s = Some s'"
  shows "sys_view pg pl s' = sys_view pg pl s \<or>
    (\<exists>b. sys_step inner b (sys_view pg pl s) = Some (sys_view pg pl s'))"
proof -
  from assms obtain g' l' where t: "fst a < length (locs s)"
    and step: "outer (snd a) (fst a) (glob s) (locs s ! fst a) = Some (g', l')"
    and s': "s' = \<lparr>glob = g', locs = (locs s)[fst a := l']\<rparr>" by (rule sys_step_SomeE)
  from simulates [OF step] show ?thesis
  proof
    assume "pg g' = pg (glob s) \<and> pl l' = pl (locs s ! fst a)"
    moreover have "(map pl (locs s))[fst a := pl (locs s ! fst a)] = map pl (locs s)"
      using t by (metis length_map list_update_id nth_map)
    ultimately show ?thesis by (simp add: sys_view_def s' map_update)
  next
    assume "\<exists>e'. inner e' (fst a) (pg (glob s)) (pl (locs s ! fst a)) = Some (pg g', pl l')"
    then obtain e' where "inner e' (fst a) (pg (glob s)) (pl (locs s ! fst a)) = Some (pg g', pl l')" ..
    then have "sys_step inner (fst a, e') (sys_view pg pl s) = Some (sys_view pg pl s')"
      using t by (simp add: sys_step_def sys_view_def s' map_update)
    then show ?thesis by blast
  qed
qed

lemma view_reachable:
  "reachable outer outer_start s \<Longrightarrow> reachable inner inner_start (sys_view pg pl s)"
proof (induction rule: reachable.induct)
  case (reachable_init s)
  then show ?case by (intro reachable.reachable_init starts)
next
  case (reachable_step s a s')
  then show ?case using step_view [OF reachable_step.hyps(2)] by (metis reachable.reachable_step)
qed

end

text \<open>A lock that is used inside another program.\<close>

locale embedded_lock =
  embedding outer outer_start inner inner_start pg pl +
  exclusive_lock inner inner_start holds payload
  for outer :: "('o, 'g, 'l) program"
    and outer_start :: "('g, 'l) sys \<Rightarrow> bool"
    and inner :: "('p, 'h, 'm) program"
    and inner_start :: "('h, 'm) sys \<Rightarrow> bool"
    and pg :: "'g \<Rightarrow> 'h"
    and pl :: "'l \<Rightarrow> 'm"
    and holds :: "'m \<Rightarrow> bool"
    and payload :: "'h \<Rightarrow> 'd"

sublocale embedded_lock \<subseteq> outside: exclusive_lock outer outer_start "\<lambda>l. holds (pl l)" "\<lambda>g. payload (pg g)"
proof
  fix s
  assume "reachable outer outer_start s"
  from exclusive [OF view_reachable [OF this]] show "cnt (\<lambda>l. holds (pl l)) (locs s) \<le> 1"
    by (simp add: sys_view_def cnt_map)
next
  fix e t g l g' l'
  assume "outer e t g l = Some (g', l')" and "payload (pg g') \<noteq> payload (pg g)"
  then show "holds (pl l) \<and> holds (pl l')"
    using simulates payload_by_holder by metis
qed

end
