(* ===== verification/Worker.thy ===== *)
theory Worker
  imports Embedding Progress
begin

text \<open>
  Threads that use a lock the way the stress tests of the library do: each locks, updates the data and
  unlocks, a given number of times.  The update is not atomic: a thread loads the data in one
  step and stores the new value in a later one, with the steps of all other threads in
  between.  That no update is lost, and that no \<open>unwrap\<close> of a lock result panics, is
  what the lock has to achieve; it follows here from a contract on the lock's operations.
\<close>

section \<open>The client threads\<close>

text \<open>How a client calls a lock, and how it sees that a call has returned, and with \<open>Ok\<close>.\<close>

record ('op, 'd, 'l) lock_api =
  api_lock :: 'op
  api_unlock :: 'op
  api_write :: "('d \<Rightarrow> 'd) \<Rightarrow> 'op"
  api_idle :: "'l \<Rightarrow> bool"
  api_ok :: "'l \<Rightarrow> bool"

datatype 'd worker_pc = Wk_lock | Wk_load | Wk_store 'd | Wk_unlock | Wk_panicked

record ('d, 'l) worker =
  wk_pc :: "'d worker_pc"
  wk_left :: nat
  wk_lock :: 'l

text \<open>\<open>wk_left\<close> counts the stores the thread has still to make.\<close>

definition worker_prog ::
  "('op, 'g, 'l) program \<Rightarrow> ('op, 'd, 'l) lock_api \<Rightarrow> ('g \<Rightarrow> 'd) \<Rightarrow> ('d \<Rightarrow> 'd) \<Rightarrow>
     (unit, 'g, ('d, 'l) worker) program" where
  "worker_prog prog api payload upd e t g w =
     (case wk_pc w of
        Wk_lock \<Rightarrow>
          (if wk_left w = 0 then None
           else case prog (with_call (api_lock api) e) t g (wk_lock w) of
                  None \<Rightarrow> None
                | Some (g', l') \<Rightarrow> Some (g', w\<lparr>wk_lock := l', wk_pc :=
                    (if \<not> api_idle api l' then Wk_lock
                     else if api_ok api l' then Wk_load else Wk_panicked)\<rparr>))
      | Wk_load \<Rightarrow> Some (g, w\<lparr>wk_pc := Wk_store (payload g)\<rparr>)
      | Wk_store d \<Rightarrow>
          (case prog (with_call (api_write api (\<lambda>_. upd d)) e) t g (wk_lock w) of
             None \<Rightarrow> None
           | Some (g', l') \<Rightarrow> Some (g', w\<lparr>wk_lock := l', wk_pc := Wk_unlock, wk_left := wk_left w - 1\<rparr>))
      | Wk_unlock \<Rightarrow>
          (case prog (with_call (api_unlock api) e) t g (wk_lock w) of
             None \<Rightarrow> None
           | Some (g', l') \<Rightarrow> Some (g', w\<lparr>wk_lock := l',
               wk_pc := (if api_idle api l' then Wk_lock else Wk_unlock)\<rparr>))
      | Wk_panicked \<Rightarrow> None)"

text \<open>\<open>n\<close> threads with \<open>k\<close> updates each, on data that is \<open>d\<close> at first.\<close>

definition worker_start ::
  "(('g, 'l) sys \<Rightarrow> bool) \<Rightarrow> ('g \<Rightarrow> 'd) \<Rightarrow> 'd \<Rightarrow> nat \<Rightarrow> nat \<Rightarrow> ('g, ('d, 'l) worker) sys \<Rightarrow> bool" where
  "worker_start start payload d n k s \<longleftrightarrow>
     start (sys_view id wk_lock s) \<and> payload (glob s) = d \<and> length (locs s) = n \<and>
     (\<forall>w \<in> set (locs s). wk_pc w = Wk_lock \<and> wk_left w = k)"

text \<open>The stores still to come, of all threads.\<close>

definition work_left :: "('d, 'l) worker list \<Rightarrow> nat" where
  "work_left ws = sum_list (map wk_left ws)"

lemma work_left_update:
  "t < length ws \<Longrightarrow> work_left (ws[t := w]) + wk_left (ws ! t) = work_left ws + wk_left w"
  unfolding work_left_def by (rule sum_list_map_update)

lemma work_left_const:
  "\<forall>w \<in> set ws. wk_left w = k \<Longrightarrow> work_left ws = length ws * k"
  by (induction ws) (auto simp: work_left_def)

lemma work_left_0: "work_left ws = 0 \<longleftrightarrow> (\<forall>w \<in> set ws. wk_left w = 0)"
  by (induction ws) (auto simp: work_left_def)

lemma funpow_plus_1: "((\<lambda>x. x + 1) ^^ m) d = d + of_nat m"
  for d :: "'a::semiring_1"
  by (induction m) (simp_all add: ac_simps)

section \<open>The contract of the lock\<close>

text \<open>
  A thread is \<open>outside\<close> the lock, \<open>entering\<close>, \<open>inside\<close> or \<open>leaving\<close>.  While the shared state is \<open>sound\<close> (not poisoned),
  a call of \<open>lock\<close> that returns returns \<open>Ok\<close> and puts the thread inside; a store keeps it inside; a call of \<open>unlock\<close> that
  returns puts it outside; and only the store changes the data.
\<close>

locale worker_lock = exclusive_lock prog start holds payload
  for prog :: "('op, 'g, 'l) program" and start :: "('g, 'l) sys \<Rightarrow> bool"
    and holds :: "'l \<Rightarrow> bool" and payload :: "'g \<Rightarrow> 'd" +
  fixes api :: "('op, 'd, 'l) lock_api"
    and sound :: "'g \<Rightarrow> bool"
    and outside :: "'l \<Rightarrow> bool"
    and entering :: "'l \<Rightarrow> bool"
    and inside :: "'l \<Rightarrow> bool"
    and leaving :: "'l \<Rightarrow> bool"
  assumes fresh: "start s \<Longrightarrow> sound (glob s) \<and> (\<forall>l \<in> set (locs s). outside l)"
    and enter: "reachable prog start s \<Longrightarrow> t < length (locs s) \<Longrightarrow> sound (glob s) \<Longrightarrow>
      outside (locs s ! t) \<or> entering (locs s ! t) \<Longrightarrow>
      prog (with_call (api_lock api) (e :: unit env)) t (glob s) (locs s ! t) = Some (g', l') \<Longrightarrow>
      sound g' \<and> payload g' = payload (glob s) \<and>
      (if api_idle api l' then api_ok api l' \<and> inside l' else entering l')"
    and work: "sound g \<Longrightarrow> inside l \<Longrightarrow> prog (with_call (api_write api f) (e :: unit env)) t g l = Some (g', l') \<Longrightarrow>
      sound g' \<and> payload g' = f (payload g) \<and> inside l'"
    and leave: "sound g \<Longrightarrow> inside l \<or> leaving l \<Longrightarrow>
      prog (with_call (api_unlock api) (e :: unit env)) t g l = Some (g', l') \<Longrightarrow>
      sound g' \<and> payload g' = payload g \<and> (if api_idle api l' then outside l' else leaving l')"
    and inside_holds: "inside l \<Longrightarrow> holds l"
begin

abbreviation "client upd \<equiv> worker_prog prog api payload upd"

lemma client_simulates:
  assumes "client upd e t g w = Some (g', w')"
  shows "id g' = id g \<and> wk_lock w' = wk_lock w \<or>
    (\<exists>e'. prog e' t (id g) (wk_lock w) = Some (id g', wk_lock w'))"
  using assms by (auto simp: worker_prog_def split: worker_pc.splits option.splits if_splits)

end

text \<open>The lock is embedded in the client, so it still excludes and guards the data there.\<close>

sublocale worker_lock \<subseteq>
  work: embedded_lock "worker_prog prog api payload upd" "worker_start start payload d n k"
    prog start id wk_lock holds payload
  for upd d n k
  by unfold_locales (use client_simulates in \<open>auto simp: worker_start_def\<close>)

context worker_lock
begin

text \<open>Where a client thread stands with the lock, and what it knows of the data.\<close>

fun client_ok :: "'g \<Rightarrow> ('d, 'l) worker \<Rightarrow> bool" where
  "client_ok g w =
     (case wk_pc w of
        Wk_lock \<Rightarrow> outside (wk_lock w) \<or> entering (wk_lock w) \<and> 0 < wk_left w
      | Wk_load \<Rightarrow> inside (wk_lock w) \<and> 0 < wk_left w
      | Wk_store d \<Rightarrow> inside (wk_lock w) \<and> 0 < wk_left w \<and> d = payload g
      | Wk_unlock \<Rightarrow> inside (wk_lock w) \<or> leaving (wk_lock w)
      | Wk_panicked \<Rightarrow> False)"

lemma client_step:
  assumes reach: "reachable prog start (sys_view id wk_lock s)"
    and t: "t < length (locs s)" and sound: "sound (glob s)" and ok: "client_ok (glob s) (locs s ! t)"
    and step: "client upd e t (glob s) (locs s ! t) = Some (g', w')"
  shows "sound g' \<and> client_ok g' w' \<and>
    (payload g' = payload (glob s) \<and> wk_left w' = wk_left (locs s ! t) \<or>
     payload g' = upd (payload (glob s)) \<and> Suc (wk_left w') = wk_left (locs s ! t) \<and>
       inside (wk_lock (locs s ! t)))"
proof (cases "wk_pc (locs s ! t)")
  case Wk_lock
  then obtain l' where "prog (with_call (api_lock api) e) t (glob s) (wk_lock (locs s ! t)) = Some (g', l')"
    and "0 < wk_left (locs s ! t)"
    and "w' = (locs s ! t)\<lparr>wk_lock := l', wk_pc :=
      (if \<not> api_idle api l' then Wk_lock else if api_ok api l' then Wk_load else Wk_panicked)\<rparr>"
    using step by (auto simp: worker_prog_def split: option.splits if_splits)
  with enter [OF reach, of t e g' l'] Wk_lock ok sound t show ?thesis
    by (auto simp: sys_view_def split: if_splits)
next
  case Wk_load
  with step ok sound show ?thesis by (auto simp: worker_prog_def)
next
  case (Wk_store d)
  then obtain l' where "prog (with_call (api_write api (\<lambda>_. upd d)) e) t (glob s) (wk_lock (locs s ! t)) = Some (g', l')"
    and "w' = (locs s ! t)\<lparr>wk_lock := l', wk_pc := Wk_unlock, wk_left := wk_left (locs s ! t) - 1\<rparr>"
    using step by (auto simp: worker_prog_def split: option.splits)
  with work [of "glob s" "wk_lock (locs s ! t)"] Wk_store ok sound show ?thesis by auto
next
  case Wk_unlock
  then obtain l' where "prog (with_call (api_unlock api) e) t (glob s) (wk_lock (locs s ! t)) = Some (g', l')"
    and "w' = (locs s ! t)\<lparr>wk_lock := l', wk_pc := (if api_idle api l' then Wk_lock else Wk_unlock)\<rparr>"
    using step by (auto simp: worker_prog_def split: option.splits)
  with leave [of "glob s" "wk_lock (locs s ! t)" e t g' l'] Wk_unlock ok sound show ?thesis
    by (auto split: if_splits)
next
  case Wk_panicked
  with ok show ?thesis by simp
qed

text \<open>What a thread knows of the data stays true while the others move: it is inside, and alone.\<close>

lemma client_ok_other:
  assumes reach: "reachable prog start (sys_view id wk_lock s)"
    and "t < length (locs s)" "u < length (locs s)" "u \<noteq> t"
    and ok: "client_ok (glob s) (locs s ! u)"
    and change: "payload g' = payload (glob s) \<or> inside (wk_lock (locs s ! t))"
  shows "client_ok g' (locs s ! u)"
proof (cases "payload g' = payload (glob s)")
  case True
  with ok show ?thesis by (simp split: worker_pc.splits)
next
  case False
  with change have "holds (wk_lock (locs s ! t))" by (auto intro: inside_holds)
  with holders_equal [OF reach, of t u] assms(2-4) have "\<not> holds (wk_lock (locs s ! u))"
    by (auto simp: sys_view_def)
  then have "\<not> inside (wk_lock (locs s ! u))" using inside_holds by blast
  with ok show ?thesis by (simp split: worker_pc.splits)
qed

lemma client_invariant:
  "reachable (client upd) (worker_start start payload d n k) s \<Longrightarrow>
    sound (glob s) \<and> (\<forall>t < length (locs s). client_ok (glob s) (locs s ! t)) \<and>
    (upd ^^ work_left (locs s)) (payload (glob s)) = (upd ^^ (n * k)) d"
proof (induction rule: reachable.induct)
  case (reachable_init s)
  then have "work_left (locs s) = n * k" and "payload (glob s) = d"
    and "\<forall>w \<in> set (locs s). wk_pc w = Wk_lock"
    by (auto simp: worker_start_def work_left_const)
  with reachable_init show ?case
    using fresh [of "sys_view id wk_lock s"] by (auto simp: worker_start_def sys_view_def)
next
  case (reachable_step s a s')
  let ?t = "fst a" let ?w = "locs s ! fst a"
  from reachable_step.hyps(2) obtain g' w' where t: "?t < length (locs s)"
    and step: "client upd (snd a) ?t (glob s) ?w = Some (g', w')"
    and s': "s' = \<lparr>glob = g', locs = (locs s)[?t := w']\<rparr>" by (rule sys_step_SomeE)
  note reach = work.view_reachable [OF reachable_step.hyps(1)]
  from reachable_step.IH have IH: "sound (glob s)" "\<And>u. u < length (locs s) \<Longrightarrow> client_ok (glob s) (locs s ! u)"
    "(upd ^^ work_left (locs s)) (payload (glob s)) = (upd ^^ (n * k)) d" by blast+
  from client_step [OF reach t IH(1) IH(2) [OF t] step] have sound: "sound g'" and ok: "client_ok g' w'"
    and eff: "payload g' = payload (glob s) \<and> wk_left w' = wk_left ?w \<or>
      payload g' = upd (payload (glob s)) \<and> Suc (wk_left w') = wk_left ?w \<and> inside (wk_lock ?w)"
    by blast+
  have "client_ok g' ((locs s)[?t := w'] ! u)" if "u < length (locs s)" for u
  proof (cases "u = ?t")
    case True
    with ok t show ?thesis by (simp del: client_ok.simps)
  next
    case False
    with client_ok_other [OF reach t that False IH(2) [OF that], of g'] eff show ?thesis
      by (auto simp del: client_ok.simps)
  qed
  moreover have "(upd ^^ work_left ((locs s)[?t := w'])) (payload g') = (upd ^^ (n * k)) d"
    using eff
  proof
    assume "payload g' = payload (glob s) \<and> wk_left w' = wk_left ?w"
    with work_left_update [OF t, of w'] IH(3) show ?thesis by simp
  next
    assume *: "payload g' = upd (payload (glob s)) \<and> Suc (wk_left w') = wk_left ?w \<and> inside (wk_lock ?w)"
    with work_left_update [OF t, of w'] have "work_left (locs s) = Suc (work_left ((locs s)[?t := w']))"
      by simp
    with IH(3) * show ?thesis by (simp add: funpow_swap1)
  qed
  ultimately show ?case using sound by (simp add: s' del: client_ok.simps)
qed

theorem no_update_lost:
  assumes "reachable (client upd) (worker_start start payload d n k) s"
  shows "(\<forall>w \<in> set (locs s). wk_pc w \<noteq> Wk_panicked) \<and>
    (upd ^^ work_left (locs s)) (payload (glob s)) = (upd ^^ (n * k)) d"
  using client_invariant [OF assms] by (fastforce simp: in_set_conv_nth)

end

section \<open>Locks whose users can always finish\<close>

text \<open>
  A thread is \<open>able\<close> to get the lock if it does so when it runs alone; \<open>enter_rank\<close> and \<open>leave_rank\<close> bound
  the steps this takes, and those of unlocking.  When nobody is inside or leaving, a thread that wants the lock is able to get it, or
  one that is already entering is.
\<close>

locale completing_lock = worker_lock prog start holds payload api sound outside entering inside leaving
  for prog :: "('op, 'g, 'l) program" and start :: "('g, 'l) sys \<Rightarrow> bool"
    and holds :: "'l \<Rightarrow> bool" and payload :: "'g \<Rightarrow> 'd"
    and api :: "('op, 'd, 'l) lock_api" and sound :: "'g \<Rightarrow> bool"
    and outside :: "'l \<Rightarrow> bool" and entering :: "'l \<Rightarrow> bool"
    and inside :: "'l \<Rightarrow> bool" and leaving :: "'l \<Rightarrow> bool" +
  fixes able :: "'g \<Rightarrow> nat \<Rightarrow> 'l \<Rightarrow> bool"
    and enter_rank :: "'g \<Rightarrow> 'l \<Rightarrow> nat"
    and leave_rank :: "'l \<Rightarrow> nat"
  assumes enter_advances: "reachable prog start s \<Longrightarrow> t < length (locs s) \<Longrightarrow>
      outside (locs s ! t) \<or> entering (locs s ! t) \<Longrightarrow> able (glob s) t (locs s ! t) \<Longrightarrow>
      \<exists>g' l'. prog (with_call (api_lock api) (quiet ())) t (glob s) (locs s ! t) = Some (g', l') \<and>
        (api_idle api l' \<or> able g' t l' \<and> enter_rank g' l' < enter_rank (glob s) (locs s ! t))"
    and work_moves: "inside l \<Longrightarrow> prog (with_call (api_write api f) (quiet ())) t g l \<noteq> None"
    and leave_advances: "inside l \<or> leaving l \<Longrightarrow>
      \<exists>g' l'. prog (with_call (api_unlock api) (quiet ())) t g l = Some (g', l') \<and>
        (api_idle api l' \<or> leave_rank l' < leave_rank l)"
    and some_able: "reachable prog start s \<Longrightarrow> \<forall>l \<in> set (locs s). outside l \<or> entering l \<Longrightarrow> t < length (locs s) \<Longrightarrow>
      \<exists>u < length (locs s). able (glob s) u (locs s ! u) \<and> (u = t \<or> \<not> outside (locs s ! u))"
begin

text \<open>What a thread has still to do: two units for each update, and one for an unlock that is due.\<close>

definition debt :: "('d, 'l) worker \<Rightarrow> nat" where
  "debt w = 2 * wk_left w + (if wk_pc w = Wk_unlock then 1 else 0)"

abbreviation debts :: "('g, ('d, 'l) worker) sys \<Rightarrow> nat" where
  "debts s \<equiv> sum_list (map debt (locs s))"

definition ready :: "'g \<Rightarrow> nat \<Rightarrow> ('d, 'l) worker \<Rightarrow> bool" where
  "ready g t w \<longleftrightarrow> wk_pc w \<noteq> Wk_lock \<or> 0 < wk_left w \<and> able g t (wk_lock w)"

definition client_rank :: "'g \<Rightarrow> ('d, 'l) worker \<Rightarrow> nat" where
  "client_rank g w =
     (case wk_pc w of
        Wk_lock \<Rightarrow> 2 + enter_rank g (wk_lock w)
      | Wk_load \<Rightarrow> 1
      | Wk_unlock \<Rightarrow> leave_rank (wk_lock w)
      | _ \<Rightarrow> 0)"

lemma client_advances:
  assumes reach: "reachable (client upd) (worker_start start payload d n k) s"
    and t: "t < length (locs s)" and ready: "ready (glob s) t (locs s ! t)"
  shows "\<exists>g' w'. client upd (quiet ()) t (glob s) (locs s ! t) = Some (g', w') \<and>
    (debt w' < debt (locs s ! t) \<or> debt w' = debt (locs s ! t) \<and> ready g' t w' \<and>
       client_rank g' w' < client_rank (glob s) (locs s ! t))"
proof -
  note inner = work.view_reachable [OF reach]
  have sound: "sound (glob s)" and ok: "client_ok (glob s) (locs s ! t)"
    using client_invariant [OF reach] t by blast+
  show ?thesis
  proof (cases "wk_pc (locs s ! t)")
    case Wk_lock
    with ready ok have "0 < wk_left (locs s ! t)" "able (glob s) t (wk_lock (locs s ! t))"
      and out: "outside (wk_lock (locs s ! t)) \<or> entering (wk_lock (locs s ! t))" by (auto simp: ready_def)
    moreover from this enter_advances [OF inner, of t] t obtain g' l' where
      step: "prog (with_call (api_lock api) (quiet ())) t (glob s) (wk_lock (locs s ! t)) = Some (g', l')"
      "api_idle api l' \<or> able g' t l' \<and> enter_rank g' l' < enter_rank (glob s) (wk_lock (locs s ! t))"
      by (auto simp: sys_view_def)
    moreover have "api_idle api l' \<Longrightarrow> api_ok api l'"
      using enter [OF inner, of t "quiet ()" g' l'] t sound out step(1) by (auto simp: sys_view_def)
    ultimately show ?thesis using Wk_lock by (auto simp: worker_prog_def debt_def ready_def client_rank_def)
  next
    case Wk_load
    then show ?thesis by (simp add: worker_prog_def debt_def ready_def client_rank_def)
  next
    case (Wk_store x)
    with ok have "inside (wk_lock (locs s ! t))" and "0 < wk_left (locs s ! t)" by simp_all
    moreover from this work_moves obtain g' l' where
      "prog (with_call (api_write api (\<lambda>_. upd x)) (quiet ())) t (glob s) (wk_lock (locs s ! t)) = Some (g', l')"
      by fast
    moreover from \<open>0 < wk_left (locs s ! t)\<close>
    have "Suc (2 * (wk_left (locs s ! t) - 1)) < 2 * wk_left (locs s ! t)" by arith
    ultimately show ?thesis using Wk_store by (simp add: worker_prog_def debt_def)
  next
    case Wk_unlock
    with ok have "inside (wk_lock (locs s ! t)) \<or> leaving (wk_lock (locs s ! t))" by simp
    from leave_advances [OF this, of t "glob s"] obtain g' l' where
      "prog (with_call (api_unlock api) (quiet ())) t (glob s) (wk_lock (locs s ! t)) = Some (g', l')"
      "api_idle api l' \<or> leave_rank l' < leave_rank (wk_lock (locs s ! t))" by blast
    with Wk_unlock show ?thesis by (auto simp: worker_prog_def debt_def ready_def client_rank_def)
  next
    case Wk_panicked
    with ok show ?thesis by simp
  qed
qed

lemma some_ready:
  assumes reach: "reachable (client upd) (worker_start start payload d n k) s" and "0 < debts s"
  shows "\<exists>t < length (locs s). ready (glob s) t (locs s ! t)"
proof (cases "\<forall>w \<in> set (locs s). wk_pc w = Wk_lock")
  case True
  then have ok: "outside (wk_lock (locs s ! t)) \<or> entering (wk_lock (locs s ! t)) \<and> 0 < wk_left (locs s ! t)"
    if "t < length (locs s)" for t
    using client_invariant [OF reach] that by auto
  have "\<not> (\<forall>w \<in> set (locs s). debt w = 0)" 
  proof
    assume "\<forall>w \<in> set (locs s). debt w = 0"
    then have "debts s = 0" by (simp add: sum_list_eq_0_iff)
    with assms(2) show False by simp
  qed
  with True obtain w where "w \<in> set (locs s)" "0 < wk_left w" by (auto simp: debt_def)
  then obtain t where t: "t < length (locs s)" "0 < wk_left (locs s ! t)" by (auto simp: in_set_conv_nth)
  have "\<forall>l \<in> set (map wk_lock (locs s)). outside l \<or> entering l" using ok by (force simp: in_set_conv_nth)
  with some_able [OF work.view_reachable [OF reach], of t] t(1) obtain u where
    "u < length (locs s)" "able (glob s) u (wk_lock (locs s ! u))"
    "u = t \<or> \<not> outside (wk_lock (locs s ! u))" by (auto simp: sys_view_def)
  moreover from this ok t have "0 < wk_left (locs s ! u)" by blast
  ultimately show ?thesis by (auto simp: ready_def)
next
  case False
  then show ?thesis by (auto simp: ready_def in_set_conv_nth)
qed

lemma debts_decrease:
  assumes reach: "reachable (client upd) (worker_start start payload d n k) s"
    and t: "t < length (locs s)" and ready: "ready (glob s) t (locs s ! t)"
  shows "\<exists>s'. can_reach (client upd) s s' \<and> debts s' < debts s"
proof -
  define m where "m = debt (locs s ! t)"
  have "\<exists>g' w'. can_reach (client upd) s \<lparr>glob = g', locs = (locs s)[t := w']\<rparr> \<and> debt w' < m"
  proof (rule can_reach_alone [where way = "\<lambda>g w. debt w = m \<and> ready g t w" and dist = client_rank, OF _ reach t])
    fix s
    assume s: "reachable (client upd) (worker_start start payload d n k) s" "t < length (locs s)"
      and way: "debt (locs s ! t) = m \<and> ready (glob s) t (locs s ! t)"
    from client_advances [OF s] way
    show "\<exists>e g' w'. client upd e t (glob s) (locs s ! t) = Some (g', w') \<and>
        (debt w' < m \<or> (debt w' = m \<and> ready g' t w') \<and> client_rank g' w' < client_rank (glob s) (locs s ! t))"
      by blast
  qed (simp add: m_def ready)
  then obtain g' w' where "can_reach (client upd) s \<lparr>glob = g', locs = (locs s)[t := w']\<rparr>"
    and "debt w' < debt (locs s ! t)" by (auto simp: m_def)
  with t show ?thesis
    by (intro exI [of _ "\<lparr>glob = g', locs = (locs s)[t := w']\<rparr>"])
      (simp add: sum_list_map_update_less)
qed

theorem always_completes:
  assumes "reachable (client upd) (worker_start start payload d n k) s"
  shows "\<exists>s'. can_reach (client upd) s s' \<and> (\<forall>w \<in> set (locs s'). wk_left w = 0 \<and> outside (wk_lock w)) \<and>
    payload (glob s') = (upd ^^ (n * k)) d"
proof -
  have "\<exists>s'. can_reach (client upd) s s' \<and> debts s' = 0"
  proof (rule can_reach_closer [where way = "\<lambda>_. True" and dist = debts, OF _ assms])
    fix s
    assume s: "reachable (client upd) (worker_start start payload d n k) s"
    show "\<exists>s'. can_reach (client upd) s s' \<and> (debts s' = 0 \<or> True \<and> debts s' < debts s)"
      using some_ready [OF s] debts_decrease [OF s] by (cases "debts s = 0") blast+
  qed simp
  then obtain s' where s': "can_reach (client upd) s s'" "debts s' = 0" by blast
  then have reach: "reachable (client upd) (worker_start start payload d n k) s'"
    using can_reach_reachable [OF assms] by blast
  have over: "wk_left w = 0 \<and> wk_pc w \<noteq> Wk_unlock" if "w \<in> set (locs s')" for w
    using s'(2) that by (auto simp: debt_def sum_list_eq_0_iff split: if_splits)
  have "outside (wk_lock w)" if "w \<in> set (locs s')" for w
  proof -
    from that client_invariant [OF reach] have "client_ok (glob s') w" by (auto simp: in_set_conv_nth)
    with over [OF that] show ?thesis by (cases "wk_pc w") auto
  qed
  moreover have "work_left (locs s') = 0" using over by (simp add: work_left_0)
  ultimately show ?thesis using s'(1) over client_invariant [OF reach] by (intro exI [of _ s']) auto
qed

end

end
