(* ===== verification/MutexV1.thy ===== *)
theory MutexV1
  imports MutexCommon Progress Worker
begin

text \<open>
  The parking mutex of \<open>src/mutex_v1.rs\<close>: the state word holds the identifier of the owner or 0,
  and a spin bit guards a queue of threads that parked.  Threads stand for their own handles.
  \<open>park_tokens\<close> is the state of \<open>std::thread::park\<close> and \<open>unpark\<close>: the set of threads whose
  token is available; \<open>park\<close> may also return spuriously.
\<close>

section \<open>State\<close>

record 'a mutex1 =
  m1_data :: 'a
  queue_is_accessed :: bool
  m1_state :: usize
  m1_queue :: "nat list"
  m1_poisoned :: bool
  park_tokens :: "nat set"

definition m1_new :: "'a \<Rightarrow> 'a mutex1" where
  "m1_new d = \<lparr>m1_data = d, queue_is_accessed = False, m1_state = 0, m1_queue = [],
     m1_poisoned = False, park_tokens = {}\<rparr>"

definition m1_is_poisoned :: "'a mutex1 \<Rightarrow> bool" where
  "m1_is_poisoned g = m1_poisoned g"

definition m1_clear_poison :: "'a mutex1 \<Rightarrow> 'a mutex1" where
  "m1_clear_poison g = g\<lparr>m1_poisoned := False\<rparr>"

definition m1_into_inner :: "'a mutex1 \<Rightarrow> 'a" where
  "m1_into_inner g = m1_data g"

definition m1_get_mut :: "('a \<Rightarrow> 'a) \<Rightarrow> 'a mutex1 \<Rightarrow> 'a mutex1" where
  "m1_get_mut f g = g\<lparr>m1_data := f (m1_data g)\<rparr>"

section \<open>The queue\<close>

datatype m1_enq_pc = EQ_load | EQ_cas | EQ_push | EQ_release | EQ_park

fun m1_enqueue_step ::
  "'op env \<Rightarrow> nat \<Rightarrow> 'a mutex1 \<Rightarrow> m1_enq_pc \<Rightarrow> ('a mutex1 \<times> (m1_enq_pc, unit) ctl) option" where
  "m1_enqueue_step e t g EQ_load = Some (g, Next (if queue_is_accessed g then EQ_load else EQ_cas))"
| "m1_enqueue_step e t g EQ_cas =
     (if \<not> queue_is_accessed g \<and> \<not> weak_fails e
      then Some (g\<lparr>queue_is_accessed := True\<rparr>, Next EQ_push)
      else Some (g, Next EQ_load))"
| "m1_enqueue_step e t g EQ_push = Some (g\<lparr>m1_queue := m1_queue g @ [t]\<rparr>, Next EQ_release)"
| "m1_enqueue_step e t g EQ_release = Some (g\<lparr>queue_is_accessed := False\<rparr>, Next EQ_park)"
| "m1_enqueue_step e t g EQ_park =
     (if t \<in> park_tokens g then Some (g\<lparr>park_tokens := park_tokens g - {t}\<rparr>, Ret ())
      else if spurious e then Some (g, Ret ())
      else None)"

datatype m1_deq_pc = DQ_load | DQ_cas | DQ_check | DQ_pop | DQ_release "nat option" | DQ_unpark nat

fun m1_dequeue_step ::
  "'op env \<Rightarrow> 'a mutex1 \<Rightarrow> m1_deq_pc \<Rightarrow> 'a mutex1 \<times> (m1_deq_pc, unit) ctl" where
  "m1_dequeue_step e g DQ_load = (g, Next (if queue_is_accessed g then DQ_load else DQ_cas))"
| "m1_dequeue_step e g DQ_cas =
     (if \<not> queue_is_accessed g \<and> \<not> weak_fails e
      then (g\<lparr>queue_is_accessed := True\<rparr>, Next DQ_check)
      else (g, Next DQ_load))"
| "m1_dequeue_step e g DQ_check =
     (g, Next (if m1_queue g \<noteq> [] then DQ_pop else DQ_release None))"
| "m1_dequeue_step e g DQ_pop =
     (case m1_queue g of
        [] \<Rightarrow> (g, Next (DQ_release None))
      | u # q \<Rightarrow> (g\<lparr>m1_queue := q\<rparr>, Next (DQ_release (Some u))))"
| "m1_dequeue_step e g (DQ_release thread_to_unpark) =
     (g\<lparr>queue_is_accessed := False\<rparr>,
      case thread_to_unpark of None \<Rightarrow> Ret () | Some u \<Rightarrow> Next (DQ_unpark u))"
| "m1_dequeue_step e g (DQ_unpark u) = (g\<lparr>park_tokens := insert u (park_tokens g)\<rparr>, Ret ())"

section \<open>Locking\<close>

datatype m1_lock_pc = M1_check | M1_spin nat | M1_cas nat | M1_enqueue m1_enq_pc | M1_poison

fun m1_lock_step ::
  "usize \<Rightarrow> 'op env \<Rightarrow> nat \<Rightarrow> 'a mutex1 \<Rightarrow> m1_lock_pc \<Rightarrow>
     ('a mutex1 \<times> (m1_lock_pc, unit lock_result) ctl) option" where
  "m1_lock_step current_thread e t g M1_check =
     Some (g, if m1_state g = current_thread then Ret (Inl WouldBlock) else Next (M1_spin 0))"
| "m1_lock_step current_thread e t g (M1_spin spin_counter) =
     Some (g, Next (
       if spin_counter < 100
       then (if m1_state g = 0 then M1_cas spin_counter else M1_spin (spin_counter + 1))
       else M1_enqueue EQ_load))"
| "m1_lock_step current_thread e t g (M1_cas spin_counter) =
     (if m1_state g = 0 \<and> \<not> weak_fails e
      then Some (g\<lparr>m1_state := current_thread\<rparr>, Next M1_poison)
      else Some (g, Next (M1_spin spin_counter)))"
| "m1_lock_step current_thread e t g (M1_enqueue p) =
     (case m1_enqueue_step e t g p of
        None \<Rightarrow> None
      | Some (g', Next p') \<Rightarrow> Some (g', Next (M1_enqueue p'))
      | Some (g', Ret _) \<Rightarrow> Some (g', Next (M1_spin 0))
      | Some (g', Panic) \<Rightarrow> Some (g', Panic))"
| "m1_lock_step current_thread e t g M1_poison = Some (g, Ret (poison_result (m1_is_poisoned g)))"

datatype m1_try_pc = M1t_check | M1t_cas | M1t_poison

fun m1_try_lock_step ::
  "usize \<Rightarrow> 'a mutex1 \<Rightarrow> m1_try_pc \<Rightarrow> 'a mutex1 \<times> (m1_try_pc, unit lock_result) ctl" where
  "m1_try_lock_step current_thread g M1t_check =
     (g, if m1_state g = current_thread then Ret (Inl WouldBlock) else Next M1t_cas)"
| "m1_try_lock_step current_thread g M1t_cas =
     (if m1_state g = 0 then (g\<lparr>m1_state := current_thread\<rparr>, Next M1t_poison)
      else (g, Ret (Inl WouldBlock)))"
| "m1_try_lock_step current_thread g M1t_poison = (g, Ret (poison_result (m1_is_poisoned g)))"

text \<open>\<open>Drop for MutexGuard\<close>, which \<open>unlock\<close> calls.\<close>

datatype m1_drop_pc = M1d_poison | M1d_store | M1d_dequeue m1_deq_pc

fun m1_drop_step ::
  "'op env \<Rightarrow> bool \<Rightarrow> 'a mutex1 \<Rightarrow> m1_drop_pc \<Rightarrow> 'a mutex1 \<times> (m1_drop_pc, unit) ctl" where
  "m1_drop_step e panicking g M1d_poison =
     (if panicking then g\<lparr>m1_poisoned := True\<rparr> else g, Next M1d_store)"
| "m1_drop_step e panicking g M1d_store = (g\<lparr>m1_state := 0\<rparr>, Next (M1d_dequeue DQ_load))"
| "m1_drop_step e panicking g (M1d_dequeue p) =
     (case m1_dequeue_step e g p of
        (g', Next p') \<Rightarrow> (g', Next (M1d_dequeue p'))
      | (g', Ret _) \<Rightarrow> (g', Ret ())
      | (g', Panic) \<Rightarrow> (g', Panic))"

text \<open>\<open>DerefMut\<close> of the guard.\<close>

definition m1_deref_mut :: "('a \<Rightarrow> 'a) \<Rightarrow> 'a mutex1 \<Rightarrow> 'a mutex1" where
  "m1_deref_mut f g = g\<lparr>m1_data := f (m1_data g)\<rparr>"

section \<open>Client threads\<close>

datatype 'a m1_op =
    M1_op_lock | M1_op_try_lock | M1_op_unlock | M1_op_write "'a \<Rightarrow> 'a"
  | M1_op_clear_poison | M1_op_panic

datatype m1_pc = M1_idle | M1_lock m1_lock_pc | M1_try m1_try_pc | M1_drop m1_drop_pc | M1_dead

record m1_thread =
  m1_pc :: m1_pc
  m1_guard :: bool
  m1_panicking :: bool
  m1_last :: "unit lock_result option"

definition m1_fresh :: m1_thread where
  "m1_fresh = \<lparr>m1_pc = M1_idle, m1_guard = False, m1_panicking = False, m1_last = None\<rparr>"

fun m1_call :: "'a m1_op \<Rightarrow> 'a mutex1 \<Rightarrow> m1_thread \<Rightarrow> ('a mutex1 \<times> m1_thread) option" where
  "m1_call M1_op_lock g l = Some (g, l\<lparr>m1_pc := M1_lock M1_check\<rparr>)"
| "m1_call M1_op_try_lock g l = Some (g, l\<lparr>m1_pc := M1_try M1t_check\<rparr>)"
| "m1_call M1_op_unlock g l =
     (if m1_guard l then Some (g, l\<lparr>m1_pc := M1_drop M1d_poison\<rparr>) else None)"
| "m1_call (M1_op_write f) g l = (if m1_guard l then Some (m1_deref_mut f g, l) else None)"
| "m1_call M1_op_clear_poison g l = Some (m1_clear_poison g, l)"
| "m1_call M1_op_panic g l =
     Some (g, l\<lparr>m1_panicking := True,
       m1_pc := (if m1_guard l then M1_drop M1d_poison else M1_dead)\<rparr>)"

definition m1_return :: "unit lock_result \<Rightarrow> m1_thread \<Rightarrow> m1_thread" where
  "m1_return r l = l\<lparr>m1_pc := M1_idle, m1_last := Some r, m1_guard := (m1_guard l \<or> carries_guard r)\<rparr>"

text \<open>The guard is given up at the store that releases the mutex.\<close>

definition m1_prog :: "(nat \<Rightarrow> usize) \<Rightarrow> ('a m1_op, 'a mutex1, m1_thread) program" where
  "m1_prog tid e t g l =
     (case m1_pc l of
        M1_idle \<Rightarrow> m1_call (call e) g l
      | M1_lock p \<Rightarrow>
          (case m1_lock_step (tid t) e t g p of
             None \<Rightarrow> None
           | Some (g', Next p') \<Rightarrow> Some (g', l\<lparr>m1_pc := M1_lock p'\<rparr>)
           | Some (g', Ret r) \<Rightarrow> Some (g', m1_return r l)
           | Some (g', Panic) \<Rightarrow> None)
      | M1_try p \<Rightarrow>
          (case m1_try_lock_step (tid t) g p of
             (g', Next p') \<Rightarrow> Some (g', l\<lparr>m1_pc := M1_try p'\<rparr>)
           | (g', Ret r) \<Rightarrow> Some (g', m1_return r l)
           | (g', Panic) \<Rightarrow> None)
      | M1_drop p \<Rightarrow>
          (let guard = (m1_guard l \<and> p \<noteq> M1d_store) in
           case m1_drop_step e (m1_panicking l) g p of
             (g', Next p') \<Rightarrow> Some (g', l\<lparr>m1_pc := M1_drop p', m1_guard := guard\<rparr>)
           | (g', Ret _) \<Rightarrow>
               Some (g', l\<lparr>m1_pc := (if m1_panicking l then M1_dead else M1_idle), m1_guard := guard\<rparr>)
           | (g', Panic) \<Rightarrow> None)
      | M1_dead \<Rightarrow> None)"

text \<open>The threads may have tokens left from earlier uses of \<open>unpark\<close>.\<close>

definition m1_start :: "(nat \<Rightarrow> usize) \<Rightarrow> ('a mutex1, m1_thread) sys \<Rightarrow> bool" where
  "m1_start tid s \<longleftrightarrow>
     (\<exists>n d tokens. s = \<lparr>glob = (m1_new d)\<lparr>park_tokens := tokens\<rparr>, locs = replicate n m1_fresh\<rparr> \<and>
       tid_ok tid n)"

section \<open>Invariant\<close>

text \<open>
  A thread owns the mutex from its successful exchange to the store of 0, and the queue from
  its exchange of the spin bit to its release.
\<close>

definition m1_owns :: "m1_thread \<Rightarrow> bool" where
  "m1_owns l \<longleftrightarrow> m1_guard l \<or> m1_pc l \<in> {M1_lock M1_poison, M1_try M1t_poison}"

fun m1_pc_queue :: "m1_pc \<Rightarrow> bool" where
  "m1_pc_queue (M1_lock (M1_enqueue p)) = (p \<in> {EQ_push, EQ_release})"
| "m1_pc_queue (M1_drop (M1d_dequeue p)) = (p \<notin> {DQ_load, DQ_cas} \<and> (\<forall>u. p \<noteq> DQ_unpark u))"
| "m1_pc_queue _ = False"

definition m1_queue_owner :: "m1_thread \<Rightarrow> bool" where
  "m1_queue_owner l \<longleftrightarrow> m1_pc_queue (m1_pc l)"

definition m1_ok :: "(nat \<Rightarrow> usize) \<Rightarrow> 'a mutex1 \<Rightarrow> nat \<Rightarrow> m1_thread \<Rightarrow> bool" where
  "m1_ok tid g t l \<longleftrightarrow>
     (m1_owns l \<longleftrightarrow> m1_state g = tid t) \<and>
     (m1_guard l \<longrightarrow> m1_pc l \<in> {M1_idle, M1_lock M1_check, M1_try M1t_check, M1_drop M1d_poison,
        M1_drop M1d_store}) \<and>
     (m1_pc l \<in> {M1_drop M1d_poison, M1_drop M1d_store} \<longrightarrow> m1_guard l)"

text \<open>A thread that has put itself into the queue and not yet been unparked, and the thread that
  another one has taken out of the queue and will unpark.\<close>

definition m1_parking :: "m1_thread \<Rightarrow> bool" where
  "m1_parking l \<longleftrightarrow> m1_pc l \<in> {M1_lock (M1_enqueue EQ_release), M1_lock (M1_enqueue EQ_park)}"

fun m1_pc_handoff :: "m1_pc \<Rightarrow> nat option" where
  "m1_pc_handoff (M1_drop (M1d_dequeue (DQ_release u))) = u"
| "m1_pc_handoff (M1_drop (M1d_dequeue (DQ_unpark u))) = Some u"
| "m1_pc_handoff _ = None"

definition m1_handoff :: "m1_thread \<Rightarrow> nat option" where
  "m1_handoff l = m1_pc_handoff (m1_pc l)"

definition m1_remembered :: "'a mutex1 \<Rightarrow> m1_thread list \<Rightarrow> nat \<Rightarrow> bool" where
  "m1_remembered g ls t \<longleftrightarrow> t \<in> park_tokens g \<or> t \<in> set (m1_queue g) \<or>
     (\<exists>u < length ls. m1_handoff (ls ! u) = Some t)"

definition m1_inv :: "(nat \<Rightarrow> usize) \<Rightarrow> ('a mutex1, m1_thread) sys \<Rightarrow> bool" where
  "m1_inv tid s \<longleftrightarrow>
     tid_ok tid (length (locs s)) \<and> each (m1_ok tid (glob s)) (locs s) \<and>
     (m1_state (glob s) \<noteq> 0 \<longrightarrow> (\<exists>t < length (locs s). m1_state (glob s) = tid t)) \<and>
     cnt m1_queue_owner (locs s) = of_bool (queue_is_accessed (glob s)) \<and>
     each (\<lambda>t l. m1_parking l \<longrightarrow> m1_remembered (glob s) (locs s) t) (locs s)"

lemmas m1_eval = m1_prog_def m1_is_poisoned_def m1_clear_poison_def m1_deref_mut_def m1_return_def

lemmas m1_preds = m1_ok_def m1_owns_def m1_queue_owner_def m1_parking_def m1_handoff_def

text \<open>What a step does to the owner and to the spin bit.\<close>

definition m1_effect :: "(nat \<Rightarrow> usize) \<Rightarrow> nat \<Rightarrow> 'a mutex1 \<Rightarrow> m1_thread \<Rightarrow> 'a mutex1 \<Rightarrow> m1_thread \<Rightarrow> bool" where
  "m1_effect tid t g l g' l' \<longleftrightarrow>
     m1_ok tid g' t l' \<and>
     (m1_state g' = m1_state g \<or> m1_state g = 0 \<and> m1_state g' = tid t \<or>
      m1_state g = tid t \<and> m1_state g' = 0) \<and>
     of_bool (queue_is_accessed g') + (of_bool (m1_queue_owner l) :: nat) =
       of_bool (queue_is_accessed g) + of_bool (m1_queue_owner l')"

lemma m1_prog_effect:
  assumes "m1_prog tid e t g l = Some (g', l')" and "m1_ok tid g t l" and "tid t \<noteq> 0"
    and "m1_queue_owner l \<longrightarrow> queue_is_accessed g"
  shows "m1_effect tid t g l g' l'"
proof (cases "m1_pc l")
  case M1_idle
  with assms show ?thesis
    by (cases "call e") (auto simp: m1_eval m1_preds m1_effect_def split: if_splits)
next
  case (M1_lock p)
  show ?thesis
  proof (cases p)
    case (M1_enqueue q)
    with assms M1_lock show ?thesis
      by (cases q) (auto simp: m1_eval m1_preds m1_effect_def split: if_splits)
  qed (use assms M1_lock in \<open>auto simp: m1_eval m1_preds m1_effect_def split: if_splits\<close>)
next
  case (M1_try p)
  with assms show ?thesis
    by (cases p) (auto simp: m1_eval m1_preds m1_effect_def split: if_splits)
next
  case (M1_drop p)
  show ?thesis
  proof (cases p)
    case (M1d_dequeue q)
    with assms M1_drop show ?thesis
      by (cases q) (auto simp: m1_eval m1_preds m1_effect_def split: if_splits list.splits option.splits)
  qed (use assms M1_drop in \<open>auto simp: m1_eval m1_preds m1_effect_def split: if_splits\<close>)
qed (use assms in \<open>simp add: m1_prog_def\<close>)

text \<open>What a step does to the queue, the tokens and the hand-over of a thread.\<close>

inductive m1_park_move ::
  "nat \<Rightarrow> nat list \<times> nat set \<Rightarrow> m1_thread \<Rightarrow> nat list \<times> nat set \<Rightarrow> m1_thread \<Rightarrow> bool"
  for t where
  stay [simp]: "m1_handoff l' = m1_handoff l \<Longrightarrow> \<not> m1_parking l' \<or> m1_parking l \<Longrightarrow>
    m1_park_move t (q, T) l (q, T) l'"
| push [simp]: "m1_handoff l = None \<Longrightarrow> m1_handoff l' = None \<Longrightarrow> m1_park_move t (q, T) l (q @ [t], T) l'"
| pop [simp]: "m1_handoff l = None \<Longrightarrow> m1_handoff l' = Some u \<Longrightarrow> \<not> m1_parking l' \<Longrightarrow>
    m1_park_move t (u # q, T) l (q, T) l'"
| unpark [simp]: "m1_handoff l = Some u \<Longrightarrow> \<not> m1_parking l' \<Longrightarrow>
    m1_park_move t (q, T) l (q, insert u T) l'"
| wake [simp]: "m1_handoff l' = m1_handoff l \<Longrightarrow> \<not> m1_parking l' \<Longrightarrow>
    m1_park_move t (q, T) l (q, T - {t}) l'"

lemma m1_prog_park:
  assumes "m1_prog tid e t g l = Some (g', l')"
  shows "m1_park_move t (m1_queue g, park_tokens g) l (m1_queue g', park_tokens g') l'"
proof (cases "m1_pc l")
  case M1_idle
  with assms show ?thesis
    by (cases "call e") (auto simp: m1_eval m1_handoff_def m1_parking_def split: if_splits)
next
  case (M1_lock p)
  show ?thesis
  proof (cases p)
    case (M1_enqueue q)
    with assms M1_lock show ?thesis
      by (cases q) (auto simp: m1_eval m1_handoff_def m1_parking_def split: if_splits)
  qed (use assms M1_lock in \<open>auto simp: m1_eval m1_handoff_def m1_parking_def split: if_splits\<close>)
next
  case (M1_try p)
  with assms show ?thesis
    by (cases p) (auto simp: m1_eval m1_handoff_def m1_parking_def split: if_splits)
next
  case (M1_drop p)
  show ?thesis
  proof (cases p)
    case (M1d_dequeue q)
    with assms M1_drop show ?thesis
      by (cases q) (auto simp: m1_eval m1_handoff_def m1_parking_def
          split: if_splits list.splits option.splits)
  qed (use assms M1_drop in \<open>auto simp: m1_eval m1_handoff_def m1_parking_def split: if_splits\<close>)
qed (use assms in \<open>simp add: m1_prog_def\<close>)

text \<open>Forgetting nobody: a thread remembered before a step is remembered after it, unless it is
  the thread that stepped and it stopped parking.\<close>

lemma m1_handoff_other:
  assumes "\<exists>v < length ls. m1_handoff (ls ! v) = Some u" and "t < length ls"
    and "m1_handoff (ls ! t) = Some u \<Longrightarrow> m1_handoff l' = Some u"
  shows "\<exists>v < length (ls[t := l']). m1_handoff (ls[t := l'] ! v) = Some u"
proof -
  from assms(1) obtain v where v: "v < length ls" "m1_handoff (ls ! v) = Some u" by blast
  show ?thesis
  proof (cases "v = t")
    case True
    with v assms(2,3) show ?thesis by (intro exI [of _ t]) simp
  next
    case False
    with v show ?thesis by (intro exI [of _ v]) simp
  qed
qed

lemma m1_remembered_step:
  assumes move: "m1_park_move t (m1_queue g, park_tokens g) (ls ! t) (m1_queue g', park_tokens g') l'"
    and t: "t < length ls" and u: "m1_remembered g ls u" and "u \<noteq> t \<or> m1_parking l'"
  shows "m1_remembered g' (ls[t := l']) u"
  using move
proof cases
  case stay
  then show ?thesis
    using u m1_handoff_other [of ls u t l', OF _ t] by (auto simp: m1_remembered_def)
next
  case push
  then show ?thesis
    using u m1_handoff_other [of ls u t l', OF _ t] by (auto simp: m1_remembered_def)
next
  case (pop x)
  have "m1_handoff (ls[t := l'] ! t) = Some x" using pop t by simp
  then show ?thesis
    using u pop t m1_handoff_other [of ls u t l', OF _ t] by (auto simp: m1_remembered_def)
next
  case (unpark x)
  then show ?thesis
    using u m1_handoff_other [of ls u t l', OF _ t] by (auto simp: m1_remembered_def)
next
  case wake
  then show ?thesis
    using u assms(4) m1_handoff_other [of ls u t l', OF _ t] by (auto simp: m1_remembered_def)
qed

lemma m1_newly_parking:
  assumes "m1_park_move t (q, T) l (q', T') l'" and "m1_parking l'" and "\<not> m1_parking l"
  shows "t \<in> set q'"
  using assms(1) by cases (use assms(2,3) in auto)

lemma m1_inv_step:
  assumes inv: "m1_inv tid \<lparr>glob = g, locs = ls\<rparr>" and t: "t < length ls"
    and step: "m1_prog tid e t g (ls ! t) = Some (g', l')"
  shows "m1_inv tid \<lparr>glob = g', locs = ls[t := l']\<rparr>"
proof -
  from inv have tids: "tid_ok tid (length ls)" and ok: "each (m1_ok tid g) ls"
    and word: "m1_state g \<noteq> 0 \<Longrightarrow> \<exists>t < length ls. m1_state g = tid t"
    and bit: "cnt m1_queue_owner ls = of_bool (queue_is_accessed g)"
    and parked: "each (\<lambda>t l. m1_parking l \<longrightarrow> m1_remembered g ls t) ls"
    by (auto simp: m1_inv_def)
  have "m1_queue_owner (ls ! t) \<longrightarrow> queue_is_accessed g"
    using cnt_pos [of t ls m1_queue_owner] t bit by (auto split: if_splits)
  from m1_prog_effect [OF step eachD [OF ok t] tid_ok_nonzero [OF tids t] this]
  have ok': "m1_ok tid g' t l'"
    and word': "m1_state g' = m1_state g \<or> m1_state g = 0 \<and> m1_state g' = tid t \<or>
      m1_state g = tid t \<and> m1_state g' = 0"
    and bit': "of_bool (queue_is_accessed g') + (of_bool (m1_queue_owner (ls ! t)) :: nat) =
       of_bool (queue_is_accessed g) + of_bool (m1_queue_owner l')"
    by (auto simp: m1_effect_def)
  note move = m1_prog_park [OF step]
  have "each (m1_ok tid g') (ls[t := l'])"
  proof (rule each_update [OF ok t, of "m1_ok tid g'", OF ok'])
    fix u
    assume u: "u < length ls" "u \<noteq> t" "m1_ok tid g u (ls ! u)"
    have "tid u \<noteq> tid t" and "tid u \<noteq> 0"
      using tid_ok_eq_iff [OF tids u(1) t] tid_ok_nonzero [OF tids u(1)] u(2) by auto
    with word' have "m1_state g' = tid u \<longleftrightarrow> m1_state g = tid u" by metis
    with u(3) show "m1_ok tid g' u (ls ! u)" by (simp add: m1_ok_def)
  qed
  moreover have "\<exists>t < length ls. m1_state g' = tid t" if "m1_state g' \<noteq> 0"
    using word' word that t by metis
  moreover have "cnt m1_queue_owner (ls[t := l']) = of_bool (queue_is_accessed g')"
    using cnt_update [OF t, of m1_queue_owner l'] bit bit' unfolding of_bool_def by linarith
  moreover have "each (\<lambda>u l. m1_parking l \<longrightarrow> m1_remembered g' (ls[t := l']) u) (ls[t := l'])"
  proof (rule each_update [OF parked t])
    show "m1_parking l' \<longrightarrow> m1_remembered g' (ls[t := l']) t"
    proof
      assume p: "m1_parking l'"
      show "m1_remembered g' (ls[t := l']) t"
      proof (cases "m1_parking (ls ! t)")
        case True
        with eachD [OF parked t] have "m1_remembered g ls t" by simp
        from m1_remembered_step [OF move t this] p show ?thesis by simp
      next
        case False
        with m1_newly_parking [OF move p] show ?thesis by (simp add: m1_remembered_def)
      qed
    qed
  next
    fix u
    assume "u < length ls" "u \<noteq> t" "m1_parking (ls ! u) \<longrightarrow> m1_remembered g ls u"
    with m1_remembered_step [OF move t] show "m1_parking (ls ! u) \<longrightarrow> m1_remembered g' (ls[t := l']) u"
      by blast
  qed
  ultimately show ?thesis using tids by (simp add: m1_inv_def)
qed

lemma m1_inv_start: "m1_start tid s \<Longrightarrow> m1_inv tid s"
  by (auto simp: m1_start_def m1_inv_def m1_new_def m1_fresh_def m1_preds each_replicate
      cnt_replicate dest: tid_ok_nonzero)

interpretation m1: invariant_system "m1_prog tid" "m1_start tid" "m1_inv tid" for tid :: "nat \<Rightarrow> usize"
  by unfold_locales (fact m1_inv_start, fact m1_inv_step)

section \<open>Operations that never wait\<close>

text \<open>Only \<open>try_lock\<close>: an unlocking thread may have to wait for the spin bit of the queue.\<close>

fun m1_steps_left :: "m1_pc \<Rightarrow> nat" where
  "m1_steps_left (M1_try p) = (case p of M1t_check \<Rightarrow> 3 | M1t_cas \<Rightarrow> 2 | M1t_poison \<Rightarrow> 1)"
| "m1_steps_left _ = 0"

lemma m1_enabled: "0 < m1_steps_left (m1_pc l) \<Longrightarrow> m1_prog tid e t g l \<noteq> None"
proof (cases "m1_pc l")
  case (M1_try p)
  then show ?thesis by (cases p) (auto simp: m1_eval)
qed simp_all

lemma m1_advances:
  assumes "0 < m1_steps_left (m1_pc l)" and "m1_prog tid e t g l = Some (g', l')"
  shows "m1_pc l' = M1_idle \<or>
    0 < m1_steps_left (m1_pc l') \<and> m1_steps_left (m1_pc l') < m1_steps_left (m1_pc l)"
proof (cases "m1_pc l")
  case (M1_try p)
  with assms(2) show ?thesis by (cases p) (auto simp: m1_eval split: if_splits)
qed (use assms(1) in simp_all)

interpretation m1_free: wait_free "m1_prog tid" "\<lambda>l. m1_steps_left (m1_pc l)"
    "\<lambda>l. m1_pc l = M1_idle" "\<lambda>_. False"
  for tid :: "nat \<Rightarrow> usize"
  by unfold_locales (use m1_enabled m1_advances in blast)+

lemma m1_try_wait_free:
  "t < length (locs s) \<Longrightarrow> m1_pc (locs s ! t) \<in> range M1_try \<Longrightarrow>
    returns_within (m1_prog tid) (\<lambda>l. m1_pc l = M1_idle) (\<lambda>_. False) 3 t s"
  by (intro m1_free.returns) (auto split: m1_try_pc.split)

section \<open>Properties\<close>

lemma m1_owner_iff:
  assumes "reachable (m1_prog tid) (m1_start tid) s" and "t < length (locs s)"
  shows "m1_owns (locs s ! t) \<longleftrightarrow> m1_state (glob s) = tid t"
  using m1.reachable_inv [OF assms(1)] assms(2) by (simp add: m1_inv_def each_def m1_ok_def)

lemma m1_exclusive:
  assumes "reachable (m1_prog tid) (m1_start tid) s"
  shows "cnt m1_owns (locs s) \<le> 1"
proof (rule cnt_unique_le_1)
  fix t u
  assume tu: "t < length (locs s)" "u < length (locs s)" "m1_owns (locs s ! t)" "m1_owns (locs s ! u)"
  have "tid_ok tid (length (locs s))" using m1.reachable_inv [OF assms] by (simp add: m1_inv_def)
  moreover have "tid t = tid u" using m1_owner_iff [OF assms] tu by metis
  ultimately show "t = u" using tid_ok_eq_iff tu(1,2) by blast
qed

lemma m1_prog_data:
  assumes "m1_prog tid e t g l = Some (g', l')" and "m1_data g' \<noteq> m1_data g"
  shows "m1_owns l \<and> m1_owns l'"
proof (cases "m1_pc l")
  case M1_idle
  with assms show ?thesis
    by (cases "call e") (auto simp: m1_eval m1_owns_def split: if_splits)
next
  case (M1_lock p)
  show ?thesis
  proof (cases p)
    case (M1_enqueue q)
    with assms M1_lock show ?thesis by (cases q) (auto simp: m1_eval split: if_splits)
  qed (use assms M1_lock in \<open>auto simp: m1_eval split: if_splits\<close>)
next
  case (M1_try p)
  with assms show ?thesis by (cases p) (auto simp: m1_eval split: if_splits)
next
  case (M1_drop p)
  show ?thesis
  proof (cases p)
    case (M1d_dequeue q)
    with assms M1_drop show ?thesis
      by (cases q) (auto simp: m1_eval split: if_splits list.splits option.splits)
  qed (use assms M1_drop in \<open>auto simp: m1_eval split: if_splits\<close>)
qed (use assms in \<open>simp add: m1_prog_def\<close>)

interpretation m1_lock: exclusive_lock "m1_prog tid" "m1_start tid" m1_owns m1_data
  for tid :: "nat \<Rightarrow> usize"
  by unfold_locales (fact m1_exclusive, fact m1_prog_data)

text \<open>
  C7: In every reachable state of the parking mutex at most one thread owns
  it, the state word is 0 exactly when none does and otherwise holds the identifier of the
  owner, and at most one thread is inside the accesses to the queue that the spin bit guards.\<close>

theorem m1_mutual_exclusion:
  assumes "reachable (m1_prog tid) (m1_start tid) s"
  shows "cnt m1_owns (locs s) \<le> 1 \<and> cnt m1_queue_owner (locs s) \<le> 1 \<and>
    (m1_state (glob s) = 0 \<longleftrightarrow> cnt m1_owns (locs s) = 0) \<and>
    (\<forall>t < length (locs s). m1_owns (locs s ! t) \<longleftrightarrow> m1_state (glob s) = tid t)"
proof (intro conjI allI impI)
  have inv: "m1_inv tid s" using m1.reachable_inv [OF assms] .
  then have tids: "tid_ok tid (length (locs s))"
    and word: "m1_state (glob s) \<noteq> 0 \<Longrightarrow> \<exists>t < length (locs s). m1_state (glob s) = tid t"
    by (auto simp: m1_inv_def)
  show "cnt m1_queue_owner (locs s) \<le> 1" using inv by (simp add: m1_inv_def)
  show "m1_state (glob s) = 0 \<longleftrightarrow> cnt m1_owns (locs s) = 0"
    using word m1_owner_iff [OF assms] tid_ok_nonzero [OF tids] by (metis cnt_0_iff)
qed (use m1_exclusive [OF assms] m1_owner_iff [OF assms] in auto)

text \<open>
  C23: The queue protocol forgets no thread: a thread that has put itself
  into the queue and is about to park or parked is still in the queue, or has been taken
  out by a thread that is about to unpark it, or its token is already there.\<close>

theorem m1_parked_remembered:
  assumes "reachable (m1_prog tid) (m1_start tid) s" and "t < length (locs s)"
    and "m1_pc (locs s ! t) = M1_lock (M1_enqueue EQ_park)"
  shows "t \<in> set (m1_queue (glob s)) \<or> t \<in> park_tokens (glob s) \<or>
    (\<exists>u < length (locs s). m1_handoff (locs s ! u) = Some t)"
  using m1.reachable_inv [OF assms(1)] assms(2,3)
  by (auto simp: m1_inv_def each_def m1_parking_def m1_remembered_def)

text \<open>The spinning phase of \<open>lock\<close> against a locked mutex.\<close>

lemma m1_spin_run:
  assumes "m1_state (glob s) \<noteq> 0" and "t < length (locs s)"
    and "m1_pc (locs s ! t) = M1_lock (M1_spin c)" and "c + k \<le> 100"
  shows "run (m1_prog tid) (replicate k (t, e)) s =
    Some (s\<lparr>locs := (locs s)[t := (locs s ! t)\<lparr>m1_pc := M1_lock (M1_spin (c + k))\<rparr>]\<rparr>)"
  using assms
proof (induction k arbitrary: s c)
  case 0
  then have "locs s ! t = (locs s ! t)\<lparr>m1_pc := M1_lock (M1_spin c)\<rparr>" by simp
  then show ?case by simp
next
  case (Suc k)
  let ?s = "s\<lparr>locs := (locs s)[t := (locs s ! t)\<lparr>m1_pc := M1_lock (M1_spin (Suc c))\<rparr>]\<rparr>"
  from Suc.prems have "sys_step (m1_prog tid) (t, e) s = Some ?s"
    by (simp add: sys_step_def m1_prog_def)
  moreover have "run (m1_prog tid) (replicate k (t, e)) ?s =
      Some (?s\<lparr>locs := (locs ?s)[t := (locs ?s ! t)\<lparr>m1_pc := M1_lock (M1_spin (Suc c + k))\<rparr>]\<rparr>)"
    using Suc.prems by (intro Suc.IH) simp_all
  ultimately show ?case using Suc.prems(2) by simp
qed

text \<open>Two threads; thread 0 takes the mutex.\<close>

definition m1_duo :: "(nat mutex1, m1_thread) sys" where
  "m1_duo = \<lparr>glob = m1_new 4, locs = [m1_fresh, m1_fresh]\<rparr>"

definition m1_held :: "(nat mutex1, m1_thread) sys" where
  "m1_held = \<lparr>glob = (m1_new 4)\<lparr>m1_state := 1\<rparr>,
     locs = [m1_fresh\<lparr>m1_guard := True, m1_last := Some (Inr ())\<rparr>, m1_fresh]\<rparr>"

lemmas m1_run_eval = sys_step_def m1_eval m1_new_def m1_fresh_def m1_duo_def poison_result_def
  tid_succ_def replicate_numeral

lemma m1_duo_reachable: "reachable (m1_prog tid_succ) (m1_start tid_succ) m1_duo"
proof (rule reachable_init)
  have "m1_new 4 = (m1_new (4 :: nat))\<lparr>park_tokens := {}\<rparr>" by (simp add: m1_new_def)
  moreover have "[m1_fresh, m1_fresh] = replicate 2 m1_fresh" by (simp add: replicate_numeral)
  moreover have "tid_ok tid_succ 2" by (rule tid_succ_ok) simp
  ultimately show "m1_start tid_succ m1_duo" unfolding m1_start_def m1_duo_def by metis
qed

lemma m1_held_reachable: "reachable (m1_prog tid_succ) (m1_start tid_succ) m1_held"
  by (rule run_reachable [OF m1_duo_reachable, of "replicate 5 (0, quiet M1_op_lock)"])
    (simp add: m1_run_eval m1_held_def)

text \<open>Thread 1 gives up spinning, thread 0 unlocks and finds the queue empty, thread 1 parks.\<close>

definition m1_spun :: "(nat mutex1, m1_thread) sys" where
  "m1_spun = m1_held\<lparr>locs := (locs m1_held)[1 := m1_fresh\<lparr>m1_pc := M1_lock (M1_spin 100)\<rparr>]\<rparr>"

lemma m1_spun_reachable: "reachable (m1_prog tid_succ) (m1_start tid_succ) m1_spun"
proof -
  define s1 where "s1 = m1_held\<lparr>locs := (locs m1_held)[1 := m1_fresh\<lparr>m1_pc := M1_lock (M1_spin 0)\<rparr>]\<rparr>"
  have r1: "run (m1_prog tid_succ) (replicate 2 (1, quiet M1_op_lock)) m1_held = Some s1"
    by (simp add: m1_run_eval m1_held_def s1_def)
  have r2: "run (m1_prog tid_succ) (replicate 100 (1, quiet M1_op_lock)) s1 = Some m1_spun"
    by (subst m1_spin_run [where c = 0]) (simp_all add: s1_def m1_spun_def m1_held_def m1_fresh_def)
  show ?thesis by (rule run_reachable [OF run_reachable [OF m1_held_reachable r1] r2])
qed

definition m1_stuck :: "(nat mutex1, m1_thread) sys" where
  "m1_stuck = \<lparr>glob = (m1_new 4)\<lparr>m1_queue := [1]\<rparr>,
     locs = [m1_fresh\<lparr>m1_last := Some (Inr ())\<rparr>,
       m1_fresh\<lparr>m1_pc := M1_lock (M1_enqueue EQ_park)\<rparr>]\<rparr>"

lemma m1_stuck_reachable: "reachable (m1_prog tid_succ) (m1_start tid_succ) m1_stuck"
  by (rule run_reachable [OF m1_spun_reachable, where as =
      "(1, quiet M1_op_lock) # replicate 7 (0, quiet M1_op_unlock) @ replicate 4 (1, quiet M1_op_lock)"])
    (simp add: m1_run_eval m1_spun_def m1_held_def m1_stuck_def)

text \<open>
  \<open>lock\<close> does not look at the state again between putting its thread into the
  queue and parking.  When the owner unlocks and finds the queue still empty just before,
  the thread parks although the mutex is free, and nothing but another thread's later
  unlock (or a spurious return of \<open>park\<close>) wakes it.\<close>

theorem m1_lost_wakeup:
  "\<exists>s :: (nat mutex1, m1_thread) sys. reachable (m1_prog tid_succ) (m1_start tid_succ) s \<and>
     m1_state (glob s) = 0 \<and> cnt m1_owns (locs s) = 0 \<and> length (locs s) = 2 \<and>
     m1_pc (locs s ! 0) = M1_idle \<and> m1_pc (locs s ! 1) = M1_lock (M1_enqueue EQ_park) \<and>
     (\<forall>e. sys_step (m1_prog tid_succ) (1, e\<lparr>spurious := False\<rparr>) s = None)"
  by (rule exI [of _ m1_stuck], intro conjI, rule m1_stuck_reachable)
    (simp_all add: m1_stuck_def m1_owns_def m1_run_eval)

text \<open>
  On a free mutex \<open>lock\<close> returns in five steps of its thread, whatever the others
  are doing: the word holds the identifier of the thread, which gets the guard, inside
  the error when the mutex is poisoned.\<close>

theorem m1_lock_free:
  assumes "reachable (m1_prog tid) (m1_start tid) s" and "t < length (locs s)"
    and "m1_pc (locs s ! t) = M1_idle" and "m1_state (glob s) = 0"
  shows "run (m1_prog tid) (replicate 5 (t, quiet M1_op_lock)) s =
    Some \<lparr>glob = (glob s)\<lparr>m1_state := tid t\<rparr>,
      locs = (locs s)[t := (locs s ! t)\<lparr>m1_guard := True,
        m1_last := Some (poison_result (m1_poisoned (glob s)))\<rparr>]\<rparr>"
proof -
  have "tid_ok tid (length (locs s))"
    using m1.reachable_inv [OF assms(1)] by (simp add: m1_inv_def)
  with assms(2) have "tid t \<noteq> 0" by (rule tid_ok_nonzero [rotated])
  moreover obtain guard p r where "locs s ! t = \<lparr>m1_pc = M1_idle, m1_guard = guard,
      m1_panicking = p, m1_last = r\<rparr>" using assms(3) by (cases "locs s ! t") auto
  ultimately show ?thesis
    using assms(2,4) by (simp add: sys_step_def m1_eval replicate_numeral)
qed

text \<open>
  A thread that holds the mutex gets \<open>WouldBlock\<close> from a second
  \<open>lock\<close> or \<open>try_lock\<close>; the mutex is untouched and the thread keeps its guard.\<close>

theorem m1_reentrance_would_block:
  assumes "reachable (m1_prog tid) (m1_start tid) s" and "t < length (locs s)"
    and "m1_pc (locs s ! t) = M1_idle" and "m1_guard (locs s ! t)"
    and "call e = M1_op_lock \<or> call e = M1_op_try_lock"
  shows "run (m1_prog tid) [(t, e), (t, e)] s =
    Some (s\<lparr>locs := (locs s)[t := (locs s ! t)\<lparr>m1_last := Some (Inl WouldBlock)\<rparr>]\<rparr>)"
proof -
  have "m1_state (glob s) = tid t"
    using m1_owner_iff [OF assms(1,2)] assms(4) by (simp add: m1_owns_def)
  moreover obtain p r where "locs s ! t = \<lparr>m1_pc = M1_idle, m1_guard = True,
      m1_panicking = p, m1_last = r\<rparr>" using assms(3,4) by (cases "locs s ! t") auto
  ultimately show ?thesis
    using assms(2,5) by (auto simp: sys_step_def m1_eval)
qed

text \<open>Concrete instances of the properties with hypotheses.\<close>

lemma m1_mutual_exclusion_witness:
  "cnt m1_owns (locs m1_held) = 1 \<and> m1_owns (locs m1_held ! 0) \<and> m1_state (glob m1_held) = tid_succ 0"
  using m1_mutual_exclusion [OF m1_held_reachable]
  by (auto simp: m1_held_def m1_owns_def m1_fresh_def tid_succ_def)

lemma m1_parked_remembered_witness:
  "1 \<in> set (m1_queue (glob m1_stuck)) \<or> 1 \<in> park_tokens (glob m1_stuck) \<or>
    (\<exists>u < length (locs m1_stuck). m1_handoff (locs m1_stuck ! u) = Some 1)"
  by (rule m1_parked_remembered [OF m1_stuck_reachable]) (simp_all add: m1_stuck_def)

lemma m1_lock_free_witness:
  "run (m1_prog tid_succ) (replicate 5 (0, quiet M1_op_lock)) m1_duo = Some m1_held"
  using m1_lock_free [OF m1_duo_reachable, of 0]
  by (simp add: m1_duo_def m1_held_def m1_new_def m1_fresh_def poison_result_def tid_succ_def)

lemma m1_reentrance_would_block_witness:
  "run (m1_prog tid_succ) [(0, quiet M1_op_lock), (0, quiet M1_op_lock)] m1_held =
    Some (m1_held\<lparr>locs := (locs m1_held)[0 := (locs m1_held ! 0)\<lparr>m1_last := Some (Inl WouldBlock)\<rparr>]\<rparr>)"
  by (rule m1_reentrance_would_block [OF m1_held_reachable]) (simp_all add: m1_held_def m1_fresh_def)

section \<open>Threads that count under the mutex\<close>

definition m1_api :: "('a m1_op, 'a, m1_thread) lock_api" where
  "m1_api = \<lparr>api_lock = M1_op_lock, api_unlock = M1_op_unlock, api_write = M1_op_write,
     api_idle = (\<lambda>l. m1_pc l = M1_idle), api_ok = (\<lambda>l. m1_last l = Some (Inr ()))\<rparr>"

lemma m1_api_simps [simp]:
  "api_lock m1_api = M1_op_lock" "api_unlock m1_api = M1_op_unlock" "api_write m1_api = M1_op_write"
  "api_idle m1_api l \<longleftrightarrow> m1_pc l = M1_idle" "api_ok m1_api l \<longleftrightarrow> m1_last l = Some (Inr ())"
  by (simp_all add: m1_api_def)

definition m1_outside :: "m1_thread \<Rightarrow> bool" where
  "m1_outside l \<longleftrightarrow> m1_pc l = M1_idle \<and> \<not> m1_guard l \<and> \<not> m1_panicking l"

definition m1_entering :: "m1_thread \<Rightarrow> bool" where
  "m1_entering l \<longleftrightarrow> (\<exists>p. m1_pc l = M1_lock p) \<and> \<not> m1_guard l \<and> \<not> m1_panicking l"

definition m1_inside :: "m1_thread \<Rightarrow> bool" where
  "m1_inside l \<longleftrightarrow> m1_pc l = M1_idle \<and> m1_guard l \<and> \<not> m1_panicking l"

definition m1_leaving :: "m1_thread \<Rightarrow> bool" where
  "m1_leaving l \<longleftrightarrow> (\<exists>p. m1_pc l = M1_drop p \<and> (m1_guard l \<longrightarrow> p \<in> {M1d_poison, M1d_store})) \<and>
     \<not> m1_panicking l"

lemmas m1_stages = m1_outside_def m1_entering_def m1_inside_def m1_leaving_def

lemma m1_start_outside: "m1_start tid s \<Longrightarrow> \<not> m1_poisoned (glob s) \<and> (\<forall>l \<in> set (locs s). m1_outside l)"
  by (auto simp: m1_start_def m1_new_def m1_fresh_def m1_outside_def)

lemma m1_enter:
  assumes "reachable (m1_prog tid) (m1_start tid) s" and "t < length (locs s)"
    and "\<not> m1_poisoned (glob s)" and stage: "m1_outside (locs s ! t) \<or> m1_entering (locs s ! t)"
    and step: "m1_prog tid (with_call M1_op_lock e) t (glob s) (locs s ! t) = Some (g', l')"
  shows "\<not> m1_poisoned g' \<and> m1_data g' = m1_data (glob s) \<and>
    (if m1_pc l' = M1_idle then m1_last l' = Some (Inr ()) \<and> m1_inside l' else m1_entering l')"
proof (cases "m1_pc (locs s ! t)")
  case (M1_lock p)
  have owner: "m1_owns (locs s ! t) \<longleftrightarrow> m1_state (glob s) = tid t"
    using assms(1,2) by (rule m1_owner_iff)
  show ?thesis
  proof (cases p)
    case (M1_enqueue q)
    with assms(3) M1_lock stage step show ?thesis
      by (cases q) (auto simp: m1_eval m1_stages split: if_splits)
  qed (use owner assms(3) M1_lock stage step in
    \<open>auto simp: m1_eval m1_stages m1_owns_def poison_result_def split: if_splits\<close>)
qed (use assms(3) stage step in \<open>auto simp: m1_eval m1_stages\<close>)

lemma m1_store:
  "\<not> m1_poisoned g \<Longrightarrow> m1_inside l \<Longrightarrow> m1_prog tid (with_call (M1_op_write f) e) t g l = Some (g', l') \<Longrightarrow>
    \<not> m1_poisoned g' \<and> m1_data g' = f (m1_data g) \<and> m1_inside l'"
  by (auto simp: m1_eval m1_inside_def)

lemma m1_leave:
  assumes "\<not> m1_poisoned g" and "m1_inside l \<or> m1_leaving l"
    and "m1_prog tid (with_call M1_op_unlock e) t g l = Some (g', l')"
  shows "\<not> m1_poisoned g' \<and> m1_data g' = m1_data g \<and>
    (if m1_pc l' = M1_idle then m1_outside l' else m1_leaving l')"
proof (cases "m1_pc l")
  case (M1_drop p)
  show ?thesis
  proof (cases p)
    case (M1d_dequeue q)
    with assms M1_drop show ?thesis
      by (cases q) (auto simp: m1_eval m1_stages split: if_splits list.splits option.splits)
  qed (use assms M1_drop in \<open>auto simp: m1_eval m1_stages split: if_splits\<close>)
qed (use assms in \<open>auto simp: m1_eval m1_stages\<close>)

interpretation m1_work: worker_lock "m1_prog tid" "m1_start tid" m1_owns m1_data m1_api
    "\<lambda>g. \<not> m1_poisoned g" m1_outside m1_entering m1_inside m1_leaving
  for tid :: "nat \<Rightarrow> usize"
  by (unfold_locales, unfold m1_api_simps)
    (fact m1_start_outside, fact m1_enter, fact m1_store, fact m1_leave, simp add: m1_inside_def m1_owns_def)

text \<open>
  \<open>test_concurrency\<close> and \<open>test_contended\<close>: threads that execute \<open>*m.lock().unwrap() += 1\<close>, each
  \<open>k\<close> times.  None of the increments is lost, and no \<open>unwrap\<close> fails.
\<close>

definition m1_counters ::
  "(nat \<Rightarrow> usize) \<Rightarrow> (unit, ('a::len word) mutex1, ('a word, m1_thread) worker) program" where
  "m1_counters tid = worker_prog (m1_prog tid) m1_api m1_data (\<lambda>x. x + 1)"

definition m1_counters_start ::
  "(nat \<Rightarrow> usize) \<Rightarrow> 'a::len word \<Rightarrow> nat \<Rightarrow> nat \<Rightarrow> ('a word mutex1, ('a word, m1_thread) worker) sys \<Rightarrow> bool" where
  "m1_counters_start tid d n k = worker_start (m1_start tid) m1_data d n k"

theorem m1_no_update_lost:
  assumes "reachable (m1_counters tid) (m1_counters_start tid d n k) s"
    and "\<forall>w \<in> set (locs s). wk_left w = 0"
  shows "m1_data (glob s) = d + of_nat (n * k) \<and> (\<forall>w \<in> set (locs s). wk_pc w \<noteq> Wk_panicked)"
  using m1_work.no_update_lost [where upd = "\<lambda>x. x + 1" and tid = tid and d = d and n = n and k = k and s = s] assms
  by (simp add: m1_counters_def m1_counters_start_def work_left_0 [symmetric] funpow_plus_1)

text \<open>With a hundred threads the assertion of \<open>test_concurrency\<close> holds.\<close>

lemma m1_test_concurrency:
  assumes "reachable (m1_counters tid) (m1_counters_start tid (0 :: 8 word) 100 1) s"
    and "\<forall>w \<in> set (locs s). wk_left w = 0"
  shows "m1_data (glob s) + 11 = 111"
  using m1_no_update_lost [OF assms] by simp

end
