(* ===== verification/MutexV2.thy ===== *)
theory MutexV2
  imports MutexCommon Progress Worker
begin

text \<open>
  The futex mutex of \<open>src/mutex_v2.rs\<close>.  The state word is \<open>UNLOCKED\<close>, \<open>LOCKED\<close> or
  \<open>LOCKED_HAS_WAITERS\<close>; re-entrance is detected by the thread-local set
  \<open>ACQUIRED_BY_THREAD\<close> of mutex identifiers.  Each function of the source is a step
  function on its program points; \<open>m2_prog\<close> is a client thread that calls them.
\<close>

section \<open>State\<close>

definition UNLOCKED :: u32 where "UNLOCKED = 0"
definition LOCKED :: u32 where "LOCKED = 1"
definition LOCKED_HAS_WAITERS :: u32 where "LOCKED_HAS_WAITERS = 2"

lemma m2_states_distinct [simp]:
  "UNLOCKED \<noteq> LOCKED" "LOCKED \<noteq> UNLOCKED" "UNLOCKED \<noteq> LOCKED_HAS_WAITERS"
  "LOCKED_HAS_WAITERS \<noteq> UNLOCKED" "LOCKED \<noteq> LOCKED_HAS_WAITERS" "LOCKED_HAS_WAITERS \<noteq> LOCKED"
  by (simp_all add: UNLOCKED_def LOCKED_def LOCKED_HAS_WAITERS_def)

record 'a mutex2 =
  m2_id :: u64
  m2_data :: 'a
  m2_state :: "u32 futex"
  m2_poisoned :: bool

text \<open>\<open>Mutex::new\<close> takes the next identifier from the static counter \<open>NEXT_ID\<close>.\<close>

definition m2_new :: "u64 \<Rightarrow> 'a \<Rightarrow> u64 \<times> 'a mutex2" where
  "m2_new next_id d =
     (next_id + 1,
      \<lparr>m2_id = next_id, m2_data = d, m2_state = futex_new UNLOCKED, m2_poisoned = False\<rparr>)"

definition m2_is_poisoned :: "'a mutex2 \<Rightarrow> bool" where
  "m2_is_poisoned g = m2_poisoned g"

definition m2_clear_poison :: "'a mutex2 \<Rightarrow> 'a mutex2" where
  "m2_clear_poison g = g\<lparr>m2_poisoned := False\<rparr>"

definition m2_into_inner :: "'a mutex2 \<Rightarrow> 'a" where
  "m2_into_inner g = m2_data g"

definition m2_get_mut :: "('a \<Rightarrow> 'a) \<Rightarrow> 'a mutex2 \<Rightarrow> 'a mutex2" where
  "m2_get_mut f g = g\<lparr>m2_data := f (m2_data g)\<rparr>"

section \<open>Operations\<close>

text \<open>The thread-local set of acquired mutexes.\<close>

definition m2_acquired_check :: "'a mutex2 \<Rightarrow> u64 set \<Rightarrow> 'g lock_error + unit" where
  "m2_acquired_check g acq = (if m2_id g \<in> acq then Inl WouldBlock else Inr ())"

definition m2_set_acquired :: "'a mutex2 \<Rightarrow> u64 set \<Rightarrow> u64 set" where
  "m2_set_acquired g acq = insert (m2_id g) acq"

definition m2_remove_acquired :: "'a mutex2 \<Rightarrow> u64 set \<Rightarrow> u64 set" where
  "m2_remove_acquired g acq = acq - {m2_id g}"

text \<open>
  \<open>lock\<close>: the re-entrance check, the optimistic weak exchange, at most 100 loads, a second
  exchange, and then the loop that tries to take the lock with \<open>LOCKED_HAS_WAITERS\<close> and
  waits on the futex.
\<close>

datatype m2_lock_pc =
    M2_check | M2_cas | M2_spin nat | M2_cas2 | M2_cas3 | M2_wait | M2_blocked
  | M2_set | M2_poison

fun m2_lock_step ::
  "futex_api \<Rightarrow> 'op env \<Rightarrow> nat \<Rightarrow> 'a mutex2 \<Rightarrow> u64 set \<Rightarrow> m2_lock_pc \<Rightarrow>
     ('a mutex2 \<times> u64 set \<times> (m2_lock_pc, unit lock_result) ctl) option" where
  "m2_lock_step F e t g acq M2_check =
     Some (g, acq, case m2_acquired_check g acq of Inl err \<Rightarrow> Ret (Inl err) | Inr _ \<Rightarrow> Next M2_cas)"
| "m2_lock_step F e t g acq M2_cas =
     (if val (m2_state g) = UNLOCKED \<and> \<not> weak_fails e
      then Some (g\<lparr>m2_state := (m2_state g)\<lparr>val := LOCKED\<rparr>\<rparr>, acq, Next M2_set)
      else Some (g, acq, Next (M2_spin 0)))"
| "m2_lock_step F e t g acq (M2_spin counter) =
     (if counter < 100 \<and> val (m2_state g) \<noteq> UNLOCKED
      then Some (g, acq, Next (M2_spin (counter + 1)))
      else Some (g, acq, Next M2_cas2))"
| "m2_lock_step F e t g acq M2_cas2 =
     (if val (m2_state g) = UNLOCKED
      then Some (g\<lparr>m2_state := (m2_state g)\<lparr>val := LOCKED\<rparr>\<rparr>, acq, Next M2_set)
      else Some (g, acq, Next M2_cas3))"
| "m2_lock_step F e t g acq M2_cas3 =
     (if val (m2_state g) = UNLOCKED
      then Some (g\<lparr>m2_state := (m2_state g)\<lparr>val := LOCKED_HAS_WAITERS\<rparr>\<rparr>, acq, Next M2_set)
      else Some (g, acq, Next M2_wait))"
| "m2_lock_step F e t g acq M2_wait =
     (case futex_wait F e t LOCKED_HAS_WAITERS (m2_state g) of
        (True, f) \<Rightarrow> Some (g\<lparr>m2_state := f\<rparr>, acq, Next M2_blocked)
      | (False, _) \<Rightarrow> Some (g, acq, Next M2_cas3))"
| "m2_lock_step F e t g acq M2_blocked =
     (case futex_return F e t (m2_state g) of
        None \<Rightarrow> None
      | Some f \<Rightarrow> Some (g\<lparr>m2_state := f\<rparr>, acq, Next M2_cas3))"
| "m2_lock_step F e t g acq M2_set = Some (g, m2_set_acquired g acq, Next M2_poison)"
| "m2_lock_step F e t g acq M2_poison = Some (g, acq, Ret (poison_result (m2_is_poisoned g)))"

datatype m2_try_pc = M2t_check | M2t_cas | M2t_set | M2t_poison

fun m2_try_lock_step ::
  "'op env \<Rightarrow> 'a mutex2 \<Rightarrow> u64 set \<Rightarrow> m2_try_pc \<Rightarrow>
     'a mutex2 \<times> u64 set \<times> (m2_try_pc, unit lock_result) ctl" where
  "m2_try_lock_step e g acq M2t_check =
     (g, acq, case m2_acquired_check g acq of Inl err \<Rightarrow> Ret (Inl err) | Inr _ \<Rightarrow> Next M2t_cas)"
| "m2_try_lock_step e g acq M2t_cas =
     (if val (m2_state g) = UNLOCKED \<and> \<not> weak_fails e
      then (g\<lparr>m2_state := (m2_state g)\<lparr>val := LOCKED\<rparr>\<rparr>, acq, Next M2t_set)
      else (g, acq, Ret (Inl WouldBlock)))"
| "m2_try_lock_step e g acq M2t_set = (g, m2_set_acquired g acq, Next M2t_poison)"
| "m2_try_lock_step e g acq M2t_poison = (g, acq, Ret (poison_result (m2_is_poisoned g)))"

text \<open>\<open>Drop for MutexGuard\<close>: poison when panicking, forget the identifier, release, wake.\<close>

datatype m2_drop_pc = M2d_poison | M2d_remove | M2d_swap | M2d_wake

fun m2_drop_step ::
  "futex_api \<Rightarrow> 'op env \<Rightarrow> bool \<Rightarrow> 'a mutex2 \<Rightarrow> u64 set \<Rightarrow> m2_drop_pc \<Rightarrow>
     'a mutex2 \<times> u64 set \<times> (m2_drop_pc, unit) ctl" where
  "m2_drop_step F e panicking g acq M2d_poison =
     (if panicking then g\<lparr>m2_poisoned := True\<rparr> else g, acq, Next M2d_remove)"
| "m2_drop_step F e panicking g acq M2d_remove = (g, m2_remove_acquired g acq, Next M2d_swap)"
| "m2_drop_step F e panicking g acq M2d_swap =
     (g\<lparr>m2_state := (m2_state g)\<lparr>val := UNLOCKED\<rparr>\<rparr>, acq,
      if val (m2_state g) = LOCKED_HAS_WAITERS then Next M2d_wake else Ret ())"
| "m2_drop_step F e panicking g acq M2d_wake =
     (g\<lparr>m2_state := futex_wake_one F e (m2_state g)\<rparr>, acq, Ret ())"

text \<open>\<open>DerefMut\<close> of the guard.\<close>

definition m2_deref_mut :: "('a \<Rightarrow> 'a) \<Rightarrow> 'a mutex2 \<Rightarrow> 'a mutex2" where
  "m2_deref_mut f g = g\<lparr>m2_data := f (m2_data g)\<rparr>"

section \<open>Client threads\<close>

datatype 'a m2_op =
    M2_op_lock | M2_op_try_lock | M2_op_unlock | M2_op_write "'a \<Rightarrow> 'a"
  | M2_op_clear_poison | M2_op_panic

datatype m2_pc =
    M2_idle | M2_lock m2_lock_pc | M2_try m2_try_pc | M2_drop m2_drop_pc | M2_dead

text \<open>
  \<open>m2_guard\<close> says that the thread owns a guard (inside a result or not), \<open>m2_last\<close> is the
  result of its last \<open>lock\<close> or \<open>try_lock\<close>.
\<close>

record m2_thread =
  m2_pc :: m2_pc
  m2_guard :: bool
  m2_acquired :: "u64 set"
  m2_panicking :: bool
  m2_last :: "unit lock_result option"

definition m2_fresh :: "u64 set \<Rightarrow> m2_thread" where
  "m2_fresh acq =
     \<lparr>m2_pc = M2_idle, m2_guard = False, m2_acquired = acq, m2_panicking = False, m2_last = None\<rparr>"

fun m2_call :: "'a m2_op \<Rightarrow> 'a mutex2 \<Rightarrow> m2_thread \<Rightarrow> ('a mutex2 \<times> m2_thread) option" where
  "m2_call M2_op_lock g l = Some (g, l\<lparr>m2_pc := M2_lock M2_check\<rparr>)"
| "m2_call M2_op_try_lock g l = Some (g, l\<lparr>m2_pc := M2_try M2t_check\<rparr>)"
| "m2_call M2_op_unlock g l =
     (if m2_guard l then Some (g, l\<lparr>m2_pc := M2_drop M2d_poison\<rparr>) else None)"
| "m2_call (M2_op_write f) g l = (if m2_guard l then Some (m2_deref_mut f g, l) else None)"
| "m2_call M2_op_clear_poison g l = Some (m2_clear_poison g, l)"
| "m2_call M2_op_panic g l =
     Some (g, l\<lparr>m2_panicking := True,
       m2_pc := (if m2_guard l then M2_drop M2d_poison else M2_dead)\<rparr>)"

text \<open>A returning \<open>lock\<close> or \<open>try_lock\<close> gives the thread a guard when its result carries one.\<close>

definition m2_return :: "unit lock_result \<Rightarrow> u64 set \<Rightarrow> m2_thread \<Rightarrow> m2_thread" where
  "m2_return r acq l =
     l\<lparr>m2_pc := M2_idle, m2_acquired := acq, m2_last := Some r,
       m2_guard := (m2_guard l \<or> carries_guard r)\<rparr>"

text \<open>The guard is given up at the swap, the last access that needs it.\<close>

definition m2_prog :: "futex_api \<Rightarrow> ('a m2_op, 'a mutex2, m2_thread) program" where
  "m2_prog F e t g l =
     (case m2_pc l of
        M2_idle \<Rightarrow> m2_call (call e) g l
      | M2_lock p \<Rightarrow>
          (case m2_lock_step F e t g (m2_acquired l) p of
             None \<Rightarrow> None
           | Some (g', acq, Next p') \<Rightarrow> Some (g', l\<lparr>m2_pc := M2_lock p', m2_acquired := acq\<rparr>)
           | Some (g', acq, Ret r) \<Rightarrow> Some (g', m2_return r acq l)
           | Some (g', acq, Panic) \<Rightarrow> None)
      | M2_try p \<Rightarrow>
          (case m2_try_lock_step e g (m2_acquired l) p of
             (g', acq, Next p') \<Rightarrow> Some (g', l\<lparr>m2_pc := M2_try p', m2_acquired := acq\<rparr>)
           | (g', acq, Ret r) \<Rightarrow> Some (g', m2_return r acq l)
           | (g', acq, Panic) \<Rightarrow> None)
      | M2_drop p \<Rightarrow>
          (let guard = (m2_guard l \<and> p \<noteq> M2d_swap) in
           case m2_drop_step F e (m2_panicking l) g (m2_acquired l) p of
             (g', acq, Next p') \<Rightarrow>
               Some (g', l\<lparr>m2_pc := M2_drop p', m2_acquired := acq, m2_guard := guard\<rparr>)
           | (g', acq, Ret _) \<Rightarrow>
               Some (g', l\<lparr>m2_pc := (if m2_panicking l then M2_dead else M2_idle),
                 m2_acquired := acq, m2_guard := guard\<rparr>)
           | (g', acq, Panic) \<Rightarrow> None)
      | M2_dead \<Rightarrow> None)"

text \<open>
  Any number of threads, each of which may have acquired other mutexes; the futex
  implementation satisfies its documentation.
\<close>

definition m2_start :: "futex_api \<Rightarrow> ('a mutex2, m2_thread) sys \<Rightarrow> bool" where
  "m2_start F s \<longleftrightarrow>
     futex_ok F \<and> (\<exists>next_id d. glob s = snd (m2_new next_id d)) \<and>
     each (\<lambda>t l. \<exists>acq. l = m2_fresh acq \<and> m2_id (glob s) \<notin> acq) (locs s)"

section \<open>Invariant\<close>

text \<open>
  A thread owns the mutex from the successful exchange to the swap in the drop.  Threads
  are active when they will look at the state word or wake a waiter without being woken
  themselves.
\<close>

definition m2_owns :: "m2_thread \<Rightarrow> bool" where
  "m2_owns l \<longleftrightarrow> m2_guard l \<or>
     m2_pc l \<in> {M2_lock M2_set, M2_lock M2_poison, M2_try M2t_set, M2_try M2t_poison}"

definition m2_active :: "'a mutex2 \<Rightarrow> nat \<Rightarrow> m2_thread \<Rightarrow> bool" where
  "m2_active g t l \<longleftrightarrow> m2_pc l \<in> {M2_drop M2d_wake, M2_lock M2_cas3, M2_lock M2_wait} \<or>
     m2_pc l = M2_lock M2_blocked \<and> t \<notin> set (waiters (m2_state g))"

definition m2_ok :: "'a mutex2 \<Rightarrow> nat \<Rightarrow> m2_thread \<Rightarrow> bool" where
  "m2_ok g t l \<longleftrightarrow>
     (m2_guard l \<longrightarrow> m2_pc l \<in> {M2_idle, M2_lock M2_check, M2_try M2t_check, M2_drop M2d_poison,
        M2_drop M2d_remove, M2_drop M2d_swap}) \<and>
     (m2_pc l \<in> {M2_drop M2d_poison, M2_drop M2d_remove, M2_drop M2d_swap} \<longrightarrow> m2_guard l) \<and>
     (m2_id g \<in> m2_acquired l \<longleftrightarrow> m2_guard l \<and> m2_pc l \<noteq> M2_drop M2d_swap \<or>
        m2_pc l \<in> {M2_lock M2_poison, M2_try M2t_poison}) \<and>
     (t \<in> set (waiters (m2_state g)) \<longrightarrow> m2_pc l = M2_lock M2_blocked)"

definition m2_inv :: "futex_api \<Rightarrow> ('a mutex2, m2_thread) sys \<Rightarrow> bool" where
  "m2_inv F s \<longleftrightarrow>
     futex_ok F \<and> each (m2_ok (glob s)) (locs s) \<and>
     val (m2_state (glob s)) \<in> {UNLOCKED, LOCKED, LOCKED_HAS_WAITERS} \<and>
     cnt m2_owns (locs s) = (if val (m2_state (glob s)) = UNLOCKED then 0 else 1) \<and>
     distinct (waiters (m2_state (glob s))) \<and>
     set (waiters (m2_state (glob s))) \<subseteq> {..<length (locs s)} \<and>
     (waiters (m2_state (glob s)) \<noteq> [] \<longrightarrow> val (m2_state (glob s)) = LOCKED_HAS_WAITERS \<or>
        (\<exists>t < length (locs s). m2_active (glob s) t (locs s ! t)))"

text \<open>What one step of thread \<open>t\<close> can do to the state word, the waiters and the thread itself.\<close>

definition m2_effect :: "nat \<Rightarrow> 'a mutex2 \<Rightarrow> m2_thread \<Rightarrow> 'a mutex2 \<Rightarrow> m2_thread \<Rightarrow> bool" where
  "m2_effect t g l g' l' \<longleftrightarrow>
     m2_id g' = m2_id g \<and> m2_ok g' t l' \<and>
     (val (m2_state g') = val (m2_state g) \<and> m2_owns l' = m2_owns l \<or>
      val (m2_state g) = UNLOCKED \<and> val (m2_state g') \<in> {LOCKED, LOCKED_HAS_WAITERS} \<and>
        \<not> m2_owns l \<and> m2_owns l' \<or>
      m2_owns l \<and> \<not> m2_owns l' \<and> val (m2_state g') = UNLOCKED \<and>
        (val (m2_state g) = LOCKED_HAS_WAITERS \<longrightarrow> m2_active g' t l')) \<and>
     (waiters (m2_state g') = waiters (m2_state g) \<or>
      t \<notin> set (waiters (m2_state g)) \<and> waiters (m2_state g') = waiters (m2_state g) @ [t] \<or>
      waiters (m2_state g') = removeAll t (waiters (m2_state g)) \<or>
      m2_pc l = M2_drop M2d_wake \<and> (\<exists>u \<in> set (waiters (m2_state g)).
        waiters (m2_state g') = remove1 u (waiters (m2_state g)))) \<and>
     (m2_active g t l \<longrightarrow> m2_active g' t l' \<or> val (m2_state g') = LOCKED_HAS_WAITERS \<or>
        m2_pc l = M2_drop M2d_wake \<and> (waiters (m2_state g) = [] \<and> waiters (m2_state g') = [] \<or>
          (\<exists>u \<in> set (waiters (m2_state g)).
            waiters (m2_state g') = remove1 u (waiters (m2_state g))))) \<and>
     (waiters (m2_state g) = [] \<longrightarrow> waiters (m2_state g') = [] \<or>
        val (m2_state g') = LOCKED_HAS_WAITERS)"

lemmas m2_eval = m2_prog_def m2_acquired_check_def m2_set_acquired_def m2_remove_acquired_def
  m2_is_poisoned_def m2_clear_poison_def m2_deref_mut_def m2_return_def

lemma m2_effect_idle:
  assumes "m2_pc l = M2_idle" "m2_prog F e t g l = Some (g', l')" "m2_ok g t l" "futex_ok F"
  shows "m2_effect t g l g' l'"
  using assms
  by (cases "call e") (auto simp: m2_eval m2_effect_def m2_ok_def m2_owns_def m2_active_def
      split: if_splits)

lemma m2_effect_lock:
  assumes "m2_pc l = M2_lock p" "m2_prog F e t g l = Some (g', l')" "m2_ok g t l" "futex_ok F"
  shows "m2_effect t g l g' l'"
proof (cases p)
  case M2_wait
  show ?thesis
  proof (cases "futex_wait F e t LOCKED_HAS_WAITERS (m2_state g)")
    case (Pair b f)
    show ?thesis
    proof (cases b)
      case True
      with Pair assms M2_wait futex_wait_blocked [of F e t LOCKED_HAS_WAITERS "m2_state g" f]
      show ?thesis by (auto simp: m2_eval m2_effect_def m2_ok_def m2_owns_def m2_active_def)
    next
      case False
      with Pair assms M2_wait show ?thesis
        by (auto simp: m2_eval m2_effect_def m2_ok_def m2_owns_def m2_active_def)
    qed
  qed
next
  case M2_blocked
  with assms show ?thesis
    by (auto simp: m2_eval m2_effect_def m2_ok_def m2_owns_def m2_active_def futex_return_def
        split: if_splits)
qed (use assms in \<open>auto simp: m2_eval m2_effect_def m2_ok_def m2_owns_def m2_active_def
       split: if_splits\<close>)

lemma m2_effect_try:
  assumes "m2_pc l = M2_try p" "m2_prog F e t g l = Some (g', l')" "m2_ok g t l" "futex_ok F"
  shows "m2_effect t g l g' l'"
  using assms
  by (cases p) (auto simp: m2_eval m2_effect_def m2_ok_def m2_owns_def m2_active_def
      split: if_splits)

lemma m2_effect_drop:
  assumes "m2_pc l = M2_drop p" "m2_prog F e t g l = Some (g', l')" "m2_ok g t l" "futex_ok F"
  shows "m2_effect t g l g' l'"
proof (cases p)
  case M2d_wake
  show ?thesis
  proof (cases "waiters (m2_state g) = []")
    case True
    with M2d_wake assms show ?thesis
      by (auto simp: m2_eval m2_effect_def m2_ok_def m2_owns_def m2_active_def
          futex_ok_wake_one_empty split: if_splits)
  next
    case False
    from futex_ok_wake_one [OF assms(4) False, of e]
    obtain u where "u \<in> set (waiters (m2_state g))" and
      "futex_wake_one F e (m2_state g) = (m2_state g)\<lparr>waiters := remove1 u (waiters (m2_state g))\<rparr>"
      by blast
    with M2d_wake assms show ?thesis
      by (auto simp: m2_eval m2_effect_def m2_ok_def m2_owns_def m2_active_def
          dest: notin_set_remove1 split: if_splits)
  qed
qed (use assms in \<open>auto simp: m2_eval m2_effect_def m2_ok_def m2_owns_def m2_active_def Let_def
       split: if_splits\<close>)

lemma m2_prog_effect:
  assumes "m2_prog F e t g l = Some (g', l')" "m2_ok g t l" "futex_ok F"
  shows "m2_effect t g l g' l'"
proof (cases "m2_pc l")
  case M2_idle
  then show ?thesis by (rule m2_effect_idle [OF _ assms])
next
  case (M2_lock p)
  then show ?thesis by (rule m2_effect_lock [OF _ assms])
next
  case (M2_try p)
  then show ?thesis by (rule m2_effect_try [OF _ assms])
next
  case (M2_drop p)
  then show ?thesis by (rule m2_effect_drop [OF _ assms])
next
  case M2_dead
  with assms show ?thesis by (simp add: m2_prog_def)
qed

lemma m2_effectD:
  assumes "m2_effect t g l g' l'"
  shows "m2_id g' = m2_id g" and "m2_ok g' t l'"
    and "val (m2_state g') = val (m2_state g) \<and> m2_owns l' = m2_owns l \<or>
      val (m2_state g) = UNLOCKED \<and> val (m2_state g') \<in> {LOCKED, LOCKED_HAS_WAITERS} \<and>
        \<not> m2_owns l \<and> m2_owns l' \<or>
      m2_owns l \<and> \<not> m2_owns l' \<and> val (m2_state g') = UNLOCKED \<and>
        (val (m2_state g) = LOCKED_HAS_WAITERS \<longrightarrow> m2_active g' t l')"
    and "m2_active g t l \<Longrightarrow> m2_active g' t l' \<or> val (m2_state g') = LOCKED_HAS_WAITERS \<or>
        m2_pc l = M2_drop M2d_wake \<and> (waiters (m2_state g) = [] \<and> waiters (m2_state g') = [] \<or>
          (\<exists>u \<in> set (waiters (m2_state g)).
            waiters (m2_state g') = remove1 u (waiters (m2_state g))))"
    and "waiters (m2_state g) = [] \<Longrightarrow> waiters (m2_state g') = [] \<or>
        val (m2_state g') = LOCKED_HAS_WAITERS"
  using assms by (simp_all add: m2_effect_def)

lemma m2_effect_queue:
  assumes "m2_effect t g l g' l'"
  obtains "waiters (m2_state g') = waiters (m2_state g)"
  | "t \<notin> set (waiters (m2_state g))" "waiters (m2_state g') = waiters (m2_state g) @ [t]"
  | "waiters (m2_state g') = removeAll t (waiters (m2_state g))"
  | u where "u \<in> set (waiters (m2_state g))"
    "waiters (m2_state g') = remove1 u (waiters (m2_state g))"
  using assms unfolding m2_effect_def by blast

text \<open>The step of one thread, seen from another one.\<close>

lemma m2_effect_waiters_subset:
  "m2_effect t g l g' l' \<Longrightarrow>
    set (waiters (m2_state g')) \<subseteq> insert t (set (waiters (m2_state g)))"
  by (erule m2_effect_queue) (auto dest: notin_set_remove1)

lemma m2_effect_other:
  assumes "m2_effect t g l g' l'" and "u \<noteq> t"
  shows "m2_ok g u k \<Longrightarrow> m2_ok g' u k" and "m2_active g u k \<Longrightarrow> m2_active g' u k"
  using m2_effect_waiters_subset [OF assms(1)] m2_effectD(1) [OF assms(1)] assms(2)
  by (auto simp: m2_ok_def m2_active_def)

lemma m2_effect_distinct:
  "m2_effect t g l g' l' \<Longrightarrow> distinct (waiters (m2_state g)) \<Longrightarrow>
    distinct (waiters (m2_state g'))"
  by (erule m2_effect_queue) (auto simp: distinct_removeAll)

lemma m2_effect_wake:
  assumes eff: "m2_effect t g l g' l'" and l: "ls ! t = l" and t: "t < length ls"
    and ok: "each (m2_ok g) ls" and sub: "set (waiters (m2_state g)) \<subseteq> {..<length ls}"
    and dist: "distinct (waiters (m2_state g))"
    and wake: "waiters (m2_state g) \<noteq> [] \<longrightarrow> val (m2_state g) = LOCKED_HAS_WAITERS \<or>
      (\<exists>u < length ls. m2_active g u (ls ! u))"
  shows "waiters (m2_state g') \<noteq> [] \<longrightarrow> val (m2_state g') = LOCKED_HAS_WAITERS \<or>
    (\<exists>u < length ls. m2_active g' u (ls[t := l'] ! u))"
proof (intro impI)
  assume "waiters (m2_state g') \<noteq> []"
  with m2_effectD(5) [OF eff]
  have "waiters (m2_state g) \<noteq> [] \<or> val (m2_state g') = LOCKED_HAS_WAITERS" by blast
  moreover have "\<exists>u < length ls. m2_active g' u (ls[t := l'] ! u)"
    if ne: "waiters (m2_state g) \<noteq> []" and nv: "val (m2_state g') \<noteq> LOCKED_HAS_WAITERS"
  proof (cases "m2_active g' t l'")
      case True
      with t show ?thesis by (intro exI [of _ t]) simp
    next
      case inactive: False
      show ?thesis
      proof (cases "\<exists>u. u \<noteq> t \<and> u < length ls \<and> m2_active g u (ls ! u)")
        case True
        with m2_effect_other(2) [OF eff] show ?thesis by (metis nth_list_update_neq)
      next
        case False
        with wake ne have "val (m2_state g) = LOCKED_HAS_WAITERS \<or> m2_active g t l"
          using l by metis
        moreover have "val (m2_state g) \<noteq> LOCKED_HAS_WAITERS"
          using m2_effectD(3) [OF eff] nv inactive by auto
        ultimately have "m2_pc l = M2_drop M2d_wake"
          and "\<exists>u \<in> set (waiters (m2_state g)).
            waiters (m2_state g') = remove1 u (waiters (m2_state g))"
          using m2_effectD(4) [OF eff] ne nv inactive by blast+
        then obtain u where u: "u \<in> set (waiters (m2_state g))"
          and w': "waiters (m2_state g') = remove1 u (waiters (m2_state g))" by blast
        from u sub have un: "u < length ls" by auto
        with eachD [OF ok un] u have "m2_pc (ls ! u) = M2_lock M2_blocked"
          by (simp add: m2_ok_def)
        moreover from this l \<open>m2_pc l = M2_drop M2d_wake\<close> have "u \<noteq> t" by auto
        moreover have "u \<notin> set (waiters (m2_state g'))" using w' dist by simp
        ultimately show ?thesis using un by (intro exI [of _ u]) (simp add: m2_active_def)
      qed
  qed
  ultimately show "val (m2_state g') = LOCKED_HAS_WAITERS \<or>
    (\<exists>u < length ls. m2_active g' u (ls[t := l'] ! u))" by blast
qed

lemma m2_inv_step:
  assumes inv: "m2_inv F \<lparr>glob = g, locs = ls\<rparr>" and t: "t < length ls"
    and step: "m2_prog F e t g (ls ! t) = Some (g', l')"
  shows "m2_inv F \<lparr>glob = g', locs = ls[t := l']\<rparr>"
proof -
  from inv have F: "futex_ok F" and ok: "each (m2_ok g) ls"
    and vals: "val (m2_state g) \<in> {UNLOCKED, LOCKED, LOCKED_HAS_WAITERS}"
    and owners: "cnt m2_owns ls = (if val (m2_state g) = UNLOCKED then 0 else 1)"
    and dist: "distinct (waiters (m2_state g))"
    and sub: "set (waiters (m2_state g)) \<subseteq> {..<length ls}"
    and wake: "waiters (m2_state g) \<noteq> [] \<longrightarrow> val (m2_state g) = LOCKED_HAS_WAITERS \<or>
      (\<exists>t < length ls. m2_active g t (ls ! t))"
    by (simp_all add: m2_inv_def)
  from m2_prog_effect [OF step eachD [OF ok t] F]
  have eff: "m2_effect t g (ls ! t) g' l'" .
  have "each (m2_ok g') (ls[t := l'])"
    using ok t by (rule each_update) (use m2_effectD(2) [OF eff] m2_effect_other(1) [OF eff] in auto)
  moreover have "val (m2_state g') \<in> {UNLOCKED, LOCKED, LOCKED_HAS_WAITERS}"
    using m2_effectD(3) [OF eff] vals by auto
  moreover have "cnt m2_owns (ls[t := l']) = (if val (m2_state g') = UNLOCKED then 0 else 1)"
    using cnt_update [OF t, of m2_owns l'] owners m2_effectD(3) [OF eff]
    by (auto split: if_splits)
  moreover have "set (waiters (m2_state g')) \<subseteq> {..<length ls}"
    using m2_effect_waiters_subset [OF eff] sub t by auto
  ultimately show ?thesis
    using F m2_effect_distinct [OF eff dist] m2_effect_wake [OF eff refl t ok sub dist wake]
    by (simp add: m2_inv_def)
qed

lemma m2_inv_init: "m2_start F s \<Longrightarrow> m2_inv F s"
  by (auto simp: m2_start_def m2_inv_def m2_new_def each_def m2_ok_def m2_fresh_def m2_owns_def
      cnt_0_iff)

interpretation m2: invariant_system "m2_prog F" "m2_start F" "m2_inv F" for F :: futex_api
  by unfold_locales (auto intro: m2_inv_init m2_inv_step)

lemma m2_reachable_inv:
  assumes "reachable (m2_prog F) (m2_start F) s"
  shows "futex_ok F" and "each (m2_ok (glob s)) (locs s)"
    and "val (m2_state (glob s)) \<in> {UNLOCKED, LOCKED, LOCKED_HAS_WAITERS}"
    and "cnt m2_owns (locs s) = (if val (m2_state (glob s)) = UNLOCKED then 0 else 1)"
    and "waiters (m2_state (glob s)) \<noteq> [] \<Longrightarrow> val (m2_state (glob s)) = LOCKED_HAS_WAITERS \<or>
      (\<exists>t < length (locs s). m2_active (glob s) t (locs s ! t))"
  using m2.reachable_inv [OF assms] by (auto simp: m2_inv_def)

section \<open>Operations that never wait\<close>

fun m2_steps_left :: "m2_pc \<Rightarrow> nat" where
  "m2_steps_left (M2_try p) = (case p of M2t_check \<Rightarrow> 4 | M2t_cas \<Rightarrow> 3 | M2t_set \<Rightarrow> 2 | M2t_poison \<Rightarrow> 1)"
| "m2_steps_left (M2_drop p) = (case p of M2d_poison \<Rightarrow> 4 | M2d_remove \<Rightarrow> 3 | M2d_swap \<Rightarrow> 2 | M2d_wake \<Rightarrow> 1)"
| "m2_steps_left _ = 0"

definition m2_home :: "m2_thread \<Rightarrow> bool" where
  "m2_home l \<longleftrightarrow> m2_pc l \<in> {M2_idle, M2_dead}"

lemma m2_enabled: "0 < m2_steps_left (m2_pc l) \<Longrightarrow> m2_prog F e t g l \<noteq> None"
proof (cases "m2_pc l")
  case (M2_try p)
  then show ?thesis by (cases p) (auto simp: m2_eval)
next
  case (M2_drop p)
  then show ?thesis by (cases p) (auto simp: m2_eval Let_def)
qed simp_all

lemma m2_advances:
  assumes "0 < m2_steps_left (m2_pc l)" and "m2_prog F e t g l = Some (g', l')"
  shows "m2_home l' \<or> 0 < m2_steps_left (m2_pc l') \<and> m2_steps_left (m2_pc l') < m2_steps_left (m2_pc l)"
proof (cases "m2_pc l")
  case (M2_try p)
  with assms(2) show ?thesis by (cases p) (auto simp: m2_eval m2_home_def split: if_splits)
next
  case (M2_drop p)
  with assms(2) show ?thesis by (cases p) (auto simp: m2_eval m2_home_def Let_def split: if_splits)
qed (use assms(1) in simp_all)

interpretation m2_free: wait_free "m2_prog F" "\<lambda>l. m2_steps_left (m2_pc l)" m2_home "\<lambda>_. False"
  for F :: futex_api
  by unfold_locales (use m2_enabled m2_advances in blast)+

text \<open>\<open>try_lock\<close> and the drop of a guard are wait-free: at most four steps.\<close>

lemma m2_try_wait_free:
  "t < length (locs s) \<Longrightarrow> m2_pc (locs s ! t) \<in> range M2_try \<union> range M2_drop \<Longrightarrow>
    returns_within (m2_prog F) m2_home (\<lambda>_. False) 4 t s"
  by (intro m2_free.returns) (auto split: m2_try_pc.split m2_drop_pc.split)

section \<open>Properties\<close>

lemma m2_guard_owns: "m2_guard l \<Longrightarrow> m2_owns l"
  by (simp add: m2_owns_def)

lemma m2_prog_data:
  assumes "m2_prog F e t g l = Some (g', l')" and "m2_data g' \<noteq> m2_data g"
  shows "m2_owns l \<and> m2_owns l'"
proof (cases "m2_pc l")
  case M2_idle
  with assms show ?thesis
    by (cases "call e") (auto simp: m2_eval m2_owns_def split: if_splits)
next
  case (M2_lock p)
  with assms show ?thesis
    by (cases p) (auto simp: m2_eval split: if_splits prod.splits bool.splits option.splits)
next
  case (M2_try p)
  with assms show ?thesis
    by (cases p) (auto simp: m2_eval split: if_splits)
next
  case (M2_drop p)
  with assms show ?thesis
    by (cases p) (auto simp: m2_eval Let_def split: if_splits)
qed (use assms in \<open>simp add: m2_prog_def\<close>)

text \<open>
  C1: at most one thread owns the futex mutex in any reachable state, the state word is always
  one of the three constants, and it is \<open>UNLOCKED\<close> exactly when no thread owns the mutex.\<close>

theorem m2_mutual_exclusion:
  assumes "reachable (m2_prog F) (m2_start F) s"
  shows "cnt m2_owns (locs s) \<le> 1 \<and>
    val (m2_state (glob s)) \<in> {UNLOCKED, LOCKED, LOCKED_HAS_WAITERS} \<and>
    (val (m2_state (glob s)) = UNLOCKED \<longleftrightarrow> cnt m2_owns (locs s) = 0)"
  using m2_reachable_inv(3,4) [OF assms] by simp

lemma m2_exclusive: "reachable (m2_prog F) (m2_start F) s \<Longrightarrow> cnt m2_owns (locs s) \<le> 1"
  using m2_reachable_inv(4) [of F s] by simp

interpretation m2_lock: exclusive_lock "m2_prog F" "m2_start F" m2_owns m2_data for F :: futex_api
  by unfold_locales (fact m2_exclusive, fact m2_prog_data)

text \<open>The spinning phase of \<open>lock\<close> against a locked mutex.\<close>

lemma m2_spin_run:
  assumes "val (m2_state (glob s)) \<noteq> UNLOCKED" and "t < length (locs s)"
    and "m2_pc (locs s ! t) = M2_lock (M2_spin c)" and "c + k \<le> 100"
  shows "run (m2_prog F) (replicate k (t, e)) s =
    Some (s\<lparr>locs := (locs s)[t := (locs s ! t)\<lparr>m2_pc := M2_lock (M2_spin (c + k))\<rparr>]\<rparr>)"
  using assms
proof (induction k arbitrary: s c)
  case 0
  then have "locs s ! t = (locs s ! t)\<lparr>m2_pc := M2_lock (M2_spin c)\<rparr>" by simp
  then show ?case by simp
next
  case (Suc k)
  let ?s = "s\<lparr>locs := (locs s)[t := (locs s ! t)\<lparr>m2_pc := M2_lock (M2_spin (Suc c))\<rparr>]\<rparr>"
  from Suc.prems have "sys_step (m2_prog F) (t, e) s = Some ?s"
    by (simp add: sys_step_def m2_prog_def)
  moreover have "run (m2_prog F) (replicate k (t, e)) ?s =
      Some (?s\<lparr>locs := (locs ?s)[t := (locs ?s ! t)\<lparr>m2_pc := M2_lock (M2_spin (Suc c + k))\<rparr>]\<rparr>)"
    using Suc.prems by (intro Suc.IH) simp_all
  ultimately show ?case using Suc.prems(2) by simp
qed

text \<open>Two threads: thread 0 holds the mutex, thread 1 is blocked on the futex.\<close>

definition m2_duo :: "(nat mutex2, m2_thread) sys" where
  "m2_duo = \<lparr>glob = snd (m2_new 0 0), locs = [m2_fresh {}, m2_fresh {1}]\<rparr>"

lemmas m2_run_eval = sys_step_def m2_eval m2_new_def m2_fresh_def m2_duo_def futex_new_def
  futex_wait_def futex_return_def futex_wake_one_def UNLOCKED_def LOCKED_def LOCKED_HAS_WAITERS_def
  poison_result_def Let_def replicate_numeral

lemma m2_duo_reachable: "reachable (m2_prog fifo_futex) (m2_start fifo_futex) m2_duo"
  by (rule reachable_init)
    (auto simp: m2_start_def m2_duo_def m2_new_def)

definition m2_held :: "(nat mutex2, m2_thread) sys" where
  "m2_held = \<lparr>glob = snd (m2_new 0 0)\<lparr>m2_state := \<lparr>val = LOCKED, waiters = []\<rparr>\<rparr>,
     locs = [(m2_fresh {0})\<lparr>m2_guard := True, m2_last := Some (Inr ())\<rparr>, m2_fresh {1}]\<rparr>"

lemma m2_held_reachable: "reachable (m2_prog fifo_futex) (m2_start fifo_futex) m2_held"
  by (rule run_reachable [OF m2_duo_reachable, of "replicate 5 (0, quiet M2_op_lock)"])
    (simp add: m2_run_eval m2_held_def)

theorem m2_mutual_exclusion_witness:
  "cnt m2_owns (locs m2_held) \<le> 1 \<and> m2_owns (locs m2_held ! 0) \<and>
    val (m2_state (glob m2_held)) = LOCKED"
  using m2_mutual_exclusion [OF m2_held_reachable]
  by (simp add: m2_held_def m2_owns_def m2_fresh_def)

text \<open>
  C20: no wake-up is lost.  Whenever some thread is blocked on the futex while the mutex is not in
  the state \<open>LOCKED_HAS_WAITERS\<close>, some thread is about to retry the exchange or to wake a waiter, and it can move.\<close>

theorem m2_no_lost_wakeup:
  assumes "reachable (m2_prog F) (m2_start F) s" and "waiters (m2_state (glob s)) \<noteq> []"
    and "val (m2_state (glob s)) \<noteq> LOCKED_HAS_WAITERS"
  shows "\<exists>t < length (locs s). m2_active (glob s) t (locs s ! t) \<and>
    (\<forall>e. m2_prog F e t (glob s) (locs s ! t) \<noteq> None)"
proof -
  from m2_reachable_inv(5) [OF assms(1,2)] assms(3) obtain t where
    t: "t < length (locs s)" and act: "m2_active (glob s) t (locs s ! t)" by blast
  have "m2_prog F e t (glob s) (locs s ! t) \<noteq> None" for e
    using act by (auto simp: m2_active_def m2_prog_def futex_return_def Let_def
        split: prod.splits bool.splits)
  with t act show ?thesis by blast
qed

text \<open>
  Thread 1 waits for thread 0, takes the mutex as \<open>LOCKED_HAS_WAITERS\<close>, thread 0 blocks on
  the futex, and thread 1 has released the mutex but not yet called \<open>wake_one\<close>.
\<close>

definition m2_releasing :: "(nat mutex2, m2_thread) sys" where
  "m2_releasing = \<lparr>glob = snd (m2_new 0 0)\<lparr>m2_state := \<lparr>val = UNLOCKED, waiters = [0]\<rparr>\<rparr>,
     locs = [(m2_fresh {})\<lparr>m2_pc := M2_lock M2_blocked, m2_last := Some (Inr ())\<rparr>,
       (m2_fresh {1})\<lparr>m2_pc := M2_drop M2d_wake, m2_last := Some (Inr ())\<rparr>]\<rparr>"

lemma m2_releasing_reachable: "reachable (m2_prog fifo_futex) (m2_start fifo_futex) m2_releasing"
proof -
  let ?l0 = "(0, quiet (M2_op_lock :: nat m2_op))" and ?l1 = "(1, quiet (M2_op_lock :: nat m2_op))"
  let ?u0 = "(0, quiet (M2_op_unlock :: nat m2_op))" and ?u1 = "(1, quiet (M2_op_unlock :: nat m2_op))"
  let ?P = "m2_prog fifo_futex"
  define s1 where "s1 = m2_held\<lparr>locs := (locs m2_held)[1 := (m2_fresh {1})\<lparr>m2_pc := M2_lock (M2_spin 0)\<rparr>]\<rparr>"
  have r1: "run ?P (replicate 3 ?l1) m2_held = Some s1"
    by (simp add: m2_run_eval m2_held_def s1_def)
  define s2 where "s2 = m2_held\<lparr>locs := (locs m2_held)[1 := (m2_fresh {1})\<lparr>m2_pc := M2_lock (M2_spin 100)\<rparr>]\<rparr>"
  have r2: "run ?P (replicate 100 ?l1) s1 = Some s2"
    by (subst m2_spin_run [where c = 0]) (simp_all add: s1_def s2_def m2_held_def LOCKED_def UNLOCKED_def m2_fresh_def)
  define s3 where "s3 = \<lparr>glob = snd (m2_new 0 (0 :: nat))\<lparr>m2_state := \<lparr>val = LOCKED_HAS_WAITERS, waiters = []\<rparr>\<rparr>,
     locs = [(m2_fresh {})\<lparr>m2_last := Some (Inr ())\<rparr>,
       (m2_fresh {1, 0})\<lparr>m2_guard := True, m2_last := Some (Inr ())\<rparr>]\<rparr>"
  have r3: "run ?P (replicate 2 ?l1 @ replicate 4 ?u0 @ replicate 3 ?l1) s2 = Some s3"
    by (simp add: m2_run_eval m2_held_def s2_def s3_def insert_commute insert_Diff_if)
  define s4 where "s4 = s3\<lparr>locs := (locs s3)[0 := (m2_fresh {})\<lparr>m2_last := Some (Inr ()), m2_pc := M2_lock (M2_spin 0)\<rparr>]\<rparr>"
  have r4: "run ?P (replicate 3 ?l0) s3 = Some s4"
    by (simp add: m2_run_eval s3_def s4_def)
  define s5 where "s5 = s3\<lparr>locs := (locs s3)[0 := (m2_fresh {})\<lparr>m2_last := Some (Inr ()), m2_pc := M2_lock (M2_spin 100)\<rparr>]\<rparr>"
  have r5: "run ?P (replicate 100 ?l0) s4 = Some s5"
    by (subst m2_spin_run [where c = 0]) (simp_all add: s3_def s4_def s5_def LOCKED_HAS_WAITERS_def UNLOCKED_def m2_fresh_def)
  have r6: "run ?P (replicate 4 ?l0 @ replicate 4 ?u1) s5 = Some m2_releasing"
    by (simp add: m2_run_eval s3_def s5_def m2_releasing_def insert_commute insert_Diff_if)
  show ?thesis
    by (rule run_reachable [OF run_reachable [OF run_reachable [OF run_reachable [OF run_reachable
      [OF run_reachable [OF m2_held_reachable r1] r2] r3] r4] r5] r6])
qed

theorem m2_no_lost_wakeup_witness:
  "\<exists>t < length (locs m2_releasing). m2_active (glob m2_releasing) t (locs m2_releasing ! t)"
proof -
  have "waiters (m2_state (glob m2_releasing)) \<noteq> []"
    and "val (m2_state (glob m2_releasing)) \<noteq> LOCKED_HAS_WAITERS"
    by (simp_all add: m2_releasing_def)
  from m2_no_lost_wakeup [OF m2_releasing_reachable this] show ?thesis by blast
qed

lemma m2_prog_locked:
  assumes "m2_prog F e t g l = Some (g', l')" and "val (m2_state g) = LOCKED"
  shows "val (m2_state g') = LOCKED \<or> val (m2_state g') = UNLOCKED"
proof (cases "m2_pc l")
  case M2_idle
  with assms show ?thesis by (cases "call e") (auto simp: m2_eval split: if_splits)
next
  case (M2_lock p)
  with assms show ?thesis
    by (cases p) (auto simp: m2_eval dest!: futex_wait_val futex_return_val
      split: if_splits prod.splits bool.splits option.splits)
next
  case (M2_try p)
  with assms show ?thesis by (cases p) (auto simp: m2_eval split: if_splits)
next
  case (M2_drop p)
  with assms show ?thesis by (cases p) (auto simp: m2_eval Let_def split: if_splits)
qed (use assms in \<open>simp add: m2_prog_def\<close>)

text \<open>
  A thread that waits never tells the holder.  No step of any thread turns
  \<open>LOCKED\<close> into \<open>LOCKED_HAS_WAITERS\<close>, so a thread that arrives while the holder took the
  mutex without contention never sleeps: it goes round its loop of failing exchange and returning
  \<open>wait\<close> for as long as the mutex is held, consuming the processor.\<close>

theorem m2_never_marks_waiters:
  assumes "futex_ok F" and "val (m2_state (glob s)) = LOCKED"
    and "t < length (locs s)" and "m2_pc (locs s ! t) = M2_lock M2_cas3"
  shows "run (m2_prog F) (replicate (2 * k) (t, e)) s = Some s \<and>
    (\<forall>a s'. sys_step (m2_prog F) a s = Some s' \<longrightarrow>
      val (m2_state (glob s')) \<noteq> LOCKED_HAS_WAITERS)"
proof
  have "locs s ! t = (locs s ! t)\<lparr>m2_pc := M2_lock M2_cas3\<rparr>" using assms(4) by simp
  then have same: "(locs s)[t := (locs s ! t)\<lparr>m2_pc := M2_lock M2_cas3\<rparr>] = locs s"
    by (metis list_update_id)
  show "run (m2_prog F) (replicate (2 * k) (t, e)) s = Some s"
  proof (induction k)
    case (Suc k)
    have "\<not> blocks F (pick e) (val (m2_state (glob s)) = LOCKED_HAS_WAITERS)"
      using assms(1,2) by (simp add: futex_ok_def)
    then have "run (m2_prog F) [(t, e), (t, e)] s = Some s"
      using assms(2-4) same by (simp add: sys_step_def m2_prog_def futex_wait_def)
    with Suc.IH have "run (m2_prog F) ([(t, e), (t, e)] @ replicate (2 * k) (t, e)) s = Some s"
      by (simp only: run_append option.case)
    then show ?case by simp
  qed simp
  show "\<forall>a s'. sys_step (m2_prog F) a s = Some s' \<longrightarrow>
      val (m2_state (glob s')) \<noteq> LOCKED_HAS_WAITERS"
    using m2_prog_locked [OF _ assms(2)] by (fastforce elim!: sys_step_SomeE)
qed

text \<open>Thread 0 holds the mutex as \<open>LOCKED\<close>, thread 1 is in its waiting loop.\<close>

definition m2_contended :: "(nat mutex2, m2_thread) sys" where
  "m2_contended = m2_held\<lparr>locs := (locs m2_held)[1 := (m2_fresh {1})\<lparr>m2_pc := M2_lock M2_cas3\<rparr>]\<rparr>"

theorem m2_never_marks_waiters_witness:
  "run (m2_prog fifo_futex) (replicate (2 * 1000) (1, quiet M2_op_lock)) m2_contended = Some m2_contended"
proof -
  have "val (m2_state (glob m2_contended)) = LOCKED" and "1 < length (locs m2_contended)"
    and "m2_pc (locs m2_contended ! 1) = M2_lock M2_cas3"
    by (simp_all add: m2_contended_def m2_held_def)
  from m2_never_marks_waiters [OF fifo_futex_ok this, of 1000] show ?thesis by simp
qed

text \<open>
  A thread that holds the mutex gets \<open>WouldBlock\<close> from a second \<open>lock\<close> or \<open>try_lock\<close>
  after the re-entrance check alone: the mutex is untouched and the thread keeps its guard.\<close>

theorem m2_reentrance_would_block:
  assumes "reachable (m2_prog F) (m2_start F) s" and "t < length (locs s)"
    and "m2_pc (locs s ! t) = M2_idle" and "m2_guard (locs s ! t)"
    and "call e = M2_op_lock \<or> call e = M2_op_try_lock"
  shows "run (m2_prog F) [(t, e), (t, e)] s =
    Some (s\<lparr>locs := (locs s)[t := (locs s ! t)\<lparr>m2_last := Some (Inl WouldBlock)\<rparr>]\<rparr>)"
proof -
  have "m2_id (glob s) \<in> m2_acquired (locs s ! t)"
    using eachD [OF m2_reachable_inv(2) [OF assms(1)] assms(2)] assms(3,4) by (simp add: m2_ok_def)
  moreover obtain acq p r where "locs s ! t = \<lparr>m2_pc = M2_idle, m2_guard = True,
      m2_acquired = acq, m2_panicking = p, m2_last = r\<rparr>"
    using assms(3,4) by (cases "locs s ! t") auto
  ultimately show ?thesis
    using assms(2,5) by (auto simp: sys_step_def m2_eval)
qed

theorem m2_reentrance_would_block_witness:
  "run (m2_prog fifo_futex) [(0, quiet M2_op_try_lock), (0, quiet M2_op_try_lock)] m2_held =
    Some (m2_held\<lparr>locs := (locs m2_held)[0 := (locs m2_held ! 0)\<lparr>m2_last := Some (Inl WouldBlock)\<rparr>]\<rparr>)"
  by (rule m2_reentrance_would_block [OF m2_held_reachable]) (simp_all add: m2_held_def m2_fresh_def)

text \<open>
  On an unlocked mutex \<open>lock\<close> returns in five steps of its thread, whatever the other threads
  are doing: the mutex is \<open>LOCKED\<close>, its identifier is in the thread-local set, the thread has the
  guard, and the result is \<open>Ok\<close>, or \<open>Poisoned\<close> with the guard inside when the mutex is poisoned.\<close>

theorem m2_lock_free:
  assumes "reachable (m2_prog F) (m2_start F) s" and "t < length (locs s)"
    and "m2_pc (locs s ! t) = M2_idle" and "val (m2_state (glob s)) = UNLOCKED"
  shows "run (m2_prog F) (replicate 5 (t, quiet M2_op_lock)) s =
    Some \<lparr>glob = (glob s)\<lparr>m2_state := (m2_state (glob s))\<lparr>val := LOCKED\<rparr>\<rparr>,
      locs = (locs s)[t := (locs s ! t)\<lparr>m2_guard := True,
        m2_acquired := insert (m2_id (glob s)) (m2_acquired (locs s ! t)),
        m2_last := Some (poison_result (m2_poisoned (glob s)))\<rparr>]\<rparr>"
proof -
  have "cnt m2_owns (locs s) = 0"
    using m2_reachable_inv(4) [OF assms(1)] assms(4) by simp
  with assms(2) have "\<not> m2_owns (locs s ! t)" by (simp add: cnt_0_iff)
  moreover obtain guard acq p r where l: "locs s ! t = \<lparr>m2_pc = M2_idle, m2_guard = guard,
      m2_acquired = acq, m2_panicking = p, m2_last = r\<rparr>"
    using assms(3) by (cases "locs s ! t") auto
  ultimately have "\<not> guard" by (simp add: m2_owns_def)
  moreover have "m2_id (glob s) \<notin> acq"
    using eachD [OF m2_reachable_inv(2) [OF assms(1)] assms(2)] l \<open>\<not> guard\<close>
    by (simp add: m2_ok_def)
  ultimately show ?thesis
    using assms(2,4) l by (simp add: sys_step_def m2_eval replicate_numeral)
qed

theorem m2_lock_free_witness:
  "run (m2_prog fifo_futex) (replicate 5 (0, quiet M2_op_lock)) m2_duo = Some m2_held"
proof -
  have "run (m2_prog fifo_futex) (replicate 5 (0, quiet M2_op_lock)) m2_duo =
    Some \<lparr>glob = (glob m2_duo)\<lparr>m2_state := (m2_state (glob m2_duo))\<lparr>val := LOCKED\<rparr>\<rparr>,
      locs = (locs m2_duo)[0 := (locs m2_duo ! 0)\<lparr>m2_guard := True,
        m2_acquired := insert (m2_id (glob m2_duo)) (m2_acquired (locs m2_duo ! 0)),
        m2_last := Some (poison_result (m2_poisoned (glob m2_duo)))\<rparr>]\<rparr>"
    by (rule m2_lock_free [OF m2_duo_reachable]) (simp_all add: m2_duo_def m2_new_def m2_fresh_def)
  then show ?thesis
    by (simp add: m2_duo_def m2_held_def m2_new_def m2_fresh_def poison_result_def futex_new_def)
qed

text \<open>
  A thread that panics while it holds the mutex poisons it and releases it: after the drop of
  its guard in the unwinding the mutex is unlocked and poisoned, its data untouched.\<close>

theorem m2_panic_poisons:
  assumes "t < length (locs s)" and "m2_pc (locs s ! t) = M2_idle" and "m2_guard (locs s ! t)"
  shows "\<exists>s'. run (m2_prog F) (replicate 4 (t, quiet M2_op_panic)) s = Some s' \<and>
    m2_poisoned (glob s') \<and> m2_data (glob s') = m2_data (glob s) \<and>
    val (m2_state (glob s')) = UNLOCKED \<and> \<not> m2_owns (locs s' ! t) \<and>
    m2_pc (locs s' ! t) =
      (if val (m2_state (glob s)) = LOCKED_HAS_WAITERS then M2_drop M2d_wake else M2_dead)"
  using assms by (simp add: sys_step_def m2_eval replicate_numeral m2_owns_def)

theorem m2_panic_poisons_witness:
  "\<exists>s'. run (m2_prog fifo_futex) (replicate 4 (0, quiet M2_op_panic)) m2_held = Some s' \<and>
    m2_poisoned (glob s') \<and> m2_pc (locs s' ! 0) = M2_dead"
proof -
  have "\<exists>s'. run (m2_prog fifo_futex) (replicate 4 (0, quiet M2_op_panic)) m2_held = Some s' \<and>
    m2_poisoned (glob s') \<and> m2_data (glob s') = m2_data (glob m2_held) \<and>
    val (m2_state (glob s')) = UNLOCKED \<and> \<not> m2_owns (locs s' ! 0) \<and>
    m2_pc (locs s' ! 0) =
      (if val (m2_state (glob m2_held)) = LOCKED_HAS_WAITERS then M2_drop M2d_wake else M2_dead)"
    by (rule m2_panic_poisons) (simp_all add: m2_held_def m2_fresh_def)
  then show ?thesis by (auto simp: m2_held_def)
qed

text \<open>
  While a thread owns the mutex, no sequence of steps of other threads changes the
  protected data or takes the mutex away.\<close>

theorem m2_critical_section_isolated:
  assumes "reachable (m2_prog F) (m2_start F) s" and "t < length (locs s)"
    and "m2_owns (locs s ! t)" and "run (m2_prog F) as s = Some s'" and "t \<notin> fst ` set as"
  shows "m2_data (glob s') = m2_data (glob s) \<and> m2_owns (locs s' ! t)"
  using m2_lock.isolated [OF assms] .

theorem m2_critical_section_isolated_witness:
  "\<exists>s'. run (m2_prog fifo_futex) (replicate 3 (1, quiet M2_op_lock)) m2_held = Some s' \<and>
    m2_data (glob s') = 0 \<and> m2_owns (locs s' ! 0)"
proof -
  obtain s' where run: "run (m2_prog fifo_futex) (replicate 3 (1, quiet M2_op_lock)) m2_held = Some s'"
    by (simp add: m2_run_eval m2_held_def)
  moreover have "0 < length (locs m2_held)" and "m2_owns (locs m2_held ! 0)"
    by (simp_all add: m2_held_def m2_owns_def)
  moreover have "0 \<notin> fst ` set (replicate 3 (1 :: nat, quiet (M2_op_lock :: nat m2_op)))" by simp
  ultimately have "m2_data (glob s') = m2_data (glob m2_held) \<and> m2_owns (locs s' ! 0)"
    by (intro m2_critical_section_isolated [OF m2_held_reachable])
  with run show ?thesis by (auto simp: m2_held_def m2_new_def)
qed

text \<open>
  C11: The futex mutex is an atomic lock with data.  From any reachable state, every run of threads that lock,
  lock without waiting, write, unlock and panic, read as the sequence of its acquisitions,
  stores and releases, is an execution of the abstract lock: its guards admit each event, and it
  ends with the same holder and the same data.\<close>

theorem m2_implements_lock:
  assumes "reachable (m2_prog F) (m2_start F) s" and "run (m2_prog F) as s = Some s'"
  shows "lock_execs (lock_history (m2_prog F) (\<lambda>_. False) m2_owns m2_data as s)
      (lock_view_of (\<lambda>_. False) m2_owns m2_data s) =
    Some (lock_view_of (\<lambda>_. False) m2_owns m2_data s')"
  using assms by (rule m2_lock.lock.run_refines)

text \<open>Thread 0 stores and unlocks; thread 1 takes the mutex with \<open>try_lock\<close>.\<close>

definition m2_handover :: "(nat \<times> nat m2_op env) list" where
  "m2_handover = (0, quiet (M2_op_write (\<lambda>x. x + 7))) # replicate 4 (0, quiet M2_op_unlock) @
     replicate 5 (1, quiet M2_op_try_lock)"

theorem m2_implements_lock_witness:
  "\<exists>s'. run (m2_prog fifo_futex) m2_handover m2_held = Some s' \<and>
    lock_execs [Store 0 7, Unlock_write 0, Lock_write 1]
      (lock_view_of (\<lambda>_. False) m2_owns m2_data m2_held) =
    Some (lock_view_of (\<lambda>_. False) m2_owns m2_data s')"
proof -
  have "run (m2_prog fifo_futex) m2_handover m2_held \<noteq> None"
    by (simp add: m2_run_eval m2_handover_def m2_held_def)
  then obtain s' where run: "run (m2_prog fifo_futex) m2_handover m2_held = Some s'" by blast
  moreover have "lock_history (m2_prog fifo_futex) (\<lambda>_. False) m2_owns m2_data m2_handover m2_held =
      [Store 0 7, Unlock_write 0, Lock_write 1]"
    by (simp add: m2_run_eval m2_handover_def m2_held_def lock_step_events_def m2_owns_def)
  ultimately show ?thesis using m2_implements_lock [OF m2_held_reachable run] by auto
qed

text \<open>
  C27: The set of identifiers a thread keeps is right: for a thread between two calls the identifier
  of the mutex is in it exactly when the thread owns a guard, so the check at the start of \<open>lock\<close> and
  \<open>try_lock\<close> refuses the callers that would deadlock with themselves and no other.\<close>

theorem m2_acquired_sound:
  assumes "reachable (m2_prog F) (m2_start F) s" and "t < length (locs s)"
    and "m2_pc (locs s ! t) = M2_idle"
  shows "(m2_id (glob s) \<in> m2_acquired (locs s ! t) \<longleftrightarrow> m2_guard (locs s ! t)) \<and>
    (m2_acquired_check (glob s) (m2_acquired (locs s ! t)) = (Inl WouldBlock :: unit lock_error + unit) \<longleftrightarrow>
      m2_guard (locs s ! t))"
  using m2_reachable_inv(1,2) [OF assms(1)] assms(2,3)
  by (auto simp: each_def m2_ok_def m2_acquired_check_def)

theorem m2_acquired_sound_witness:
  "m2_id (glob m2_held) \<in> m2_acquired (locs m2_held ! 0)"
  using m2_acquired_sound [OF m2_held_reachable, of 0] by (simp add: m2_held_def m2_fresh_def)

section \<open>Threads that count under the mutex\<close>

definition m2_api :: "('a m2_op, 'a, m2_thread) lock_api" where
  "m2_api = \<lparr>api_lock = M2_op_lock, api_unlock = M2_op_unlock, api_write = M2_op_write,
     api_idle = (\<lambda>l. m2_pc l = M2_idle), api_ok = (\<lambda>l. m2_last l = Some (Inr ()))\<rparr>"

lemma m2_api_simps [simp]:
  "api_lock m2_api = M2_op_lock" "api_unlock m2_api = M2_op_unlock" "api_write m2_api = M2_op_write"
  "api_idle m2_api l \<longleftrightarrow> m2_pc l = M2_idle" "api_ok m2_api l \<longleftrightarrow> m2_last l = Some (Inr ())"
  by (simp_all add: m2_api_def)

definition m2_outside :: "m2_thread \<Rightarrow> bool" where
  "m2_outside l \<longleftrightarrow> m2_pc l = M2_idle \<and> \<not> m2_guard l \<and> \<not> m2_panicking l"

definition m2_entering :: "m2_thread \<Rightarrow> bool" where
  "m2_entering l \<longleftrightarrow> (\<exists>p. m2_pc l = M2_lock p) \<and> \<not> m2_guard l \<and> \<not> m2_panicking l"

definition m2_inside :: "m2_thread \<Rightarrow> bool" where
  "m2_inside l \<longleftrightarrow> m2_pc l = M2_idle \<and> m2_guard l \<and> \<not> m2_panicking l"

definition m2_leaving :: "m2_thread \<Rightarrow> bool" where
  "m2_leaving l \<longleftrightarrow> (\<exists>p. m2_pc l = M2_drop p \<and> (p = M2d_wake \<longrightarrow> \<not> m2_guard l)) \<and> \<not> m2_panicking l"

lemmas m2_stages = m2_outside_def m2_entering_def m2_inside_def m2_leaving_def

lemma m2_start_outside:
  assumes "m2_start F s"
  shows "\<not> m2_poisoned (glob s) \<and> (\<forall>l \<in> set (locs s). m2_outside l)"
proof -
  have "m2_outside (m2_fresh acq)" for acq by (simp add: m2_outside_def m2_fresh_def)
  with assms have "\<forall>t < length (locs s). m2_outside (locs s ! t)"
    unfolding m2_start_def each_def by metis
  moreover from assms have "\<not> m2_poisoned (glob s)" by (auto simp: m2_start_def m2_new_def)
  ultimately show ?thesis by (auto simp: in_set_conv_nth)
qed

lemma m2_enter:
  assumes "reachable (m2_prog F) (m2_start F) s" and "t < length (locs s)"
    and "\<not> m2_poisoned (glob s)" and stage: "m2_outside (locs s ! t) \<or> m2_entering (locs s ! t)"
    and step: "m2_prog F (with_call M2_op_lock e) t (glob s) (locs s ! t) = Some (g', l')"
  shows "\<not> m2_poisoned g' \<and> m2_data g' = m2_data (glob s) \<and>
    (if m2_pc l' = M2_idle then m2_last l' = Some (Inr ()) \<and> m2_inside l' else m2_entering l')"
proof -
  have ok: "m2_ok (glob s) t (locs s ! t)"
    using m2_reachable_inv(2) [OF assms(1)] assms(2) by (simp add: each_def)
  show ?thesis
  proof (cases "m2_pc (locs s ! t)")
    case (M2_lock p)
    with ok assms(3) stage step show ?thesis
      by (cases p) (auto simp: m2_eval m2_stages m2_ok_def poison_result_def
        split: if_splits prod.splits bool.splits option.splits)
  qed (use assms(3) stage step in \<open>auto simp: m2_eval m2_stages\<close>)
qed

lemma m2_store:
  "\<not> m2_poisoned g \<Longrightarrow> m2_inside l \<Longrightarrow> m2_prog F (with_call (M2_op_write f) e) t g l = Some (g', l') \<Longrightarrow>
    \<not> m2_poisoned g' \<and> m2_data g' = f (m2_data g) \<and> m2_inside l'"
  by (auto simp: m2_eval m2_inside_def)

lemma m2_leave:
  assumes "\<not> m2_poisoned g" and "m2_inside l \<or> m2_leaving l"
    and "m2_prog F (with_call M2_op_unlock e) t g l = Some (g', l')"
  shows "\<not> m2_poisoned g' \<and> m2_data g' = m2_data g \<and>
    (if m2_pc l' = M2_idle then m2_outside l' else m2_leaving l')"
proof (cases "m2_pc l")
  case (M2_drop p)
  with assms show ?thesis by (cases p) (auto simp: m2_eval m2_stages Let_def split: if_splits)
qed (use assms in \<open>auto simp: m2_eval m2_stages\<close>)

interpretation m2_work: worker_lock "m2_prog F" "m2_start F" m2_owns m2_data m2_api
    "\<lambda>g. \<not> m2_poisoned g" m2_outside m2_entering m2_inside m2_leaving
  for F :: futex_api
  by (unfold_locales, unfold m2_api_simps)
    (fact m2_start_outside, fact m2_enter, fact m2_store, fact m2_leave, simp add: m2_inside_def m2_owns_def)

text \<open>
  \<open>test_concurrency\<close> and \<open>test_contented\<close>: threads that execute \<open>*m.lock().unwrap() += 1\<close>, each
  \<open>k\<close> times.
\<close>

definition m2_counters :: "futex_api \<Rightarrow> (unit, ('a::len word) mutex2, ('a word, m2_thread) worker) program" where
  "m2_counters F = worker_prog (m2_prog F) m2_api m2_data (\<lambda>x. x + 1)"

definition m2_counters_start ::
  "futex_api \<Rightarrow> 'a::len word \<Rightarrow> nat \<Rightarrow> nat \<Rightarrow> ('a word mutex2, ('a word, m2_thread) worker) sys \<Rightarrow> bool" where
  "m2_counters_start F d n k = worker_start (m2_start F) m2_data d n k"

text \<open>
  C16: No increment is lost and nobody panics.  When any number \<open>n\<close> of threads have each executed \<open>*m.lock().unwrap() += 1\<close> \<open>k\<close> times, the data has grown by exactly \<open>n * k\<close>
  (modulo the width of the integer), although the threads load and store it in separate steps, and no \<open>unwrap\<close>
  has failed: this is what \<open>test_concurrency\<close> and \<open>test_contented\<close> look for.\<close>

theorem m2_no_update_lost:
  assumes "reachable (m2_counters F) (m2_counters_start F d n k) s"
    and "\<forall>w \<in> set (locs s). wk_left w = 0"
  shows "m2_data (glob s) = d + of_nat (n * k) \<and> (\<forall>w \<in> set (locs s). wk_pc w \<noteq> Wk_panicked)"
  using m2_work.no_update_lost [where upd = "\<lambda>x. x + 1" and F = F and d = d and n = n and k = k and s = s] assms
  by (simp add: m2_counters_def m2_counters_start_def work_left_0 [symmetric] funpow_plus_1)

text \<open>Two threads on a byte with one increment each, one after the other.\<close>

definition m2_pair :: "(8 word mutex2, (8 word, m2_thread) worker) sys" where
  "m2_pair = \<lparr>glob = snd (m2_new 0 0),
     locs = replicate 2 \<lparr>wk_pc = Wk_lock, wk_left = 1, wk_lock = m2_fresh {}\<rparr>\<rparr>"

lemma m2_pair_reachable: "reachable (m2_counters fifo_futex) (m2_counters_start fifo_futex 0 2 1) m2_pair"
  by (rule reachable_init) (auto simp: m2_counters_start_def worker_start_def m2_start_def sys_view_def
    m2_pair_def m2_new_def each_replicate)

theorem m2_no_update_lost_witness:
  "\<exists>s. run (m2_counters fifo_futex) (replicate 11 (0, quiet ()) @ replicate 11 (1, quiet ())) m2_pair = Some s \<and>
    m2_data (glob s) = 2"
proof -
  let ?as = "replicate 11 (0 :: nat, quiet ()) @ replicate 11 (1, quiet ())"
  obtain s where run: "run (m2_counters fifo_futex) ?as m2_pair = Some s"
    and fin: "\<forall>w \<in> set (locs s). wk_left w = 0"
    by (simp add: m2_run_eval m2_counters_def worker_prog_def with_call_def m2_pair_def)
  then show ?thesis
    using m2_no_update_lost [OF run_reachable [OF m2_pair_reachable run] fin] by simp
qed

section \<open>Work that can always be finished\<close>

text \<open>
  A thread gets the mutex alone when it has it already, or when the mutex is free and the thread is not
  blocked.\<close>

definition m2_able :: "'a mutex2 \<Rightarrow> nat \<Rightarrow> m2_thread \<Rightarrow> bool" where
  "m2_able g t l \<longleftrightarrow> m2_pc l \<in> {M2_lock M2_set, M2_lock M2_poison} \<or>
     val (m2_state g) = UNLOCKED \<and> t \<notin> set (waiters (m2_state g))"

fun m2_lock_rank :: "m2_lock_pc \<Rightarrow> nat" where
  "m2_lock_rank M2_check = 7"
| "m2_lock_rank M2_cas = 6"
| "m2_lock_rank (M2_spin c) = 5"
| "m2_lock_rank M2_cas2 = 4"
| "m2_lock_rank M2_wait = 4"
| "m2_lock_rank M2_blocked = 4"
| "m2_lock_rank M2_cas3 = 3"
| "m2_lock_rank M2_set = 2"
| "m2_lock_rank M2_poison = 1"

definition m2_enter_rank :: "'a mutex2 \<Rightarrow> m2_thread \<Rightarrow> nat" where
  "m2_enter_rank g l = (case m2_pc l of M2_lock p \<Rightarrow> m2_lock_rank p | _ \<Rightarrow> 8)"

definition m2_leave_rank :: "m2_thread \<Rightarrow> nat" where
  "m2_leave_rank l = (if m2_pc l = M2_idle then 5 else m2_steps_left (m2_pc l))"

lemma m2_enter_advances:
  assumes "reachable (m2_prog F) (m2_start F) s" and "t < length (locs s)"
    and stage: "m2_outside (locs s ! t) \<or> m2_entering (locs s ! t)" and able: "m2_able (glob s) t (locs s ! t)"
  shows "\<exists>g' l'. m2_prog F (with_call M2_op_lock (quiet ())) t (glob s) (locs s ! t) = Some (g', l') \<and>
    (m2_pc l' = M2_idle \<or> m2_able g' t l' \<and> m2_enter_rank g' l' < m2_enter_rank (glob s) (locs s ! t))"
proof (cases "m2_pc (locs s ! t)")
  case (M2_lock p)
  have "futex_ok F" using m2_reachable_inv(1) [OF assms(1)] .
  with M2_lock stage able show ?thesis
    by (cases p) (auto simp: m2_eval m2_able_def m2_enter_rank_def futex_wait_def futex_return_def futex_ok_def
      split: sum.splits)
qed (use stage able in \<open>auto simp: m2_eval m2_stages m2_able_def m2_enter_rank_def\<close>)

lemma m2_leave_advances:
  assumes "m2_inside l \<or> m2_leaving l"
  shows "\<exists>g' l'. m2_prog F (with_call M2_op_unlock (quiet ())) t g l = Some (g', l') \<and>
    (m2_pc l' = M2_idle \<or> m2_leave_rank l' < m2_leave_rank l)"
proof (cases "m2_pc l")
  case (M2_drop p)
  with assms show ?thesis by (cases p) (auto simp: m2_eval m2_stages m2_leave_rank_def Let_def)
qed (use assms in \<open>auto simp: m2_eval m2_stages m2_leave_rank_def\<close>)

text \<open>
  With nobody inside or leaving, the mutex belongs to a thread whose call is about to return, or it is free; then
  no thread is blocked, or one of those that are entering is about to try.\<close>

lemma m2_some_able:
  assumes reach: "reachable (m2_prog F) (m2_start F) s"
    and stages: "\<forall>l \<in> set (locs s). m2_outside l \<or> m2_entering l" and t: "t < length (locs s)"
  shows "\<exists>u < length (locs s). m2_able (glob s) u (locs s ! u) \<and> (u = t \<or> \<not> m2_outside (locs s ! u))"
proof -
  note inv = m2_reachable_inv [OF reach]
  have stage: "m2_outside (locs s ! u) \<or> m2_entering (locs s ! u)" if "u < length (locs s)" for u
    using stages that by simp
  show ?thesis
  proof (cases "val (m2_state (glob s)) = UNLOCKED")
    case False
    with inv(4) obtain u where u: "u < length (locs s)" "m2_owns (locs s ! u)"
      using cnt_0_iff [of m2_owns "locs s"] by auto
    with stage [OF u(1)] show ?thesis
      by (intro exI [of _ u]) (auto simp: m2_stages m2_owns_def m2_able_def)
  next
    case free: True
    show ?thesis
    proof (cases "waiters (m2_state (glob s)) = []")
      case True
      with free t show ?thesis by (auto simp: m2_able_def)
    next
      case False
      with inv(5) free obtain u where u: "u < length (locs s)" "m2_active (glob s) u (locs s ! u)"
        by (auto simp: m2_states_distinct)
      moreover have "m2_ok (glob s) u (locs s ! u)" using inv(2) u(1) by (simp add: each_def)
      ultimately show ?thesis
        using stage [OF u(1)] free by (intro exI [of _ u]) (auto simp: m2_active_def m2_stages m2_able_def m2_ok_def)
    qed
  qed
qed

interpretation m2_completing: completing_lock "m2_prog F" "m2_start F" m2_owns m2_data m2_api
    "\<lambda>g. \<not> m2_poisoned g" m2_outside m2_entering m2_inside m2_leaving m2_able m2_enter_rank m2_leave_rank
  for F :: futex_api
proof (unfold_locales, unfold m2_api_simps)
  show "m2_inside l \<Longrightarrow> m2_prog F (with_call (M2_op_write f) (quiet ())) t g l \<noteq> None" for f t g l
    by (simp add: m2_eval m2_stages)
qed (fact m2_enter_advances, fact m2_leave_advances, fact m2_some_able)

text \<open>
  C13: The work can always be completed.  From every state that threads can get into by executing
  \<open>*m.lock().unwrap() += 1\<close>, some schedule leads to the state where all increments have been made and all guards
  dropped; in particular there is no deadlock, and no thread is left asleep for good.\<close>

theorem m2_work_completes:
  assumes "reachable (m2_counters F) (m2_counters_start F d n k) s"
  shows "\<exists>s'. can_reach (m2_counters F) s s' \<and> m2_data (glob s') = d + of_nat (n * k) \<and>
    (\<forall>w \<in> set (locs s'). wk_left w = 0 \<and> m2_outside (wk_lock w))"
  using m2_completing.always_completes [OF assms [unfolded m2_counters_def m2_counters_start_def]]
  by (auto simp: m2_counters_def funpow_plus_1)

text \<open>Two threads; the first is between its load and its store, the second waits for it.\<close>

theorem m2_work_completes_witness:
  "\<exists>s s'. run (m2_counters fifo_futex) (replicate 6 (0, quiet ()) @ replicate 5 (1, quiet ())) m2_pair = Some s \<and>
    wk_pc (locs s ! 0) = Wk_store 0 \<and> can_reach (m2_counters fifo_futex) s s' \<and> m2_data (glob s') = 2"
proof -
  obtain s where run: "run (m2_counters fifo_futex) (replicate 6 (0, quiet ()) @ replicate 5 (1, quiet ())) m2_pair = Some s"
    and "wk_pc (locs s ! 0) = Wk_store 0"
    by (simp add: m2_run_eval m2_counters_def worker_prog_def with_call_def m2_pair_def)
  with m2_work_completes [OF run_reachable [OF m2_pair_reachable run]] show ?thesis by auto
qed

end
