(* ===== verification/SpinLock.thy ===== *)
theory SpinLock
  imports Worker
begin

text \<open>
  The spin lock of \<open>src/spinlock.rs\<close>: the lock word holds the identifier of the
  locking thread, or 0.  \<open>spin_lock_step\<close> is the body of \<open>SpinLock::lock\<close> access by
  access, \<open>spin_drop\<close> the \<open>Drop\<close> implementation of the guard, \<open>spin_prog\<close> a client
  thread that calls them in any order the borrow checker admits.  The identifiers come
  from the crate \<open>thread_id\<close>, a parameter of the model.
\<close>

section \<open>State\<close>

record 'a spinlock =
  locking_thread :: usize
  sl_data :: 'a

definition spin_new :: "'a \<Rightarrow> 'a spinlock" where
  "spin_new d = \<lparr>locking_thread = 0, sl_data = d\<rparr>"

section \<open>Operations\<close>

text \<open>
  Program points of \<open>lock\<close>: the re-entrance check, the load of the spinning loop, and the
  weak compare-exchange.
\<close>

datatype spin_lock_pc = Sp_check | Sp_load | Sp_cas

fun spin_lock_step ::
  "usize \<Rightarrow> bool \<Rightarrow> 'a spinlock \<Rightarrow> spin_lock_pc \<Rightarrow> 'a spinlock \<times> (spin_lock_pc, unit) ctl" where
  "spin_lock_step current_thread weak g Sp_check =
     (g, if locking_thread g = current_thread then Panic else Next Sp_load)"
| "spin_lock_step current_thread weak g Sp_load =
     (g, if locking_thread g = 0 then Next Sp_cas else Next Sp_load)"
| "spin_lock_step current_thread weak g Sp_cas =
     (if locking_thread g = 0 \<and> \<not> weak
      then (g\<lparr>locking_thread := current_thread\<rparr>, Ret ())
      else (g, Next Sp_load))"

text \<open>\<open>Drop for SpinGuard\<close>: the only effect of \<open>SpinGuard::unlock\<close> too.\<close>

definition spin_drop :: "'a spinlock \<Rightarrow> 'a spinlock" where
  "spin_drop g = g\<lparr>locking_thread := 0\<rparr>"

text \<open>\<open>Deref\<close> and \<open>DerefMut\<close>: a guard reads and writes the data.\<close>

definition spin_deref :: "'a spinlock \<Rightarrow> 'a" where
  "spin_deref g = sl_data g"

definition spin_deref_mut :: "('a \<Rightarrow> 'a) \<Rightarrow> 'a spinlock \<Rightarrow> 'a spinlock" where
  "spin_deref_mut f g = g\<lparr>sl_data := f (sl_data g)\<rparr>"

section \<open>Client threads\<close>

datatype 'a spin_op = Spin_lock | Spin_unlock | Spin_write "'a \<Rightarrow> 'a" | Spin_panic

text \<open>
  A thread is idle, inside \<open>lock\<close>, inside the drop of its guard, unwinding after a panic
  (which drops the guard it holds) or dead.
\<close>

datatype spin_pc = Sp_idle | Sp_lock spin_lock_pc | Sp_unlock | Sp_unwind | Sp_dead

record spin_thread =
  sp_pc :: spin_pc
  sp_guard :: bool

definition spin_idle :: spin_thread where
  "spin_idle = \<lparr>sp_pc = Sp_idle, sp_guard = False\<rparr>"

text \<open>
  An idle thread calls \<open>lock\<close> (whether or not it holds a guard), or uses, drops or loses by
  a panic the guard it holds.
\<close>

fun spin_call :: "'a spin_op \<Rightarrow> 'a spinlock \<Rightarrow> spin_thread \<Rightarrow> ('a spinlock \<times> spin_thread) option" where
  "spin_call Spin_lock g l = Some (g, l\<lparr>sp_pc := Sp_lock Sp_check\<rparr>)"
| "spin_call Spin_unlock g l = (if sp_guard l then Some (g, l\<lparr>sp_pc := Sp_unlock\<rparr>) else None)"
| "spin_call (Spin_write f) g l = (if sp_guard l then Some (spin_deref_mut f g, l) else None)"
| "spin_call Spin_panic g l = Some (g, l\<lparr>sp_pc := Sp_unwind\<rparr>)"

definition spin_prog :: "(nat \<Rightarrow> usize) \<Rightarrow> ('a spin_op, 'a spinlock, spin_thread) program" where
  "spin_prog tid e t g l =
     (case sp_pc l of
        Sp_idle \<Rightarrow> spin_call (call e) g l
      | Sp_lock p \<Rightarrow>
          (case spin_lock_step (tid t) (weak_fails e) g p of
             (g', Next p') \<Rightarrow> Some (g', l\<lparr>sp_pc := Sp_lock p'\<rparr>)
           | (g', Ret _) \<Rightarrow> Some (g', \<lparr>sp_pc = Sp_idle, sp_guard = True\<rparr>)
           | (g', Panic) \<Rightarrow> Some (g', l\<lparr>sp_pc := Sp_unwind\<rparr>))
      | Sp_unlock \<Rightarrow> Some (spin_drop g, \<lparr>sp_pc = Sp_idle, sp_guard = False\<rparr>)
      | Sp_unwind \<Rightarrow>
          Some (if sp_guard l then spin_drop g else g, \<lparr>sp_pc = Sp_dead, sp_guard = False\<rparr>)
      | Sp_dead \<Rightarrow> None)"

definition spin_init :: "nat \<Rightarrow> 'a \<Rightarrow> ('a spinlock, spin_thread) sys" where
  "spin_init n d = \<lparr>glob = spin_new d, locs = replicate n spin_idle\<rparr>"

definition spin_start :: "(nat \<Rightarrow> usize) \<Rightarrow> ('a spinlock, spin_thread) sys \<Rightarrow> bool" where
  "spin_start tid s \<longleftrightarrow> (\<exists>n d. s = spin_init n d \<and> tid_ok tid n)"

section \<open>Invariant\<close>

text \<open>
  The lock word is the identifier of the one thread with a guard, and 0 when there is none;
  a thread with a guard never gets past the re-entrance check.
\<close>

definition spin_ok :: "(nat \<Rightarrow> usize) \<Rightarrow> 'a spinlock \<Rightarrow> nat \<Rightarrow> spin_thread \<Rightarrow> bool" where
  "spin_ok tid g t l \<longleftrightarrow>
     (sp_guard l \<longleftrightarrow> locking_thread g = tid t) \<and>
     (sp_guard l \<longrightarrow> sp_pc l \<notin> {Sp_lock Sp_load, Sp_lock Sp_cas}) \<and>
     (sp_pc l = Sp_unlock \<longrightarrow> sp_guard l)"

definition spin_inv :: "(nat \<Rightarrow> usize) \<Rightarrow> ('a spinlock, spin_thread) sys \<Rightarrow> bool" where
  "spin_inv tid s \<longleftrightarrow>
     tid_ok tid (length (locs s)) \<and>
     each (spin_ok tid (glob s)) (locs s) \<and>
     (locking_thread (glob s) \<noteq> 0 \<longrightarrow>
       (\<exists>t < length (locs s). locking_thread (glob s) = tid t))"

lemma spin_inv_init: "spin_start tid s \<Longrightarrow> spin_inv tid s"
  by (auto simp: spin_start_def spin_init_def spin_inv_def each_def spin_ok_def spin_idle_def
      spin_new_def tid_ok_def)

text \<open>
  A step changes the lock word only by taking a free lock or by dropping the mover's
  guard, and keeps the mover's part of the invariant.
\<close>

lemma spin_prog_effect:
  assumes "spin_prog tid e t g l = Some (g', l')" and "spin_ok tid g t l" and "tid t \<noteq> 0"
  shows "spin_ok tid g' t l' \<and>
    (locking_thread g' = locking_thread g \<or>
     locking_thread g = 0 \<and> locking_thread g' = tid t \<or>
     locking_thread g = tid t \<and> locking_thread g' = 0)"
proof (cases "sp_pc l")
  case Sp_idle
  with assms show ?thesis
    by (cases "call e")
      (auto simp: spin_prog_def spin_ok_def spin_deref_mut_def split: if_splits)
next
  case (Sp_lock p)
  with assms show ?thesis
    by (cases p) (auto simp: spin_prog_def spin_ok_def split: if_splits)
qed (use assms in \<open>auto simp: spin_prog_def spin_ok_def spin_drop_def split: if_splits\<close>)

lemma spin_inv_step:
  assumes inv: "spin_inv tid \<lparr>glob = g, locs = ls\<rparr>" and t: "t < length ls"
    and step: "spin_prog tid e t g (ls ! t) = Some (g', l')"
  shows "spin_inv tid \<lparr>glob = g', locs = ls[t := l']\<rparr>"
proof -
  from inv have tids: "tid_ok tid (length ls)" and each: "each (spin_ok tid g) ls"
    and holder: "locking_thread g \<noteq> 0 \<longrightarrow> (\<exists>u < length ls. locking_thread g = tid u)"
    by (auto simp: spin_inv_def)
  from spin_prog_effect [OF step eachD [OF each t] tid_ok_nonzero [OF tids t]]
  have own: "spin_ok tid g' t l'" and word: "locking_thread g' = locking_thread g \<or>
     locking_thread g = 0 \<and> locking_thread g' = tid t \<or>
     locking_thread g = tid t \<and> locking_thread g' = 0"
    by auto
  have "spin_ok tid g' u (ls ! u)"
    if "u < length ls" "u \<noteq> t" "spin_ok tid g u (ls ! u)" for u
    using that word tid_ok_nonzero [OF tids that(1)] tid_ok_eq_iff [OF tids that(1) t]
    by (auto simp: spin_ok_def)
  with each t own have "each (spin_ok tid g') (ls[t := l'])"
    by (intro each_update [of "spin_ok tid g"]) auto
  with tids holder word t show ?thesis
    by (auto simp: spin_inv_def)
qed

interpretation spin: invariant_system "spin_prog tid" "spin_start tid" "spin_inv tid"
  for tid :: "nat \<Rightarrow> usize"
  by unfold_locales (auto intro: spin_inv_init spin_inv_step)

section \<open>Properties\<close>

lemma spin_reachable_ok:
  assumes "reachable (spin_prog tid) (spin_start tid) s"
  shows "tid_ok tid (length (locs s))" and "each (spin_ok tid (glob s)) (locs s)"
    and "locking_thread (glob s) \<noteq> 0 \<longrightarrow>
      (\<exists>t < length (locs s). locking_thread (glob s) = tid t)"
  using spin.reachable_inv [OF assms] by (auto simp: spin_inv_def)

lemma spin_guard_iff:
  "reachable (spin_prog tid) (spin_start tid) s \<Longrightarrow> t < length (locs s) \<Longrightarrow>
    sp_guard (locs s ! t) \<longleftrightarrow> locking_thread (glob s) = tid t"
  using spin_reachable_ok(2) [of tid s] by (auto dest: eachD simp: spin_ok_def)

lemma spin_prog_data:
  assumes "spin_prog tid e t g l = Some (g', l')" and "sl_data g' \<noteq> sl_data g"
  shows "sp_guard l \<and> sp_guard l'"
proof (cases "sp_pc l")
  case Sp_idle
  with assms show ?thesis by (cases "call e") (auto simp: spin_prog_def split: if_splits)
next
  case (Sp_lock p)
  with assms show ?thesis by (cases p) (auto simp: spin_prog_def split: if_splits)
qed (use assms in \<open>auto simp: spin_prog_def spin_drop_def split: if_splits\<close>)

lemma spin_exclusive: "reachable (spin_prog tid) (spin_start tid) s \<Longrightarrow> cnt sp_guard (locs s) \<le> 1"
  using spin_guard_iff [of tid s] tid_ok_eq_iff [OF spin_reachable_ok(1) [of tid s]]
  by (intro cnt_unique_le_1) auto

interpretation spin_lock: exclusive_lock "spin_prog tid" "spin_start tid" sp_guard sl_data
  for tid :: "nat \<Rightarrow> usize"
  by unfold_locales (fact spin_exclusive, fact spin_prog_data)

text \<open>
  C10: in every state a spin lock can get into, with any number of threads that call
  \<open>lock\<close>, drop or lose guards and panic in any interleaving, at most one guard is alive, and
  the lock word is 0 exactly when there is none.\<close>

theorem spin_mutual_exclusion:
  assumes "reachable (spin_prog tid) (spin_start tid) s"
  shows "cnt sp_guard (locs s) \<le> 1 \<and> (locking_thread (glob s) = 0 \<longleftrightarrow> cnt sp_guard (locs s) = 0)"
proof
  note tids = spin_reachable_ok(1) [OF assms]
  show "cnt sp_guard (locs s) \<le> 1" using assms by (rule spin_exclusive)
  show "locking_thread (glob s) = 0 \<longleftrightarrow> cnt sp_guard (locs s) = 0"
    using spin_reachable_ok(3) [OF assms] tid_ok_nonzero [OF tids]
    by (auto simp: cnt_0_iff spin_guard_iff [OF assms])
qed

text \<open>A concrete run: thread 0 of two takes the lock.\<close>

definition spin_held :: "(nat spinlock, spin_thread) sys" where
  "spin_held = \<lparr>glob = \<lparr>locking_thread = 1, sl_data = 4\<rparr>,
     locs = [\<lparr>sp_pc = Sp_idle, sp_guard = True\<rparr>, spin_idle]\<rparr>"

lemmas spin_eval = sys_step_def spin_prog_def spin_init_def spin_new_def spin_idle_def
  spin_drop_def spin_deref_mut_def tid_succ_def

lemma spin_start_succ: "n < 1000 \<Longrightarrow> reachable p (spin_start tid_succ) (spin_init n d)"
  by (rule reachable_init) (auto simp: spin_start_def tid_succ_ok)

lemma spin_held_reachable: "reachable (spin_prog tid_succ) (spin_start tid_succ) spin_held"
proof (rule run_reachable)
  show "reachable (spin_prog tid_succ) (spin_start tid_succ) (spin_init 2 (4::nat))"
    by (rule spin_start_succ) simp
  show "run (spin_prog tid_succ) (replicate 4 (0, quiet Spin_lock)) (spin_init 2 4) = Some spin_held"
    by (simp add: spin_eval spin_held_def numeral_eq_Suc)
qed

theorem spin_mutual_exclusion_witness:
  "cnt sp_guard (locs spin_held) \<le> 1 \<and> sp_guard (locs spin_held ! 0)"
  using spin_mutual_exclusion [OF spin_held_reachable] by (simp add: spin_held_def)

text \<open>The protected data is only ever changed by a thread that holds a guard while no other
  thread holds one.\<close>

theorem spin_data_guarded:
  assumes "reachable (spin_prog tid) (spin_start tid) s"
    and "sys_step (spin_prog tid) (t, e) s = Some s'"
    and "sl_data (glob s') \<noteq> sl_data (glob s)"
  shows "sp_guard (locs s ! t) \<and> cnt sp_guard (locs s) = 1"
  using assms by (rule spin_lock.payload_guarded)

theorem spin_data_guarded_witness:
  "sp_guard (locs spin_held ! 0) \<and> cnt sp_guard (locs spin_held) = 1"
proof -
  have "sys_step (spin_prog tid_succ) (0, quiet (Spin_write (\<lambda>x. 2 * x))) spin_held =
      Some (spin_held\<lparr>glob := \<lparr>locking_thread = 1, sl_data = 8\<rparr>\<rparr>)"
    by (simp add: spin_eval spin_held_def)
  from spin_data_guarded [OF spin_held_reachable this] show ?thesis
    by (simp add: spin_held_def)
qed

text \<open>
  A thread that holds the guard and calls \<open>lock\<close> again panics at the re-entrance check
  instead of deadlocking, and the unwinding drops its guard: after three steps of the thread
  the lock is free again and the thread is dead.\<close>

theorem spin_reentrance_panics:
  assumes "reachable (spin_prog tid) (spin_start tid) s" and "t < length (locs s)"
    and "locs s ! t = \<lparr>sp_pc = Sp_idle, sp_guard = True\<rparr>"
  shows "run (spin_prog tid) (replicate 3 (t, quiet Spin_lock)) s =
    Some \<lparr>glob = (glob s)\<lparr>locking_thread := 0\<rparr>,
          locs = (locs s)[t := \<lparr>sp_pc = Sp_dead, sp_guard = False\<rparr>]\<rparr>"
proof -
  from spin_guard_iff [OF assms(1,2)] assms(3) have "locking_thread (glob s) = tid t" by simp
  with assms(2,3) show ?thesis by (simp add: spin_eval numeral_eq_Suc)
qed

theorem spin_reentrance_panics_witness:
  "run (spin_prog tid_succ) (replicate 3 (0, quiet Spin_lock)) spin_held =
    Some \<lparr>glob = (glob spin_held)\<lparr>locking_thread := 0\<rparr>,
          locs = (locs spin_held)[0 := \<lparr>sp_pc = Sp_dead, sp_guard = False\<rparr>]\<rparr>"
  by (rule spin_reentrance_panics [OF spin_held_reachable]) (simp_all add: spin_held_def)

text \<open>
  The assumption on \<open>thread_id\<close> is needed.  If a thread had the identifier 0, it
  could take the lock without marking it, and a second thread would get a guard too.\<close>

theorem spin_zero_id_breaks_exclusion:
  "\<exists>as s. run (spin_prog (\<lambda>t. of_nat t)) as (spin_init 3 ()) = Some s \<and>
     cnt sp_guard (locs s) = 2"
proof -
  let ?lock = "\<lambda>t. (t, quiet (Spin_lock :: unit spin_op))"
  let ?as = "replicate 4 (?lock 1) @ replicate 2 (?lock 0) @ replicate 2 (1, quiet Spin_unlock) @
    replicate 2 (?lock 0) @ replicate 4 (?lock 2)"
  have "\<exists>s. run (spin_prog (\<lambda>t. of_nat t)) ?as (spin_init 3 ()) = Some s \<and>
      cnt sp_guard (locs s) = 2"
    by (simp add: spin_eval numeral_eq_Suc)
  then show ?thesis by blast
qed

section \<open>Threads that append under the lock\<close>

definition spin_api :: "('a spin_op, 'a, spin_thread) lock_api" where
  "spin_api = \<lparr>api_lock = Spin_lock, api_unlock = Spin_unlock, api_write = Spin_write,
     api_idle = (\<lambda>l. sp_pc l = Sp_idle), api_ok = sp_guard\<rparr>"

lemma spin_api_simps [simp]:
  "api_lock spin_api = Spin_lock" "api_unlock spin_api = Spin_unlock" "api_write spin_api = Spin_write"
  "api_idle spin_api l \<longleftrightarrow> sp_pc l = Sp_idle" "api_ok spin_api l \<longleftrightarrow> sp_guard l"
  by (simp_all add: spin_api_def)

definition spin_outside :: "spin_thread \<Rightarrow> bool" where
  "spin_outside l \<longleftrightarrow> sp_pc l = Sp_idle \<and> \<not> sp_guard l"

definition spin_entering :: "spin_thread \<Rightarrow> bool" where
  "spin_entering l \<longleftrightarrow> (\<exists>p. sp_pc l = Sp_lock p) \<and> \<not> sp_guard l"

definition spin_inside :: "spin_thread \<Rightarrow> bool" where
  "spin_inside l \<longleftrightarrow> sp_pc l = Sp_idle \<and> sp_guard l"

definition spin_leaving :: "spin_thread \<Rightarrow> bool" where
  "spin_leaving l \<longleftrightarrow> sp_pc l = Sp_unlock"

lemmas spin_stages = spin_outside_def spin_entering_def spin_inside_def spin_leaving_def

lemma spin_start_outside: "spin_start tid s \<Longrightarrow> True \<and> (\<forall>l \<in> set (locs s). spin_outside l)"
  by (auto simp: spin_start_def spin_init_def spin_idle_def spin_outside_def)

lemma spin_enter:
  assumes "reachable (spin_prog tid) (spin_start tid) s" and "t < length (locs s)" and True
    and stage: "spin_outside (locs s ! t) \<or> spin_entering (locs s ! t)"
    and step: "spin_prog tid (with_call Spin_lock e) t (glob s) (locs s ! t) = Some (g', l')"
  shows "True \<and> sl_data g' = sl_data (glob s) \<and>
    (if sp_pc l' = Sp_idle then sp_guard l' \<and> spin_inside l' else spin_entering l')"
proof (cases "sp_pc (locs s ! t)")
  case (Sp_lock p)
  with stage step spin_guard_iff [OF assms(1,2)] show ?thesis
    by (cases p) (auto simp: spin_prog_def spin_stages split: if_splits)
qed (use stage step in \<open>auto simp: spin_prog_def spin_stages\<close>)

lemma spin_store:
  "True \<Longrightarrow> spin_inside l \<Longrightarrow> spin_prog tid (with_call (Spin_write f) e) t g l = Some (g', l') \<Longrightarrow>
    True \<and> sl_data g' = f (sl_data g) \<and> spin_inside l'"
  by (auto simp: spin_prog_def spin_inside_def spin_deref_mut_def)

lemma spin_leave:
  "True \<Longrightarrow> spin_inside l \<or> spin_leaving l \<Longrightarrow>
    spin_prog tid (with_call Spin_unlock e) t g l = Some (g', l') \<Longrightarrow>
    True \<and> sl_data g' = sl_data g \<and> (if sp_pc l' = Sp_idle then spin_outside l' else spin_leaving l')"
  by (auto simp: spin_prog_def spin_stages spin_drop_def)

interpretation spin_work: worker_lock "spin_prog tid" "spin_start tid" sp_guard sl_data spin_api
    "\<lambda>_. True" spin_outside spin_entering spin_inside spin_leaving
  for tid :: "nat \<Rightarrow> usize"
  by (unfold_locales, unfold spin_api_simps)
    (fact spin_start_outside, fact spin_enter, fact spin_store, fact spin_leave, simp add: spin_inside_def)

text \<open>
  \<open>concurrent_access\<close>: two threads that lock, \<open>push_str("race")\<close> and unlock.  In the end the string has
  the text twice.
\<close>

definition spin_racers :: "(nat \<Rightarrow> usize) \<Rightarrow> (unit, string spinlock, (string, spin_thread) worker) program" where
  "spin_racers tid = worker_prog (spin_prog tid) spin_api sl_data (\<lambda>s. s @ ''race'')"

definition spin_racers_start :: "(nat \<Rightarrow> usize) \<Rightarrow> (string spinlock, (string, spin_thread) worker) sys \<Rightarrow> bool" where
  "spin_racers_start tid = worker_start (spin_start tid) sl_data [] 2 1"

theorem spin_concurrent_access:
  assumes "reachable (spin_racers tid) (spin_racers_start tid) s"
    and "\<forall>w \<in> set (locs s). wk_left w = 0"
  shows "sl_data (glob s) = ''racerace''"
  using spin_work.no_update_lost [where upd = "\<lambda>s. s @ ''race''" and tid = tid and d = "[]" and n = 2 and k = 1 and s = s] assms
  by (simp add: spin_racers_def spin_racers_start_def work_left_0 [symmetric] numeral_2_eq_2)

text \<open>While no thread has a guard, the lock is free, and any thread gets it when it runs alone.\<close>

definition spin_able :: "'a spinlock \<Rightarrow> nat \<Rightarrow> spin_thread \<Rightarrow> bool" where
  "spin_able g t l \<longleftrightarrow> locking_thread g = 0"

definition spin_rank :: "spin_thread \<Rightarrow> nat" where
  "spin_rank l = (case sp_pc l of Sp_lock Sp_cas \<Rightarrow> 1 | Sp_lock Sp_load \<Rightarrow> 2 | Sp_lock Sp_check \<Rightarrow> 3
     | Sp_unlock \<Rightarrow> 1 | _ \<Rightarrow> 4)"

lemma spin_enter_advances:
  assumes "reachable (spin_prog tid) (spin_start tid) s" and "t < length (locs s)"
    and stage: "spin_outside (locs s ! t) \<or> spin_entering (locs s ! t)" and able: "spin_able (glob s) t (locs s ! t)"
  shows "\<exists>g' l'. spin_prog tid (with_call Spin_lock (quiet ())) t (glob s) (locs s ! t) = Some (g', l') \<and>
    (sp_pc l' = Sp_idle \<or> spin_able g' t l' \<and> spin_rank l' < spin_rank (locs s ! t))"
proof (cases "sp_pc (locs s ! t)")
  case (Sp_lock p)
  have "tid t \<noteq> 0" using tid_ok_nonzero [OF spin_reachable_ok(1) [OF assms(1)] assms(2)] .
  with Sp_lock able show ?thesis by (cases p) (auto simp: spin_prog_def spin_able_def spin_rank_def)
qed (use stage able in \<open>auto simp: spin_prog_def spin_stages spin_able_def spin_rank_def\<close>)

lemma spin_leave_advances:
  "spin_inside l \<or> spin_leaving l \<Longrightarrow>
    \<exists>g' l'. spin_prog tid (with_call Spin_unlock (quiet ())) t g l = Some (g', l') \<and>
      (sp_pc l' = Sp_idle \<or> spin_rank l' < spin_rank l)"
  by (auto simp: spin_prog_def spin_stages spin_rank_def)

lemma spin_some_able:
  assumes reach: "reachable (spin_prog tid) (spin_start tid) s"
    and stages: "\<forall>l \<in> set (locs s). spin_outside l \<or> spin_entering l" and t: "t < length (locs s)"
  shows "\<exists>u < length (locs s). spin_able (glob s) u (locs s ! u) \<and> (u = t \<or> \<not> spin_outside (locs s ! u))"
proof -
  have "\<not> sp_guard (locs s ! u)" if "u < length (locs s)" for u
    using stages nth_mem [OF that] by (auto simp: spin_stages)
  with spin_reachable_ok(3) [OF reach] spin_guard_iff [OF reach] have "locking_thread (glob s) = 0" by blast
  with t show ?thesis by (auto simp: spin_able_def)
qed

interpretation spin_completing: completing_lock "spin_prog tid" "spin_start tid" sp_guard sl_data spin_api
    "\<lambda>_. True" spin_outside spin_entering spin_inside spin_leaving spin_able "\<lambda>_. spin_rank" spin_rank
  for tid :: "nat \<Rightarrow> usize"
proof (unfold_locales, unfold spin_api_simps)
  show "spin_inside l \<Longrightarrow> spin_prog tid (with_call (Spin_write f) (quiet ())) t g l \<noteq> None" for f t g l
    by (simp add: spin_prog_def spin_stages)
qed (fact spin_enter_advances, fact spin_leave_advances, fact spin_some_able)

text \<open>The threads of \<open>concurrent_access\<close> can always finish, with the text twice in the string.\<close>

theorem spin_racers_complete:
  assumes "reachable (spin_racers tid) (spin_racers_start tid) s"
  shows "\<exists>s'. can_reach (spin_racers tid) s s' \<and> sl_data (glob s') = ''racerace'' \<and>
    (\<forall>w \<in> set (locs s'). wk_left w = 0 \<and> spin_outside (wk_lock w))"
  using spin_completing.always_completes [OF assms [unfolded spin_racers_def spin_racers_start_def]]
  by (auto simp: spin_racers_def numeral_2_eq_2)

end
