(* ===== verification/Semaphore.thy ===== *)
theory Semaphore
  imports Progress
begin

text \<open>
  The counting semaphore of \<open>src/semaphore.rs\<close>: the count of permits with the threads blocked
  on it, and the number of threads inside \<open>wait\<close>.  Two history variables, not in the source,
  count the permits taken and the signals.
\<close>

section \<open>State\<close>

record semaphore =
  sem_count :: "u32 futex"
  num_waiting :: u32
  hist_taken :: nat
  hist_signals :: nat

definition sem_new :: "u32 \<Rightarrow> semaphore" where
  "sem_new initial_count =
     \<lparr>sem_count = futex_new initial_count, num_waiting = 0, hist_taken = 0, hist_signals = 0\<rparr>"

text \<open>The successful exchange of \<open>count\<close> for \<open>count - 1\<close>.\<close>

definition sem_take :: "u32 \<Rightarrow> semaphore \<Rightarrow> semaphore" where
  "sem_take count g = g\<lparr>sem_count := (sem_count g)\<lparr>val := count - 1\<rparr>,
     hist_taken := hist_taken g + 1\<rparr>"

section \<open>Operations\<close>

datatype sem_wait_pc = SW_enter | SW_load | SW_block u32 | SW_blocked | SW_cas u32 | SW_leave

fun sem_wait_step ::
  "futex_api \<Rightarrow> 'op env \<Rightarrow> nat \<Rightarrow> semaphore \<Rightarrow> sem_wait_pc \<Rightarrow>
     (semaphore \<times> (sem_wait_pc, unit) ctl) option" where
  "sem_wait_step F e t g SW_enter = Some (g\<lparr>num_waiting := num_waiting g + 1\<rparr>, Next SW_load)"
| "sem_wait_step F e t g SW_load =
     (let count = val (sem_count g) in
      Some (g, Next (if count = 0 then SW_block count else SW_cas count)))"
| "sem_wait_step F e t g (SW_block count) =
     (case futex_wait F e t count (sem_count g) of
        (True, f) \<Rightarrow> Some (g\<lparr>sem_count := f\<rparr>, Next SW_blocked)
      | (False, _) \<Rightarrow> Some (g, Next SW_load))"
| "sem_wait_step F e t g SW_blocked =
     (case futex_return F e t (sem_count g) of
        None \<Rightarrow> None
      | Some f \<Rightarrow> Some (g\<lparr>sem_count := f\<rparr>, Next SW_load))"
| "sem_wait_step F e t g (SW_cas count) =
     (if val (sem_count g) = count \<and> \<not> weak_fails e
      then Some (sem_take count g, Next SW_leave)
      else Some (g, Next SW_load))"
| "sem_wait_step F e t g SW_leave = Some (g\<lparr>num_waiting := num_waiting g - 1\<rparr>, Ret ())"

datatype sem_try_pc = ST_load | ST_cas u32

fun sem_try_wait_step ::
  "'op env \<Rightarrow> semaphore \<Rightarrow> sem_try_pc \<Rightarrow> semaphore \<times> (sem_try_pc, bool) ctl" where
  "sem_try_wait_step e g ST_load =
     (let count = val (sem_count g) in
      (g, if count = 0 then Ret False else Next (ST_cas count)))"
| "sem_try_wait_step e g (ST_cas count) =
     (if val (sem_count g) = count \<and> \<not> weak_fails e
      then (sem_take count g, Ret True)
      else (g, Ret False))"

text \<open>
  \<open>try_wait_duration\<close> reads the clock for its deadline and then before each attempt.
\<close>

datatype sem_dur_pc = SD_start nat | SD_check nat | SD_try nat sem_try_pc

fun sem_try_wait_duration_step ::
  "'op env \<Rightarrow> semaphore \<Rightarrow> sem_dur_pc \<Rightarrow> semaphore \<times> (sem_dur_pc, bool) ctl" where
  "sem_try_wait_duration_step e g (SD_start duration) = (g, Next (SD_check (clock e + duration)))"
| "sem_try_wait_duration_step e g (SD_check deadline) =
     (g, if clock e < deadline then Next (SD_try deadline ST_load) else Ret False)"
| "sem_try_wait_duration_step e g (SD_try deadline p) =
     (case sem_try_wait_step e g p of
        (g', Next p') \<Rightarrow> (g', Next (SD_try deadline p'))
      | (g', Ret True) \<Rightarrow> (g', Ret True)
      | (g', Ret False) \<Rightarrow> (g', Next (SD_check deadline))
      | (g', Panic) \<Rightarrow> (g', Panic))"

datatype sem_signal_pc = SS_add | SS_load | SS_wake

fun sem_signal_step ::
  "futex_api \<Rightarrow> 'op env \<Rightarrow> semaphore \<Rightarrow> sem_signal_pc \<Rightarrow> semaphore \<times> (sem_signal_pc, unit) ctl" where
  "sem_signal_step F e g SS_add =
     (g\<lparr>sem_count := (sem_count g)\<lparr>val := val (sem_count g) + 1\<rparr>,
        hist_signals := hist_signals g + 1\<rparr>, Next SS_load)"
| "sem_signal_step F e g SS_load = (g, if num_waiting g > 0 then Next SS_wake else Ret ())"
| "sem_signal_step F e g SS_wake = (g\<lparr>sem_count := futex_wake_one F e (sem_count g)\<rparr>, Ret ())"

section \<open>Client threads\<close>

datatype sem_op = Sem_op_wait | Sem_op_try | Sem_op_try_for nat | Sem_op_signal

datatype sem_pc =
    Sem_idle | Sem_wait sem_wait_pc | Sem_try sem_try_pc | Sem_dur sem_dur_pc
  | Sem_signal sem_signal_pc

text \<open>A thread remembers the result of its last \<open>try_wait\<close> or \<open>try_wait_duration\<close>.\<close>

record sem_thread =
  sem_pc :: sem_pc
  sem_last :: "bool option"

definition sem_idle :: sem_thread where
  "sem_idle = \<lparr>sem_pc = Sem_idle, sem_last = None\<rparr>"

fun sem_call :: "sem_op \<Rightarrow> sem_thread \<Rightarrow> sem_thread" where
  "sem_call Sem_op_wait l = l\<lparr>sem_pc := Sem_wait SW_enter\<rparr>"
| "sem_call Sem_op_try l = l\<lparr>sem_pc := Sem_try ST_load\<rparr>"
| "sem_call (Sem_op_try_for d) l = l\<lparr>sem_pc := Sem_dur (SD_start d)\<rparr>"
| "sem_call Sem_op_signal l = l\<lparr>sem_pc := Sem_signal SS_add\<rparr>"

definition sem_prog :: "futex_api \<Rightarrow> (sem_op, semaphore, sem_thread) program" where
  "sem_prog F e t g l =
     (case sem_pc l of
        Sem_idle \<Rightarrow> Some (g, sem_call (call e) l)
      | Sem_wait p \<Rightarrow>
          (case sem_wait_step F e t g p of
             None \<Rightarrow> None
           | Some (g', Next p') \<Rightarrow> Some (g', l\<lparr>sem_pc := Sem_wait p'\<rparr>)
           | Some (g', Ret _) \<Rightarrow> Some (g', l\<lparr>sem_pc := Sem_idle\<rparr>)
           | Some (g', Panic) \<Rightarrow> None)
      | Sem_try p \<Rightarrow>
          (case sem_try_wait_step e g p of
             (g', Next p') \<Rightarrow> Some (g', l\<lparr>sem_pc := Sem_try p'\<rparr>)
           | (g', Ret b) \<Rightarrow> Some (g', \<lparr>sem_pc = Sem_idle, sem_last = Some b\<rparr>)
           | (g', Panic) \<Rightarrow> None)
      | Sem_dur p \<Rightarrow>
          (case sem_try_wait_duration_step e g p of
             (g', Next p') \<Rightarrow> Some (g', l\<lparr>sem_pc := Sem_dur p'\<rparr>)
           | (g', Ret b) \<Rightarrow> Some (g', \<lparr>sem_pc = Sem_idle, sem_last = Some b\<rparr>)
           | (g', Panic) \<Rightarrow> None)
      | Sem_signal p \<Rightarrow>
          (case sem_signal_step F e g p of
             (g', Next p') \<Rightarrow> Some (g', l\<lparr>sem_pc := Sem_signal p'\<rparr>)
           | (g', Ret _) \<Rightarrow> Some (g', l\<lparr>sem_pc := Sem_idle\<rparr>)
           | (g', Panic) \<Rightarrow> None))"

text \<open>
  Fewer than \<open>2 ^ 32\<close> threads share the semaphore, and the futex implementation satisfies its
  documentation.
\<close>

definition sem_start :: "futex_api \<Rightarrow> u32 \<Rightarrow> (semaphore, sem_thread) sys \<Rightarrow> bool" where
  "sem_start F initial_count s \<longleftrightarrow> futex_ok F \<and> glob s = sem_new initial_count \<and>
     length (locs s) < 2 ^ 32 \<and> locs s = replicate (length (locs s)) sem_idle"

section \<open>Invariant\<close>

text \<open>Threads counted in \<open>num_waiting\<close>.\<close>

definition sem_counted :: "sem_thread \<Rightarrow> bool" where
  "sem_counted l \<longleftrightarrow> (\<exists>p. sem_pc l = Sem_wait p \<and> p \<noteq> SW_enter)"

text \<open>
  Threads that still have to look at the count, or to wake a thread that has: \<open>wait\<close> loops that are
  awake, and \<open>signal\<close> calls between their increment and their wake-up.  \<open>sem_engaged\<close> counts the
  blocked threads in as well.
\<close>

definition sem_engaged :: "sem_thread \<Rightarrow> bool" where
  "sem_engaged l \<longleftrightarrow>
     (case sem_pc l of
        Sem_wait p \<Rightarrow> p \<noteq> SW_enter \<and> p \<noteq> SW_leave
      | Sem_signal p \<Rightarrow> p \<noteq> SS_add
      | _ \<Rightarrow> False)"

definition sem_looking :: "semaphore \<Rightarrow> nat \<Rightarrow> sem_thread \<Rightarrow> bool" where
  "sem_looking g t l \<longleftrightarrow> sem_engaged l \<and> t \<notin> set (waiters (sem_count g))"

definition sem_ok :: "semaphore \<Rightarrow> nat \<Rightarrow> sem_thread \<Rightarrow> bool" where
  "sem_ok g t l \<longleftrightarrow>
     (t \<in> set (waiters (sem_count g)) \<longrightarrow> sem_pc l = Sem_wait SW_blocked) \<and>
     (case sem_pc l of
        Sem_wait (SW_cas c) \<Rightarrow> c \<noteq> 0
      | Sem_wait (SW_block c) \<Rightarrow> c = 0
      | Sem_try (ST_cas c) \<Rightarrow> c \<noteq> 0
      | Sem_dur (SD_try d (ST_cas c)) \<Rightarrow> c \<noteq> 0
      | _ \<Rightarrow> True)"

definition sem_inv :: "futex_api \<Rightarrow> u32 \<Rightarrow> (semaphore, sem_thread) sys \<Rightarrow> bool" where
  "sem_inv F initial_count s \<longleftrightarrow>
     (let g = glob s; ls = locs s; q = waiters (sem_count g); c = val (sem_count g) in
      futex_ok F \<and> length ls < 2 ^ 32 \<and> each (sem_ok g) ls \<and>
      distinct q \<and> set q \<subseteq> {..<length ls} \<and>
      num_waiting g = of_nat (cnt sem_counted ls) \<and>
      (unat initial_count + hist_signals g < 2 ^ 32 \<longrightarrow>
        unat c + hist_taken g = unat initial_count + hist_signals g) \<and>
      (q = [] \<or> unat c + length q \<le> cnt sem_engaged ls))"

text \<open>What one step of thread \<open>t\<close> does.\<close>

definition sem_effect :: "nat \<Rightarrow> semaphore \<Rightarrow> sem_thread \<Rightarrow> semaphore \<Rightarrow> sem_thread \<Rightarrow> bool" where
  "sem_effect t g l g' l' \<longleftrightarrow>
     sem_ok g' t l' \<and>
     num_waiting g' + of_bool (sem_counted l) = num_waiting g + of_bool (sem_counted l') \<and>
     (val (sem_count g') = val (sem_count g) \<and> hist_taken g' = hist_taken g \<and>
        hist_signals g' = hist_signals g \<or>
      val (sem_count g) \<noteq> 0 \<and> val (sem_count g') = val (sem_count g) - 1 \<and>
        hist_taken g' = Suc (hist_taken g) \<and> hist_signals g' = hist_signals g \<or>
      val (sem_count g') = val (sem_count g) + 1 \<and> hist_taken g' = hist_taken g \<and>
        hist_signals g' = Suc (hist_signals g)) \<and>
     (waiters (sem_count g') = waiters (sem_count g) \<or>
      t \<notin> set (waiters (sem_count g)) \<and> waiters (sem_count g') = waiters (sem_count g) @ [t] \<or>
      waiters (sem_count g') = removeAll t (waiters (sem_count g)) \<or>
      (\<exists>u \<in> set (waiters (sem_count g)).
        waiters (sem_count g') = remove1 u (waiters (sem_count g)))) \<and>
     (waiters (sem_count g') = [] \<or> val (sem_count g') = 0 \<or>
      num_waiting g = 0 \<and> waiters (sem_count g') = waiters (sem_count g) \<or>
      waiters (sem_count g) \<noteq> [] \<and>
      unat (val (sem_count g')) + length (waiters (sem_count g')) + of_bool (sem_engaged l) \<le>
        unat (val (sem_count g)) + length (waiters (sem_count g)) + of_bool (sem_engaged l'))"

lemmas sem_eval = sem_prog_def sem_take_def Let_def

lemmas sem_preds = sem_effect_def sem_ok_def sem_counted_def sem_engaged_def

lemma sem_effect_wait:
  assumes "sem_pc l = Sem_wait p" "sem_prog F e t g l = Some (g', l')" "sem_ok g t l" "futex_ok F"
    "distinct (waiters (sem_count g))"
  shows "sem_effect t g l g' l'"
proof (cases p)
  case (SW_block c)
  show ?thesis
  proof (cases "futex_wait F e t c (sem_count g)")
    case (Pair b f)
    show ?thesis
    proof (cases b)
      case True
      with Pair assms SW_block futex_wait_blocked [of F e t c "sem_count g" f]
      show ?thesis by (auto simp: sem_eval sem_preds)
    next
      case False
      with Pair assms SW_block show ?thesis by (auto simp: sem_eval sem_preds)
    qed
  qed
next
  case SW_blocked
  with assms show ?thesis
    by (auto simp: sem_eval sem_preds futex_return_def length_removeAll_less_eq split: if_splits)
next
  case (SW_cas c)
  with assms show ?thesis
    by (auto simp: sem_eval sem_preds unat_minus_1 unat_gt_0 split: if_splits)
qed (use assms in \<open>auto simp: sem_eval sem_preds split: if_splits\<close>)

lemma sem_effect_signal:
  assumes "sem_pc l = Sem_signal p" "sem_prog F e t g l = Some (g', l')" "sem_ok g t l" "futex_ok F"
    "distinct (waiters (sem_count g))"
  shows "sem_effect t g l g' l'"
proof (cases p)
  case SS_add
  with assms show ?thesis
    using unat_plus_1_le [of "val (sem_count g)"] by (auto simp: sem_eval sem_preds)
next
  case SS_load
  with assms show ?thesis
    by (auto simp: sem_eval sem_preds word_gt_0 split: if_splits)
next
  case SS_wake
  show ?thesis
  proof (cases "waiters (sem_count g) = []")
    case True
    with SS_wake assms show ?thesis
      by (auto simp: sem_eval sem_preds futex_ok_wake_one_empty)
  next
    case False
    from futex_ok_wake_one [OF assms(4) False, of e]
    obtain u where u: "u \<in> set (waiters (sem_count g))" and
      "futex_wake_one F e (sem_count g) = (sem_count g)\<lparr>waiters := remove1 u (waiters (sem_count g))\<rparr>"
      by blast
    moreover from u have "0 < length (waiters (sem_count g))" by auto
    ultimately show ?thesis using SS_wake assms
      by (auto simp: sem_eval sem_preds length_remove1 dest: notin_set_remove1)
  qed
qed

lemma sem_effect_try:
  assumes "sem_pc l = Sem_try p" "sem_prog F e t g l = Some (g', l')" "sem_ok g t l"
  shows "sem_effect t g l g' l'"
  using assms by (cases p) (auto simp: sem_eval sem_preds unat_minus_1 split: if_splits)

lemma sem_effect_dur:
  assumes "sem_pc l = Sem_dur p" "sem_prog F e t g l = Some (g', l')" "sem_ok g t l"
  shows "sem_effect t g l g' l'"
proof (cases p)
  case (SD_try d q)
  with assms show ?thesis
    by (cases q) (auto simp: sem_eval sem_preds unat_minus_1 split: if_splits)
qed (use assms in \<open>auto simp: sem_eval sem_preds split: if_splits\<close>)

lemma sem_prog_effect:
  assumes "sem_prog F e t g l = Some (g', l')" "sem_ok g t l" "futex_ok F"
    "distinct (waiters (sem_count g))"
  shows "sem_effect t g l g' l'"
proof (cases "sem_pc l")
  case Sem_idle
  with assms show ?thesis by (cases "call e") (auto simp: sem_eval sem_preds)
next
  case (Sem_wait p)
  then show ?thesis by (rule sem_effect_wait [OF _ assms])
next
  case (Sem_try p)
  then show ?thesis by (rule sem_effect_try [OF _ assms(1,2)])
next
  case (Sem_dur p)
  then show ?thesis by (rule sem_effect_dur [OF _ assms(1,2)])
next
  case (Sem_signal p)
  then show ?thesis by (rule sem_effect_signal [OF _ assms])
qed

lemma sem_effectD:
  assumes "sem_effect t g l g' l'"
  shows "sem_ok g' t l'"
    and "num_waiting g' + of_bool (sem_counted l) = num_waiting g + of_bool (sem_counted l')"
    and "waiters (sem_count g') = [] \<or> val (sem_count g') = 0 \<or>
      num_waiting g = 0 \<and> waiters (sem_count g') = waiters (sem_count g) \<or>
      waiters (sem_count g) \<noteq> [] \<and>
      unat (val (sem_count g')) + length (waiters (sem_count g')) + of_bool (sem_engaged l) \<le>
        unat (val (sem_count g)) + length (waiters (sem_count g)) + of_bool (sem_engaged l')"
  using assms by (simp_all add: sem_effect_def)

lemma sem_effect_queue:
  assumes "sem_effect t g l g' l'"
  obtains "waiters (sem_count g') = waiters (sem_count g)"
  | "t \<notin> set (waiters (sem_count g))" "waiters (sem_count g') = waiters (sem_count g) @ [t]"
  | "waiters (sem_count g') = removeAll t (waiters (sem_count g))"
  | u where "u \<in> set (waiters (sem_count g))"
    "waiters (sem_count g') = remove1 u (waiters (sem_count g))"
  using assms unfolding sem_effect_def by blast

lemma sem_effect_count:
  assumes "sem_effect t g l g' l'"
  obtains "val (sem_count g') = val (sem_count g)" "hist_taken g' = hist_taken g"
    "hist_signals g' = hist_signals g"
  | "val (sem_count g) \<noteq> 0" "val (sem_count g') = val (sem_count g) - 1"
    "hist_taken g' = Suc (hist_taken g)" "hist_signals g' = hist_signals g"
  | "val (sem_count g') = val (sem_count g) + 1" "hist_taken g' = hist_taken g"
    "hist_signals g' = Suc (hist_signals g)"
  using assms unfolding sem_effect_def by blast

lemma sem_effect_permits:
  assumes "sem_effect t g l g' l'"
    and "i + hist_signals g < 2 ^ 32 \<longrightarrow>
      unat (val (sem_count g)) + hist_taken g = i + hist_signals g"
  shows "i + hist_signals g' < 2 ^ 32 \<longrightarrow>
    unat (val (sem_count g')) + hist_taken g' = i + hist_signals g'"
  using assms(1)
proof (rule sem_effect_count)
  assume "val (sem_count g) \<noteq> 0" "val (sem_count g') = val (sem_count g) - 1"
    "hist_taken g' = Suc (hist_taken g)" "hist_signals g' = hist_signals g"
  moreover from this have "0 < unat (val (sem_count g))" by (simp add: unat_gt_0)
  ultimately show ?thesis using assms(2) by (auto simp: unat_minus_1)
next
  assume "val (sem_count g') = val (sem_count g) + 1" "hist_taken g' = hist_taken g"
    "hist_signals g' = Suc (hist_signals g)"
  with assms(2) show ?thesis by (auto simp: unat_plus_1_u32 [simplified])
qed (use assms(2) in simp)

lemma sem_effect_waiters_subset:
  "sem_effect t g l g' l' \<Longrightarrow>
    set (waiters (sem_count g')) \<subseteq> insert t (set (waiters (sem_count g)))"
  by (erule sem_effect_queue) (auto dest: notin_set_remove1)

lemma sem_effect_other:
  "sem_effect t g l g' l' \<Longrightarrow> u \<noteq> t \<Longrightarrow> sem_ok g u k \<Longrightarrow> sem_ok g' u k"
  using sem_effect_waiters_subset [of t g l g' l'] by (auto simp: sem_ok_def)

lemma sem_waiting_engaged:
  "each (sem_ok g) ls \<Longrightarrow> set (waiters (sem_count g)) \<subseteq> {..<length ls} \<Longrightarrow>
    u \<in> set (waiters (sem_count g)) \<Longrightarrow> u < length ls \<and> sem_engaged (ls ! u) \<and> sem_counted (ls ! u)"
  by (auto simp: each_def sem_ok_def sem_engaged_def sem_counted_def)

lemma sem_inv_step:
  assumes inv: "sem_inv F i \<lparr>glob = g, locs = ls\<rparr>" and t: "t < length ls"
    and step: "sem_prog F e t g (ls ! t) = Some (g', l')"
  shows "sem_inv F i \<lparr>glob = g', locs = ls[t := l']\<rparr>"
proof -
  from inv have F: "futex_ok F" and n: "length ls < 2 ^ 32" and ok: "each (sem_ok g) ls"
    and dist: "distinct (waiters (sem_count g))"
    and sub: "set (waiters (sem_count g)) \<subseteq> {..<length ls}"
    and num: "num_waiting g = of_nat (cnt sem_counted ls)"
    and permits: "unat i + hist_signals g < 2 ^ 32 \<longrightarrow>
        unat (val (sem_count g)) + hist_taken g = unat i + hist_signals g"
    and wake: "waiters (sem_count g) = [] \<or>
        unat (val (sem_count g)) + length (waiters (sem_count g)) \<le> cnt sem_engaged ls"
    by (simp_all add: sem_inv_def Let_def)
  have eff: "sem_effect t g (ls ! t) g' l'"
    by (rule sem_prog_effect [OF step eachD [OF ok t] F dist])
  have ok': "each (sem_ok g') (ls[t := l'])"
    using ok t sem_effectD(1) [OF eff] by (rule each_update) (rule sem_effect_other [OF eff])
  have dist': "distinct (waiters (sem_count g'))"
    using eff dist by (auto elim!: sem_effect_queue simp: distinct_removeAll)
  have sub': "set (waiters (sem_count g')) \<subseteq> {..<length (ls[t := l'])}"
    using sem_effect_waiters_subset [OF eff] sub t by auto
  have num': "num_waiting g' = of_nat (cnt sem_counted (ls[t := l']))"
    using cnt_update_word [OF t, of sem_counted l'] sem_effectD(2) [OF eff] num
    by (metis add_right_cancel)
  have wake': "waiters (sem_count g') = [] \<or>
      unat (val (sem_count g')) + length (waiters (sem_count g')) \<le> cnt sem_engaged (ls[t := l'])"
    using sem_effectD(3) [OF eff]
  proof (elim disjE conjE)
    assume "val (sem_count g') = 0"
    with length_le_cnt [OF dist', of "ls[t := l']" sem_engaged] sem_waiting_engaged [OF ok' sub']
    show ?thesis by auto
  next
    assume "num_waiting g = 0" and same: "waiters (sem_count g') = waiters (sem_count g)"
    with num of_nat_u32_0_iff [of "cnt sem_counted ls"] cnt_le_length [of sem_counted ls] n
    have "cnt sem_counted ls = 0" by simp
    moreover have "length (waiters (sem_count g)) \<le> cnt sem_counted ls"
      using sem_waiting_engaged [OF ok sub] by (intro length_le_cnt [OF dist]) auto
    ultimately show ?thesis using same by simp
  next
    assume "waiters (sem_count g) \<noteq> []" and
      "unat (val (sem_count g')) + length (waiters (sem_count g')) + of_bool (sem_engaged (ls ! t)) \<le>
        unat (val (sem_count g)) + length (waiters (sem_count g)) + of_bool (sem_engaged l')"
    with wake cnt_update [OF t, of sem_engaged l'] show ?thesis by (auto simp: of_bool_def)
  qed simp
  from F n ok' dist' sub' num' wake' sem_effect_permits [OF eff permits] show ?thesis
    by (simp add: sem_inv_def Let_def)
qed

lemma sem_inv_init: "sem_start F i s \<Longrightarrow> sem_inv F i s"
proof -
  assume start: "sem_start F i s"
  then have "locs s = replicate (length (locs s)) sem_idle" by (simp add: sem_start_def)
  then obtain n where n: "locs s = replicate n sem_idle" by blast
  with start show ?thesis
    by (simp add: sem_start_def sem_inv_def Let_def sem_new_def n each_replicate cnt_replicate
        sem_ok_def sem_idle_def sem_counted_def)
qed

interpretation sem: invariant_system "sem_prog F" "sem_start F i" "sem_inv F i"
  for F :: futex_api and i :: u32
  by unfold_locales (fact sem_inv_init, fact sem_inv_step)

lemma sem_reachable_inv:
  assumes "reachable (sem_prog F) (sem_start F i) s"
  shows "futex_ok F" and "length (locs s) < 2 ^ 32" and "each (sem_ok (glob s)) (locs s)"
    and "distinct (waiters (sem_count (glob s)))"
    and "set (waiters (sem_count (glob s))) \<subseteq> {..<length (locs s)}"
    and "num_waiting (glob s) = of_nat (cnt sem_counted (locs s))"
    and "unat i + hist_signals (glob s) < 2 ^ 32 \<Longrightarrow>
      unat (val (sem_count (glob s))) + hist_taken (glob s) = unat i + hist_signals (glob s)"
    and "waiters (sem_count (glob s)) \<noteq> [] \<Longrightarrow>
      unat (val (sem_count (glob s))) + length (waiters (sem_count (glob s))) \<le>
        cnt sem_engaged (locs s)"
  using sem.reachable_inv [OF assms] by (auto simp: sem_inv_def Let_def)

section \<open>Operations that never wait\<close>

fun sem_steps_left :: "sem_pc \<Rightarrow> nat" where
  "sem_steps_left (Sem_try p) = (case p of ST_load \<Rightarrow> 2 | ST_cas _ \<Rightarrow> 1)"
| "sem_steps_left (Sem_signal p) = (case p of SS_add \<Rightarrow> 3 | SS_load \<Rightarrow> 2 | SS_wake \<Rightarrow> 1)"
| "sem_steps_left _ = 0"

lemma sem_enabled: "0 < sem_steps_left (sem_pc l) \<Longrightarrow> sem_prog F e t g l \<noteq> None"
proof (cases "sem_pc l")
  case (Sem_try p)
  then show ?thesis by (cases p) (auto simp: sem_eval)
next
  case (Sem_signal p)
  then show ?thesis by (cases p) (auto simp: sem_eval)
qed simp_all

lemma sem_advances:
  assumes "0 < sem_steps_left (sem_pc l)" and "sem_prog F e t g l = Some (g', l')"
  shows "sem_pc l' = Sem_idle \<or>
    0 < sem_steps_left (sem_pc l') \<and> sem_steps_left (sem_pc l') < sem_steps_left (sem_pc l)"
proof (cases "sem_pc l")
  case (Sem_try p)
  with assms(2) show ?thesis by (cases p) (auto simp: sem_eval split: if_splits)
next
  case (Sem_signal p)
  with assms(2) show ?thesis by (cases p) (auto simp: sem_eval split: if_splits)
qed (use assms(1) in simp_all)

interpretation sem_free: wait_free "sem_prog F" "\<lambda>l. sem_steps_left (sem_pc l)"
    "\<lambda>l. sem_pc l = Sem_idle" "\<lambda>_. False"
  for F :: futex_api
  by unfold_locales (use sem_enabled sem_advances in blast)+

text \<open>\<open>try_wait\<close> and \<open>signal\<close> are wait-free: at most three steps.\<close>

lemma sem_try_wait_free:
  "t < length (locs s) \<Longrightarrow> sem_pc (locs s ! t) \<in> range Sem_try \<union> range Sem_signal \<Longrightarrow>
    returns_within (sem_prog F) (\<lambda>l. sem_pc l = Sem_idle) (\<lambda>_. False) 3 t s"
  by (intro sem_free.returns) (auto split: sem_try_pc.split sem_signal_pc.split)

section \<open>Properties\<close>

text \<open>
  C9: permits are conserved.  As long as the initial count and the signals stay below
  \<open>2 ^ 32\<close>, the count plus the permits taken is the initial count plus the signals; so never more
  permits are taken than were made available.\<close>

theorem sem_permit_conservation:
  assumes "reachable (sem_prog F) (sem_start F i) s"
    and "unat i + hist_signals (glob s) < 2 ^ 32"
  shows "unat (val (sem_count (glob s))) + hist_taken (glob s) = unat i + hist_signals (glob s)"
  using sem_reachable_inv(7) [OF assms] .

lemmas sem_run_eval = sys_step_def sem_prog_def sem_take_def Let_def sem_new_def sem_idle_def
  futex_new_def futex_wait_def futex_return_def futex_wake_one_def replicate_numeral

text \<open>Thread 0 is blocked on a semaphore without permits, thread 1 has signalled but not yet woken.\<close>

definition sem_signalled :: "(semaphore, sem_thread) sys" where
  "sem_signalled = \<lparr>glob = \<lparr>sem_count = \<lparr>val = 1, waiters = [0]\<rparr>, num_waiting = 1,
      hist_taken = 0, hist_signals = 1\<rparr>,
    locs = [\<lparr>sem_pc = Sem_wait SW_blocked, sem_last = None\<rparr>,
      \<lparr>sem_pc = Sem_signal SS_load, sem_last = None\<rparr>]\<rparr>"

lemma sem_start_duo:
  "reachable p (sem_start fifo_futex i) \<lparr>glob = sem_new i, locs = replicate 2 sem_idle\<rparr>"
  by (rule reachable_init) (simp add: sem_start_def)

lemma sem_signalled_reachable:
  "reachable (sem_prog fifo_futex) (sem_start fifo_futex 0) sem_signalled"
  by (rule run_reachable [OF sem_start_duo, where as = "replicate 4 (0, quiet Sem_op_wait) @
      replicate 2 (1, quiet Sem_op_signal)"])
    (simp add: sem_run_eval sem_signalled_def)

theorem sem_permit_conservation_witness:
  "unat (val (sem_count (glob sem_signalled))) + hist_taken (glob sem_signalled) =
    unat (0 :: u32) + hist_signals (glob sem_signalled)"
  by (rule sem_permit_conservation [OF sem_signalled_reachable]) (simp add: sem_signalled_def)

lemma sem_looking_moves: "sem_looking g t l \<Longrightarrow> sem_prog F e t g l \<noteq> None"
proof (cases "sem_pc l")
  case (Sem_wait p)
  moreover assume "sem_looking g t l"
  ultimately show ?thesis
    by (cases p) (auto simp: sem_looking_def sem_engaged_def sem_eval futex_return_def
        split: prod.splits bool.splits)
next
  case (Sem_signal p)
  then show ?thesis by (cases p) (auto simp: sem_eval)
qed (auto simp: sem_looking_def sem_engaged_def)

text \<open>
  C21: no signal is lost.  While a thread is blocked on the semaphore, there are at least as many
  threads that are awake inside \<open>wait\<close> or still owe a wake-up as there are permits, and each
  of them can move.\<close>

theorem sem_no_lost_wakeup:
  assumes "reachable (sem_prog F) (sem_start F i) s" and "waiters (sem_count (glob s)) \<noteq> []"
  shows "unat (val (sem_count (glob s))) \<le>
    card {t. t < length (locs s) \<and> sem_looking (glob s) t (locs s ! t) \<and>
      (\<forall>e. sem_prog F e t (glob s) (locs s ! t) \<noteq> None)}"
proof -
  note inv = sem_reachable_inv [OF assms(1)]
  have "card {t. t < length (locs s) \<and> sem_engaged (locs s ! t) \<and>
      t \<notin> set (waiters (sem_count (glob s)))} =
    cnt sem_engaged (locs s) - length (waiters (sem_count (glob s)))"
    using sem_waiting_engaged [OF inv(3,5)] by (intro card_not_queued [OF inv(4)]) auto
  moreover have "{t. t < length (locs s) \<and> sem_looking (glob s) t (locs s ! t) \<and>
      (\<forall>e. sem_prog F e t (glob s) (locs s ! t) \<noteq> None)} =
    {t. t < length (locs s) \<and> sem_engaged (locs s ! t) \<and> t \<notin> set (waiters (sem_count (glob s)))}"
    using sem_looking_moves by (auto simp: sem_looking_def)
  ultimately show ?thesis using inv(8) [OF assms(2)] by simp
qed

theorem sem_no_lost_wakeup_witness:
  "1 \<le> card {t. t < length (locs sem_signalled) \<and>
    sem_looking (glob sem_signalled) t (locs sem_signalled ! t) \<and>
    (\<forall>e. sem_prog fifo_futex e t (glob sem_signalled) (locs sem_signalled ! t) \<noteq> None)}"
proof -
  have "waiters (sem_count (glob sem_signalled)) \<noteq> []" by (simp add: sem_signalled_def)
  from sem_no_lost_wakeup [OF sem_signalled_reachable this] show ?thesis
    by (simp add: sem_signalled_def)
qed

text \<open>
  \<open>try_wait\<close> never blocks.  Undisturbed, it returns \<open>False\<close> and changes nothing when there is no permit;
  otherwise it takes one permit and returns \<open>True\<close>, except that a spurious failure of its single weak
  exchange makes it return \<open>False\<close> although a permit is available.\<close>

theorem sem_try_wait_result:
  assumes "t < length (locs s)" and "sem_pc (locs s ! t) = Sem_idle" and "call e = Sem_op_try"
  shows "if val (sem_count (glob s)) = 0
    then run (sem_prog F) [(t, e), (t, e)] s =
      Some (s\<lparr>locs := (locs s)[t := \<lparr>sem_pc = Sem_idle, sem_last = Some False\<rparr>]\<rparr>)
    else run (sem_prog F) [(t, e), (t, e), (t, e)] s =
      (if weak_fails e
       then Some (s\<lparr>locs := (locs s)[t := \<lparr>sem_pc = Sem_idle, sem_last = Some False\<rparr>]\<rparr>)
       else Some \<lparr>glob = sem_take (val (sem_count (glob s))) (glob s),
              locs = (locs s)[t := \<lparr>sem_pc = Sem_idle, sem_last = Some True\<rparr>]\<rparr>)"
  using assms by (cases s) (simp add: sys_step_def sem_prog_def Let_def)

theorem sem_try_wait_result_witness:
  "run (sem_prog fifo_futex) (replicate 3 (0, (quiet Sem_op_try)\<lparr>weak_fails := True\<rparr>))
      \<lparr>glob = sem_new 1, locs = replicate 2 sem_idle\<rparr> =
    Some \<lparr>glob = sem_new 1,
      locs = (replicate 2 sem_idle)[0 := \<lparr>sem_pc = Sem_idle, sem_last = Some False\<rparr>]\<rparr>"
  using sem_try_wait_result [of 0 "\<lparr>glob = sem_new 1, locs = replicate 2 sem_idle\<rparr>"
      "(quiet Sem_op_try)\<lparr>weak_fails := True\<rparr>" fifo_futex]
  by (simp add: sem_idle_def sem_new_def quiet_def replicate_numeral)

text \<open>
  \<open>wait\<close> returns without blocking when there is a permit: undisturbed it takes five steps, takes
  one permit and leaves the number of waiting threads as it was.\<close>

theorem sem_wait_with_permit:
  assumes "t < length (locs s)" and "sem_pc (locs s ! t) = Sem_idle"
    and "val (sem_count (glob s)) \<noteq> 0"
  shows "run (sem_prog F) (replicate 5 (t, quiet Sem_op_wait)) s =
    Some (s\<lparr>glob := sem_take (val (sem_count (glob s))) (glob s)\<rparr>)"
proof -
  have "(locs s ! t)\<lparr>sem_pc := Sem_idle\<rparr> = locs s ! t" using assms(2) by simp
  then have "(locs s)[t := (locs s ! t)\<lparr>sem_pc := Sem_idle\<rparr>] = locs s"
    by (metis list_update_id)
  with assms show ?thesis
    by (cases s) (simp add: sys_step_def sem_prog_def sem_take_def Let_def replicate_numeral)
qed

theorem sem_wait_with_permit_witness:
  "run (sem_prog fifo_futex) (replicate 5 (1, quiet Sem_op_wait))
      \<lparr>glob = sem_new 2, locs = replicate 2 sem_idle\<rparr> =
    Some \<lparr>glob = sem_take 2 (sem_new 2), locs = replicate 2 sem_idle\<rparr>"
  using sem_wait_with_permit [of 1 "\<lparr>glob = sem_new 2, locs = replicate 2 sem_idle\<rparr>" fifo_futex]
  by (simp add: sem_idle_def sem_new_def)

text \<open>How many steps an attempt of \<open>try_wait_duration\<close> has left, and its deadline.\<close>

fun sem_dur_left :: "sem_dur_pc \<Rightarrow> nat" where
  "sem_dur_left (SD_start _) = 4"
| "sem_dur_left (SD_try _ ST_load) = 3"
| "sem_dur_left (SD_try _ (ST_cas _)) = 2"
| "sem_dur_left (SD_check _) = 1"

fun sem_deadline :: "sem_dur_pc \<Rightarrow> nat option" where
  "sem_deadline (SD_start _) = None"
| "sem_deadline (SD_try d _) = Some d"
| "sem_deadline (SD_check d) = Some d"

text \<open>
  C39: \<open>try_wait_duration\<close> ends.  When the clock has reached the deadline, every step of the thread, whatever
  other threads do to the semaphore in between, returns a result or brings the thread closer to the
  end of its last attempt, so at most three more steps remain.\<close>

theorem sem_deadline_ends_wait:
  assumes "sem_pc l = Sem_dur p" and "sem_deadline p = Some d" and "d \<le> clock e"
  shows "\<exists>g' l'. sem_prog F e t g l = Some (g', l') \<and>
    (sem_pc l' = Sem_idle \<and> sem_last l' \<in> {Some True, Some False} \<or>
     (\<exists>p'. sem_pc l' = Sem_dur p' \<and> sem_deadline p' = Some d \<and> sem_dur_left p' < sem_dur_left p))"
proof (cases p)
  case (SD_try d' q)
  with assms show ?thesis by (cases q) (auto simp: sem_prog_def Let_def)
qed (use assms in \<open>auto simp: sem_prog_def\<close>)

theorem sem_deadline_ends_wait_witness:
  "\<exists>g' l'. sem_prog fifo_futex ((quiet Sem_op_wait)\<lparr>clock := 9\<rparr>) 0 (sem_new 1)
      \<lparr>sem_pc = Sem_dur (SD_try 5 ST_load), sem_last = None\<rparr> = Some (g', l') \<and>
    (sem_pc l' = Sem_idle \<and> sem_last l' \<in> {Some True, Some False} \<or>
     (\<exists>p'. sem_pc l' = Sem_dur p' \<and> sem_deadline p' = Some 5 \<and>
       sem_dur_left p' < sem_dur_left (SD_try 5 ST_load)))"
  by (rule sem_deadline_ends_wait) (simp_all add: quiet_def)

text \<open>
  \<open>signal\<close> does not check the count: on a semaphore with \<open>u32::MAX\<close> permits it wraps to 0 and
  all permits are lost, so that a following \<open>try_wait\<close> fails.\<close>

theorem sem_signal_overflow:
  "run (sem_prog F) (replicate 3 (0, quiet Sem_op_signal) @ replicate 2 (0, quiet Sem_op_try))
      \<lparr>glob = sem_new U32_MAX, locs = [sem_idle]\<rparr> =
    Some \<lparr>glob = (sem_new 0)\<lparr>hist_signals := 1\<rparr>, locs = [\<lparr>sem_pc = Sem_idle, sem_last = Some False\<rparr>]\<rparr>"
  by (simp add: sem_run_eval)

end
