(* ===== verification/SemaphoreUse.thy ===== *)
theory SemaphoreUse
  imports Semaphore Embedding
begin

text \<open>
  Threads that use the semaphore the way its tests do (\<open>test_multiple_threads\<close>, \<open>test_racy_multiple_threads_signal_lost\<close> and
  \<open>test_multiple_waiters_access\<close> of \<open>src/semaphore.rs\<close>): each waits, counts itself in and out of the
  protected section with a shared counter, and signals, a given number of times.
\<close>

section \<open>The client threads\<close>

text \<open>\<open>concurrent_access_count\<close> and \<open>max_concurrent_access\<close> of the test, beside the semaphore.\<close>

record room =
  rm_sem :: semaphore
  rm_current :: usize
  rm_max :: usize

datatype guest_pc = G_wait | G_enter | G_max usize | G_leave | G_signal

record guest =
  gu_pc :: guest_pc
  gu_left :: nat
  gu_sem :: sem_thread

definition room_prog :: "futex_api \<Rightarrow> (unit, room, guest) program" where
  "room_prog F e t g w =
     (case gu_pc w of
        G_wait \<Rightarrow>
          (if gu_left w = 0 then None
           else case sem_prog F (with_call Sem_op_wait e) t (rm_sem g) (gu_sem w) of
                  None \<Rightarrow> None
                | Some (x, l') \<Rightarrow> Some (g\<lparr>rm_sem := x\<rparr>, w\<lparr>gu_sem := l',
                    gu_pc := (if sem_pc l' = Sem_idle then G_enter else G_wait)\<rparr>))
      | G_enter \<Rightarrow> Some (g\<lparr>rm_current := rm_current g + 1\<rparr>, w\<lparr>gu_pc := G_max (rm_current g + 1)\<rparr>)
      | G_max current \<Rightarrow> Some (g\<lparr>rm_max := max (rm_max g) current\<rparr>, w\<lparr>gu_pc := G_leave\<rparr>)
      | G_leave \<Rightarrow> Some (g\<lparr>rm_current := rm_current g - 1\<rparr>, w\<lparr>gu_pc := G_signal\<rparr>)
      | G_signal \<Rightarrow>
          (case sem_prog F (with_call Sem_op_signal e) t (rm_sem g) (gu_sem w) of
             None \<Rightarrow> None
           | Some (x, l') \<Rightarrow> Some (g\<lparr>rm_sem := x\<rparr>,
               if sem_pc l' = Sem_idle
               then w\<lparr>gu_sem := l', gu_pc := G_wait, gu_left := gu_left w - 1\<rparr>
               else w\<lparr>gu_sem := l'\<rparr>)))"

text \<open>\<open>n\<close> threads with \<open>k\<close> visits each.\<close>

definition room_start :: "futex_api \<Rightarrow> u32 \<Rightarrow> nat \<Rightarrow> nat \<Rightarrow> (room, guest) sys \<Rightarrow> bool" where
  "room_start F i n k s \<longleftrightarrow> futex_ok F \<and> n < 2 ^ 32 \<and>
     s = \<lparr>glob = \<lparr>rm_sem = sem_new i, rm_current = 0, rm_max = 0\<rparr>,
       locs = replicate n \<lparr>gu_pc = G_wait, gu_left = k, gu_sem = sem_idle\<rparr>\<rparr>"

lemma room_simulates:
  "room_prog F e t g w = Some (g', w') \<Longrightarrow>
    rm_sem g' = rm_sem g \<and> gu_sem w' = gu_sem w \<or>
    (\<exists>e'. sem_prog F e' t (rm_sem g) (gu_sem w) = Some (rm_sem g', gu_sem w'))"
  by (auto simp: room_prog_def split: guest_pc.splits option.splits if_splits)

lemma room_start_view: "room_start F i n k s \<Longrightarrow> sem_start F i (sys_view rm_sem gu_sem s)"
  by (auto simp: room_start_def sem_start_def sys_view_def)

interpretation room_sem: embedding "room_prog F" "room_start F i n k" "sem_prog F" "sem_start F i" rm_sem gu_sem
  for F :: futex_api and i :: u32 and n k :: nat
  by unfold_locales (fact room_simulates, fact room_start_view)

section \<open>Invariant\<close>

text \<open>A guest holds a permit from the exchange in \<open>wait\<close> to the addition in \<open>signal\<close>.\<close>

definition gu_holds :: "guest \<Rightarrow> bool" where
  "gu_holds w \<longleftrightarrow>
     (case gu_pc w of
        G_wait \<Rightarrow> sem_pc (gu_sem w) = Sem_wait SW_leave
      | G_signal \<Rightarrow> sem_pc (gu_sem w) \<in> {Sem_idle, Sem_signal SS_add}
      | _ \<Rightarrow> True)"

definition gu_inside :: "guest \<Rightarrow> bool" where
  "gu_inside w \<longleftrightarrow> (case gu_pc w of G_max _ \<Rightarrow> True | G_leave \<Rightarrow> True | _ \<Rightarrow> False)"

definition gu_ok :: "u32 \<Rightarrow> guest \<Rightarrow> bool" where
  "gu_ok i w \<longleftrightarrow>
     (case gu_pc w of
        G_wait \<Rightarrow> sem_pc (gu_sem w) = Sem_idle \<or> 0 < gu_left w \<and> (\<exists>p. sem_pc (gu_sem w) = Sem_wait p)
      | G_signal \<Rightarrow> 0 < gu_left w \<and> (sem_pc (gu_sem w) = Sem_idle \<or> (\<exists>p. sem_pc (gu_sem w) = Sem_signal p))
      | G_max c \<Rightarrow> 0 < gu_left w \<and> sem_pc (gu_sem w) = Sem_idle \<and> unat c \<le> unat i
      | _ \<Rightarrow> 0 < gu_left w \<and> sem_pc (gu_sem w) = Sem_idle)"

lemmas gu_preds = gu_holds_def gu_inside_def gu_ok_def

lemma gu_inside_holds: "gu_inside w \<Longrightarrow> gu_holds w"
  by (auto simp: gu_preds split: guest_pc.splits)

definition room_inv :: "u32 \<Rightarrow> (room, guest) sys \<Rightarrow> bool" where
  "room_inv i s \<longleftrightarrow>
     (\<forall>w \<in> set (locs s). gu_ok i w) \<and>
     unat (val (sem_count (rm_sem (glob s)))) + cnt gu_holds (locs s) = unat i \<and>
     unat (rm_current (glob s)) = cnt gu_inside (locs s) \<and>
     unat (rm_max (glob s)) \<le> unat i"

text \<open>One step of a guest: what it does to its permit and to the counter.\<close>

definition room_effect :: "u32 \<Rightarrow> room \<Rightarrow> guest \<Rightarrow> room \<Rightarrow> guest \<Rightarrow> bool" where
  "room_effect i g w g' w' \<longleftrightarrow>
     (val (sem_count (rm_sem g')) = val (sem_count (rm_sem g)) \<and> gu_holds w' = gu_holds w \<or>
      val (sem_count (rm_sem g)) \<noteq> 0 \<and> \<not> gu_holds w \<and> gu_holds w' \<and>
        val (sem_count (rm_sem g')) = val (sem_count (rm_sem g)) - 1 \<or>
      gu_holds w \<and> \<not> gu_holds w' \<and> val (sem_count (rm_sem g')) = val (sem_count (rm_sem g)) + 1) \<and>
     (rm_current g' = rm_current g \<and> gu_inside w' = gu_inside w \<or>
      rm_current g' = rm_current g + 1 \<and> \<not> gu_inside w \<and> gu_inside w' \<and> gu_holds w \<or>
      rm_current g' = rm_current g - 1 \<and> gu_inside w \<and> \<not> gu_inside w') \<and>
     (unat (rm_current g + 1) \<le> unat i \<or> \<not> gu_holds w \<or> gu_inside w \<longrightarrow> gu_ok i w') \<and>
     (unat (rm_max g) \<le> unat i \<longrightarrow> unat (rm_max g') \<le> unat i)"

lemma room_prog_effect:
  assumes "room_prog F e t g w = Some (g', w')" and "gu_ok i w" and "sem_ok (rm_sem g) t (gu_sem w)"
  shows "room_effect i g w g' w'"
proof (cases "gu_pc w")
  case G_wait
  with assms(2) have pc: "sem_pc (gu_sem w) = Sem_idle \<or> (\<exists>p. sem_pc (gu_sem w) = Sem_wait p)"
    by (auto simp: gu_ok_def)
  from assms(1) G_wait obtain x l' where left: "0 < gu_left w"
    and sem: "sem_prog F (with_call Sem_op_wait e) t (rm_sem g) (gu_sem w) = Some (x, l')"
    and res: "g' = g\<lparr>rm_sem := x\<rparr>"
      "w' = w\<lparr>gu_sem := l', gu_pc := (if sem_pc l' = Sem_idle then G_enter else G_wait)\<rparr>"
    by (auto simp: room_prog_def split: option.splits if_splits)
  show ?thesis
  proof (cases "sem_pc (gu_sem w)")
    case (Sem_wait p)
    with G_wait left sem res assms(3) show ?thesis
      by (cases p) (auto simp: room_effect_def gu_preds sem_eval sem_ok_def dest!: futex_wait_val futex_return_val
        split: if_splits prod.splits bool.splits option.splits)
  qed (use pc G_wait left sem res in \<open>auto simp: room_effect_def gu_preds sem_eval\<close>)
next
  case G_signal
  with assms(2) have pc: "0 < gu_left w"
      "sem_pc (gu_sem w) = Sem_idle \<or> (\<exists>p. sem_pc (gu_sem w) = Sem_signal p)"
    by (auto simp: gu_ok_def)
  from assms(1) G_signal obtain x l' where
    sem: "sem_prog F (with_call Sem_op_signal e) t (rm_sem g) (gu_sem w) = Some (x, l')"
    and res: "g' = g\<lparr>rm_sem := x\<rparr>" "w' = (if sem_pc l' = Sem_idle
      then w\<lparr>gu_sem := l', gu_pc := G_wait, gu_left := gu_left w - 1\<rparr> else w\<lparr>gu_sem := l'\<rparr>)"
    by (auto simp: room_prog_def split: option.splits)
  show ?thesis
  proof (cases "sem_pc (gu_sem w)")
    case (Sem_signal p)
    with G_signal pc sem res show ?thesis
      by (cases p) (auto simp: room_effect_def gu_preds sem_eval split: if_splits)
  qed (use pc G_signal sem res in \<open>auto simp: room_effect_def gu_preds sem_eval\<close>)
next
  case (G_max c)
  with assms(1,2) show ?thesis
    by (auto simp: room_prog_def room_effect_def gu_preds max_def word_le_nat_alt)
qed (use assms(1,2) in \<open>auto simp: room_prog_def room_effect_def gu_preds\<close>)

lemma room_invariant:
  "reachable (room_prog F) (room_start F i n k) s \<Longrightarrow> room_inv i s"
proof (induction rule: reachable.induct)
  case (reachable_init s)
  then show ?case
    by (auto simp: room_start_def room_inv_def cnt_replicate gu_preds sem_new_def sem_idle_def)
next
  case (reachable_step s a s')
  let ?t = "fst a" let ?w = "locs s ! fst a" let ?g = "glob s"
  from reachable_step.hyps(2) obtain g' w' where t: "?t < length (locs s)"
    and step: "room_prog F (snd a) ?t ?g ?w = Some (g', w')"
    and s': "s' = \<lparr>glob = g', locs = (locs s)[?t := w']\<rparr>" by (rule sys_step_SomeE)
  from reachable_step.IH have ok: "\<forall>w \<in> set (locs s). gu_ok i w"
    and permits: "unat (val (sem_count (rm_sem ?g))) + cnt gu_holds (locs s) = unat i"
    and current: "unat (rm_current ?g) = cnt gu_inside (locs s)"
    and most: "unat (rm_max ?g) \<le> unat i" by (auto simp: room_inv_def)
  have "sem_ok (rm_sem ?g) ?t (gu_sem ?w)"
    using sem_reachable_inv(3) [OF room_sem.view_reachable [OF reachable_step.hyps(1)]] t
    by (simp add: each_def sys_view_def)
  then have eff: "room_effect i ?g ?w g' w'"
    using room_prog_effect [OF step] ok t by simp
  have i: "unat i < 2 ^ 32" using unsigned_less [of i] by simp
  have inside: "cnt gu_inside (locs s) + cnt (\<lambda>w. gu_holds w \<and> \<not> gu_inside w) (locs s) = cnt gu_holds (locs s)"
    by (rule cnt_minus) (rule gu_inside_holds)
  have room: "unat (rm_current ?g + 1) \<le> unat i \<and> unat (rm_current ?g + 1) = unat (rm_current ?g) + 1"
    if "gu_holds ?w" "\<not> gu_inside ?w"
  proof -
    have "0 < cnt (\<lambda>w. gu_holds w \<and> \<not> gu_inside w) (locs s)"
      using that t by (intro cnt_pos [of ?t]) auto
    with inside current permits have "unat (rm_current ?g) + 1 \<le> unat i" by linarith
    moreover from this i have "unat (rm_current ?g + 1) = unat (rm_current ?g) + 1"
      by (simp add: unat_word_ariths)
    ultimately show ?thesis by simp
  qed
  have "gu_ok i w'"
    using eff room by (cases "gu_holds ?w \<and> \<not> gu_inside ?w") (auto simp: room_effect_def)
  then have "\<forall>w \<in> set (locs s'). gu_ok i w"
    using ok set_update_subset_insert [of "locs s" ?t w'] by (auto simp: s')
  moreover have "unat (val (sem_count (rm_sem g'))) + cnt gu_holds ((locs s)[?t := w']) = unat i"
  proof -
    have "unat (val (sem_count (rm_sem ?g)) + 1) = unat (val (sem_count (rm_sem ?g))) + 1" if "gu_holds ?w"
    proof (rule unat_plus_1_u32)
      have "0 < cnt gu_holds (locs s)" using that t by (intro cnt_pos) auto
      with permits i show "unat (val (sem_count (rm_sem ?g))) + 1 < 2 ^ 32" by linarith
    qed
    moreover have "unat (val (sem_count (rm_sem ?g)) - 1) + 1 = unat (val (sem_count (rm_sem ?g)))"
      if "val (sem_count (rm_sem ?g)) \<noteq> 0"
      using unat_minus_1 [OF that] that unat_gt_0 [of "val (sem_count (rm_sem ?g))"] by linarith
    moreover from eff have "val (sem_count (rm_sem g')) = val (sem_count (rm_sem ?g)) \<and> gu_holds w' = gu_holds ?w \<or>
        val (sem_count (rm_sem ?g)) \<noteq> 0 \<and> \<not> gu_holds ?w \<and> gu_holds w' \<and>
          val (sem_count (rm_sem g')) = val (sem_count (rm_sem ?g)) - 1 \<or>
        gu_holds ?w \<and> \<not> gu_holds w' \<and> val (sem_count (rm_sem g')) = val (sem_count (rm_sem ?g)) + 1"
      by (simp add: room_effect_def)
    ultimately show ?thesis
      using permits cnt_update [OF t, of gu_holds w'] by (elim disjE) (simp_all split: if_splits)
  qed
  moreover have "unat (rm_current g') = cnt gu_inside ((locs s)[?t := w'])"
  proof -
    have "rm_current ?g \<noteq> 0" if "gu_inside ?w"
      using cnt_pos [of ?t "locs s" gu_inside] that t current by auto
    with eff room current cnt_update [OF t, of gu_inside w'] show ?thesis
      by (auto simp: room_effect_def unat_minus_1 split: if_splits)
  qed
  moreover have "unat (rm_max g') \<le> unat i" using eff most by (simp add: room_effect_def)
  ultimately show ?case by (simp add: room_inv_def s')
qed

text \<open>When all visits have been made, all permits are back and nobody is counted as waiting.\<close>

lemma room_final:
  assumes reach: "reachable (room_prog F) (room_start F i n k) s" and fin: "\<forall>w \<in> set (locs s). gu_left w = 0"
  shows "val (sem_count (rm_sem (glob s))) = i \<and> num_waiting (rm_sem (glob s)) = 0"
proof -
  have inv: "room_inv i s" using reach by (rule room_invariant)
  have idle: "gu_pc w = G_wait \<and> sem_pc (gu_sem w) = Sem_idle" if "w \<in> set (locs s)" for w
  proof -
    from inv fin that have "gu_ok i w" and "gu_left w = 0" by (simp_all add: room_inv_def)
    then show ?thesis by (cases "gu_pc w") (simp_all add: gu_ok_def)
  qed
  then have "cnt gu_holds (locs s) = 0" and "cnt (\<lambda>w. sem_counted (gu_sem w)) (locs s) = 0"
    by (auto simp: cnt_def filter_empty_conv gu_holds_def sem_counted_def)
  then show ?thesis
    using inv sem_reachable_inv(6) [OF room_sem.view_reachable [OF reach]]
    by (simp add: room_inv_def sys_view_def cnt_map word_unat_eq_iff)
qed

section \<open>Properties\<close>

text \<open>
  C17: The semaphore bounds concurrent access.  With any number of threads that go
  through \<open>wait\<close>, count themselves in and out and go through \<open>signal\<close> any number of times, the
  threads between \<open>wait\<close> and \<open>signal\<close> are never more than the initial count, nor is the
  maximum they have recorded; and when all are done, the count is the initial count again and \<open>num_waiting\<close> is
  0: these are the assertions of the tests of \<open>semaphore.rs\<close>.\<close>

theorem sem_access_bounded:
  assumes "reachable (room_prog F) (room_start F i n k) s"
  shows "unat (rm_current (glob s)) \<le> unat i \<and> unat (rm_max (glob s)) \<le> unat i \<and>
    ((\<forall>w \<in> set (locs s). gu_left w = 0) \<longrightarrow>
      val (sem_count (rm_sem (glob s))) = i \<and> num_waiting (rm_sem (glob s)) = 0)"
proof -
  from room_invariant [OF assms] have inv: "room_inv i s" .
  have "cnt gu_inside (locs s) \<le> cnt gu_holds (locs s)"
    by (rule cnt_mono) (rule gu_inside_holds)
  with inv have "unat (rm_current (glob s)) \<le> unat i" "unat (rm_max (glob s)) \<le> unat i"
    by (simp_all add: room_inv_def)
  moreover have "val (sem_count (rm_sem (glob s))) = i \<and> num_waiting (rm_sem (glob s)) = 0"
    if "\<forall>w \<in> set (locs s). gu_left w = 0" using room_final [OF assms that] .
  ultimately show ?thesis by blast
qed

text \<open>Two threads, one permit: thread 0 is inside, then both have been.\<close>

definition room_two :: "(room, guest) sys" where
  "room_two = \<lparr>glob = \<lparr>rm_sem = sem_new 1, rm_current = 0, rm_max = 0\<rparr>,
     locs = replicate 2 \<lparr>gu_pc = G_wait, gu_left = 1, gu_sem = sem_idle\<rparr>\<rparr>"

lemma room_two_reachable: "reachable (room_prog fifo_futex) (room_start fifo_futex 1 2 1) room_two"
  by (rule reachable_init) (simp add: room_start_def room_two_def)

theorem sem_access_bounded_witness:
  "\<exists>s. run (room_prog fifo_futex) (replicate 11 (0, quiet ()) @ replicate 11 (1, quiet ())) room_two = Some s \<and>
    val (sem_count (rm_sem (glob s))) = 1 \<and> rm_max (glob s) \<le> 1"
proof -
  obtain s where run: "run (room_prog fifo_futex) (replicate 11 (0, quiet ()) @ replicate 11 (1, quiet ())) room_two = Some s"
    and "\<forall>w \<in> set (locs s). gu_left w = 0"
    by (simp add: sem_run_eval room_prog_def with_call_def room_two_def)
  with sem_access_bounded [OF run_reachable [OF room_two_reachable run]] show ?thesis
    by (simp add: word_le_nat_alt)
qed

section \<open>Progress\<close>

text \<open>
  A guest is able to finish its visit alone when it has its permit, or when there is one and it is
  not blocked.  Its rank bounds the steps it takes until then.
\<close>

definition gu_able :: "room \<Rightarrow> nat \<Rightarrow> guest \<Rightarrow> bool" where
  "gu_able g t w \<longleftrightarrow> 0 < gu_left w \<and>
     (gu_pc w = G_wait \<longrightarrow> sem_pc (gu_sem w) = Sem_wait SW_leave \<or>
        t \<notin> set (waiters (sem_count (rm_sem g))) \<and> val (sem_count (rm_sem g)) \<noteq> 0)"

fun wait_rank :: "u32 \<Rightarrow> sem_wait_pc \<Rightarrow> nat" where
  "wait_rank count SW_enter = 13"
| "wait_rank count (SW_block c) = 12"
| "wait_rank count SW_blocked = 12"
| "wait_rank count (SW_cas c) = (if c = count then 10 else 12)"
| "wait_rank count SW_load = 11"
| "wait_rank count SW_leave = 9"

fun signal_rank :: "sem_signal_pc \<Rightarrow> nat" where
  "signal_rank SS_add = 4"
| "signal_rank SS_load = 3"
| "signal_rank SS_wake = 2"

definition gu_rank :: "room \<Rightarrow> guest \<Rightarrow> nat" where
  "gu_rank g w =
     (case gu_pc w of
        G_wait \<Rightarrow> (case sem_pc (gu_sem w) of Sem_wait p \<Rightarrow> wait_rank (val (sem_count (rm_sem g))) p | _ \<Rightarrow> 14)
      | G_enter \<Rightarrow> 8
      | G_max _ \<Rightarrow> 7
      | G_leave \<Rightarrow> 6
      | G_signal \<Rightarrow> (case sem_pc (gu_sem w) of Sem_signal p \<Rightarrow> signal_rank p | _ \<Rightarrow> 5))"

lemma guest_advances:
  assumes F: "futex_ok F" and ok: "gu_ok i w" "sem_ok (rm_sem g) t (gu_sem w)" and able: "gu_able g t w"
  shows "\<exists>g' w'. room_prog F (quiet ()) t g w = Some (g', w') \<and>
    (gu_left w' < gu_left w \<or> gu_left w' = gu_left w \<and> gu_able g' t w' \<and> gu_rank g' w' < gu_rank g w)"
proof (cases "gu_pc w")
  case G_wait
  with ok(1) have "sem_pc (gu_sem w) = Sem_idle \<or> (\<exists>p. sem_pc (gu_sem w) = Sem_wait p)"
    by (auto simp: gu_ok_def)
  then show ?thesis
  proof
    assume "\<exists>p. sem_pc (gu_sem w) = Sem_wait p"
    then obtain p where "sem_pc (gu_sem w) = Sem_wait p" ..
    with G_wait able F ok(2) show ?thesis
      by (cases p) (auto simp: room_prog_def sem_eval futex_return_def futex_wait_def gu_able_def gu_rank_def
          sem_ok_def futex_ok_def
        split: prod.splits bool.splits)
  qed (use G_wait able in \<open>simp add: room_prog_def sem_eval gu_able_def gu_rank_def\<close>)
next
  case G_signal
  with ok(1) have "sem_pc (gu_sem w) = Sem_idle \<or> (\<exists>p. sem_pc (gu_sem w) = Sem_signal p)"
    by (auto simp: gu_ok_def)
  then show ?thesis
  proof
    assume "\<exists>p. sem_pc (gu_sem w) = Sem_signal p"
    then obtain p where "sem_pc (gu_sem w) = Sem_signal p" ..
    with G_signal able show ?thesis
      by (cases p) (auto simp: room_prog_def sem_eval gu_able_def gu_rank_def)
  qed (use G_signal able in \<open>simp add: room_prog_def sem_eval gu_able_def gu_rank_def\<close>)
qed (use able ok(1) in \<open>auto simp: room_prog_def gu_able_def gu_rank_def gu_ok_def\<close>)

text \<open>Some guest is able to finish its visit: otherwise all permits are there, and a waiter would have been woken.\<close>

lemma room_some_able:
  assumes reach: "reachable (room_prog F) (room_start F i n k) s" and "0 < i"
    and w: "w \<in> set (locs s)" "0 < gu_left w"
  shows "\<exists>t < length (locs s). gu_able (glob s) t (locs s ! t)"
proof (rule ccontr)
  assume none: "\<not> ?thesis"
  let ?q = "waiters (sem_count (rm_sem (glob s)))" and ?ls = "map gu_sem (locs s)"
  have inv: "room_inv i s" using reach by (rule room_invariant)
  note sem = sem_reachable_inv [OF room_sem.view_reachable [OF reach], unfolded sys_view_def, simplified]
  have ok: "gu_ok i (locs s ! t)" "sem_ok (rm_sem (glob s)) t (gu_sem (locs s ! t))"
    if "t < length (locs s)" for t
    using inv sem(3) that by (simp_all add: room_inv_def each_def)
  have "\<not> gu_holds (locs s ! t)" if "t < length (locs s)" for t
    using none ok [OF that] that
    by (cases "gu_pc (locs s ! t)") (auto simp: gu_able_def gu_holds_def gu_ok_def)
  then have "cnt gu_holds (locs s) = 0" by (simp add: cnt_0_iff)
  then have permit: "0 < unat (val (sem_count (rm_sem (glob s))))"
    using inv assms(2) by (simp add: room_inv_def unat_gt_0 word_neq_0_conv)
  have calm: "gu_pc (locs s ! t) = G_wait \<and>
      (if t \<in> set ?q then sem_pc (gu_sem (locs s ! t)) = Sem_wait SW_blocked
       else gu_left (locs s ! t) = 0 \<and> sem_pc (gu_sem (locs s ! t)) = Sem_idle)"
    if t: "t < length (locs s)" for t
    using none permit ok [OF t] t
    by (cases "gu_pc (locs s ! t)") (auto simp: gu_able_def gu_ok_def sem_ok_def unat_gt_0)
  from w obtain t where "t < length (locs s)" "0 < gu_left (locs s ! t)" by (auto simp: in_set_conv_nth)
  with calm [of t] have "?q \<noteq> []" by force
  then have crowd: "unat (val (sem_count (rm_sem (glob s)))) + length ?q \<le> cnt sem_engaged ?ls" by (rule sem(8))
  have "{t. t < length ?ls \<and> sem_engaged (?ls ! t) \<and> t \<notin> set ?q} = {}"
    using calm by (fastforce simp: sem_engaged_def split: if_splits)
  moreover have "t < length ?ls \<and> sem_engaged (?ls ! t)" if "t \<in> set ?q" for t
    using sem_waiting_engaged [OF sem(3) _ that] sem(5) by auto
  ultimately have "cnt sem_engaged ?ls - length ?q = 0"
    using card_not_queued [OF sem(4), of ?ls sem_engaged] by (metis (no_types, lifting) card.empty)
  with crowd permit show False by simp
qed

lemma room_visit:
  assumes reach: "reachable (room_prog F) (room_start F i n k) s"
    and t: "t < length (locs s)" and able: "gu_able (glob s) t (locs s ! t)"
  shows "\<exists>s'. can_reach (room_prog F) s s' \<and> sum_list (map gu_left (locs s')) < sum_list (map gu_left (locs s))"
proof -
  define m where "m = gu_left (locs s ! t)"
  have "\<exists>g' w'. can_reach (room_prog F) s \<lparr>glob = g', locs = (locs s)[t := w']\<rparr> \<and> gu_left w' < m"
  proof (rule can_reach_alone [where way = "\<lambda>g w. gu_left w = m \<and> gu_able g t w" and dist = gu_rank, OF _ reach t])
    fix s
    assume s: "reachable (room_prog F) (room_start F i n k) s" "t < length (locs s)"
      and way: "gu_left (locs s ! t) = m \<and> gu_able (glob s) t (locs s ! t)"
    have "futex_ok F" using sem_reachable_inv(1) [OF room_sem.view_reachable [OF s(1)]] .
    moreover have "gu_ok i (locs s ! t)" using room_invariant [OF s(1)] s(2) by (simp add: room_inv_def)
    moreover have "sem_ok (rm_sem (glob s)) t (gu_sem (locs s ! t))"
      using sem_reachable_inv(3) [OF room_sem.view_reachable [OF s(1)]] s(2) by (simp add: each_def sys_view_def)
    ultimately show "\<exists>e g' w'. room_prog F e t (glob s) (locs s ! t) = Some (g', w') \<and>
        (gu_left w' < m \<or> (gu_left w' = m \<and> gu_able g' t w') \<and> gu_rank g' w' < gu_rank (glob s) (locs s ! t))"
      using guest_advances way by blast
  qed (simp add: m_def able)
  then obtain g' w' where "can_reach (room_prog F) s \<lparr>glob = g', locs = (locs s)[t := w']\<rparr>"
    and "gu_left w' < gu_left (locs s ! t)" by (auto simp: m_def)
  with t show ?thesis
    by (intro exI [of _ "\<lparr>glob = g', locs = (locs s)[t := w']\<rparr>"])
      (simp add: sum_list_map_update_less)
qed

text \<open>
  C14: The visits can always be completed.  If the semaphore has a permit to begin with, then
  from every state that threads can get into by taking permits, using them and giving them back, some schedule leads to the
  state where all visits have been made and all permits are back; in particular there is no deadlock.\<close>

theorem room_always_completes:
  assumes "reachable (room_prog F) (room_start F i n k) s" and "0 < i"
  shows "\<exists>s'. can_reach (room_prog F) s s' \<and> (\<forall>w \<in> set (locs s'). gu_left w = 0) \<and>
    val (sem_count (rm_sem (glob s'))) = i \<and> num_waiting (rm_sem (glob s')) = 0"
proof -
  obtain s' where s': "can_reach (room_prog F) s s'" "\<forall>w \<in> set (locs s'). gu_left w = 0"
  proof (rule exE [OF can_reach_closer [where way = "\<lambda>_. True" and dist = "\<lambda>s. sum_list (map gu_left (locs s))"
        and goal = "\<lambda>s. \<forall>w \<in> set (locs s). gu_left w = 0", OF _ assms(1)]])
    fix s
    assume s: "reachable (room_prog F) (room_start F i n k) s"
    show "\<exists>s'. can_reach (room_prog F) s s' \<and> ((\<forall>w \<in> set (locs s'). gu_left w = 0) \<or>
        True \<and> sum_list (map gu_left (locs s')) < sum_list (map gu_left (locs s)))"
    proof (cases "\<forall>w \<in> set (locs s). gu_left w = 0")
      case False
      with room_some_able [OF s assms(2)] room_visit [OF s] show ?thesis by blast
    qed blast
  qed (simp, blast)
  with room_final [OF can_reach_reachable [OF assms(1) s'(1)]] show ?thesis by blast
qed

text \<open>Two visits, one permit: thread 0 is inside, thread 1 is blocked.\<close>

theorem room_always_completes_witness:
  "\<exists>s s'. run (room_prog fifo_futex) (replicate 5 (0, quiet ()) @ replicate 4 (1, quiet ())) room_two = Some s \<and>
    waiters (sem_count (rm_sem (glob s))) = [1] \<and>
    can_reach (room_prog fifo_futex) s s' \<and> (\<forall>w \<in> set (locs s'). gu_left w = 0)"
proof -
  obtain s where run: "run (room_prog fifo_futex) (replicate 5 (0, quiet ()) @ replicate 4 (1, quiet ())) room_two = Some s"
    and "waiters (sem_count (rm_sem (glob s))) = [1]"
    by (simp add: sem_run_eval room_prog_def with_call_def room_two_def)
  with room_always_completes [OF run_reachable [OF room_two_reachable run]] show ?thesis by auto
qed

end
