(* ===== verification/RwLock.thy ===== *)
theory RwLock
  imports LockSpec Progress
begin

unbundle bit_operations_syntax

text \<open>
  The readers-writer lock of \<open>src/rwlock.rs\<close>.  The state word holds twice the number of
  readers, plus one while a writer waits for them, or \<open>u32::MAX\<close> while a writer holds the
  lock.  Writers wait on the counter \<open>writers_number\<close>, readers on the state word.  Each
  function of the source is a step function on its program points, with the local variable
  \<open>state\<close> as an argument of the points where it is live.
\<close>

section \<open>Errors\<close>

datatype 'g rw_poisoned_lock = RwPoisonedLock (rwp_guard: 'g)

datatype 'g rw_error = RwWouldBlock | RwTooManyReaders | RwPoisoned "'g rw_poisoned_lock"

type_synonym 'g rw_result = "'g rw_error + 'g"

fun rw_error_eq :: "'g rw_error \<Rightarrow> 'g rw_error \<Rightarrow> bool" where
  "rw_error_eq RwWouldBlock other = (case other of RwWouldBlock \<Rightarrow> True | _ \<Rightarrow> False)"
| "rw_error_eq RwTooManyReaders other = (case other of RwTooManyReaders \<Rightarrow> True | _ \<Rightarrow> False)"
| "rw_error_eq (RwPoisoned _) other = (case other of RwPoisoned _ \<Rightarrow> True | _ \<Rightarrow> False)"

fun rw_error_display :: "'g rw_error \<Rightarrow> string" where
  "rw_error_display RwWouldBlock = ''Error: Can cause blocking''"
| "rw_error_display RwTooManyReaders = ''Error: RwLock has too many readers''"
| "rw_error_display (RwPoisoned _) = ''Error: RwLock is poisoned''"

definition rw_poisoned_display :: "'g rw_poisoned_lock \<Rightarrow> string" where
  "rw_poisoned_display _ = ''Lock is poisoned!''"

fun rw_carries_guard :: "'g rw_result \<Rightarrow> bool" where
  "rw_carries_guard (Inr _) = True"
| "rw_carries_guard (Inl (RwPoisoned _)) = True"
| "rw_carries_guard (Inl _) = False"

text \<open>The end of the four locking functions: a poisoned lock hands the guard out in the error.\<close>

definition rw_poison_result :: "bool \<Rightarrow> unit rw_result" where
  "rw_poison_result poisoned = (if poisoned then Inl (RwPoisoned (RwPoisonedLock ())) else Inr ())"

lemma rw_carries_guard_poison_result [simp]: "rw_carries_guard (rw_poison_result b)"
  by (simp add: rw_poison_result_def)

section \<open>State\<close>

record 'a rwlock =
  rw_id :: u64
  rw_data :: 'a
  writers_number :: "u32 futex"
  waiting_writers :: u32
  rw_state :: "u32 futex"
  rw_poisoned :: bool

definition rw_new :: "u64 \<Rightarrow> 'a \<Rightarrow> u64 \<times> 'a rwlock" where
  "rw_new next_id d =
     (next_id + 1,
      \<lparr>rw_id = next_id, rw_data = d, writers_number = futex_new 0, waiting_writers = 0,
       rw_state = futex_new 0, rw_poisoned = False\<rparr>)"

definition rw_is_poisoned :: "'a rwlock \<Rightarrow> bool" where
  "rw_is_poisoned g = rw_poisoned g"

definition rw_clear_poison :: "'a rwlock \<Rightarrow> 'a rwlock" where
  "rw_clear_poison g = g\<lparr>rw_poisoned := False\<rparr>"

definition rw_into_inner :: "'a rwlock \<Rightarrow> 'a" where
  "rw_into_inner g = rw_data g"

definition rw_get_mut :: "('a \<Rightarrow> 'a) \<Rightarrow> 'a rwlock \<Rightarrow> 'a rwlock" where
  "rw_get_mut f g = g\<lparr>rw_data := f (rw_data g)\<rparr>"

text \<open>The thread-local set of acquired locks.\<close>

definition rw_acquired_check :: "'a rwlock \<Rightarrow> u64 set \<Rightarrow> 'g rw_error + unit" where
  "rw_acquired_check g acq = (if rw_id g \<in> acq then Inl RwWouldBlock else Inr ())"

definition rw_set_acquired :: "'a rwlock \<Rightarrow> u64 set \<Rightarrow> u64 set" where
  "rw_set_acquired g acq = insert (rw_id g) acq"

definition rw_remove_acquired :: "'a rwlock \<Rightarrow> u64 set \<Rightarrow> u64 set" where
  "rw_remove_acquired g acq = acq - {rw_id g}"

abbreviation rw_set_state :: "u32 \<Rightarrow> 'a rwlock \<Rightarrow> 'a rwlock" where
  "rw_set_state v g \<equiv> g\<lparr>rw_state := (rw_state g)\<lparr>val := v\<rparr>\<rparr>"

section \<open>Reading\<close>

text \<open>
  \<open>R_top\<close> is the head of the outer loop, \<open>R_inner\<close> of the inner one; \<open>R_wait_max\<close> is the
  \<open>else\<close> branch.  The addition \<open>state + 2\<close> panics on overflow when \<open>checks\<close> holds (a build with
  overflow checks) and wraps otherwise.
\<close>

datatype rw_read_pc =
    R_check | R_load | R_top u32 | R_inner u32 | R_wait u32 | R_blocked | R_reload | R_cas u32
  | R_wait_max | R_blocked_max | R_set | R_poison

fun rw_read_step ::
  "futex_api \<Rightarrow> bool \<Rightarrow> 'op env \<Rightarrow> nat \<Rightarrow> 'a rwlock \<Rightarrow> u64 set \<Rightarrow> rw_read_pc \<Rightarrow>
     ('a rwlock \<times> u64 set \<times> (rw_read_pc, unit rw_result) ctl) option" where
  "rw_read_step F checks e t g acq R_check =
     Some (g, acq, case rw_acquired_check g acq of Inl err \<Rightarrow> Ret (Inl err) | Inr _ \<Rightarrow> Next R_load)"
| "rw_read_step F checks e t g acq R_load = Some (g, acq, Next (R_top (val (rw_state g))))"
| "rw_read_step F checks e t g acq (R_top state) =
     Some (g, acq,
       if state \<noteq> U32_MAX
       then (if state = U32_MAX - 1 then Ret (Inl RwTooManyReaders) else Next (R_inner state))
       else Next R_wait_max)"
| "rw_read_step F checks e t g acq (R_inner state) =
     Some (g, acq, Next (if state AND 1 = 1 then R_wait state else R_cas state))"
| "rw_read_step F checks e t g acq (R_wait state) =
     (case futex_wait F e t state (rw_state g) of
        (True, f) \<Rightarrow> Some (g\<lparr>rw_state := f\<rparr>, acq, Next R_blocked)
      | (False, _) \<Rightarrow> Some (g, acq, Next R_reload))"
| "rw_read_step F checks e t g acq R_blocked =
     (case futex_return F e t (rw_state g) of
        None \<Rightarrow> None
      | Some f \<Rightarrow> Some (g\<lparr>rw_state := f\<rparr>, acq, Next R_reload))"
| "rw_read_step F checks e t g acq R_reload = Some (g, acq, Next (R_inner (val (rw_state g))))"
| "rw_read_step F checks e t g acq (R_cas state) =
     (if checks \<and> 2 ^ 32 \<le> unat state + 2 then Some (g, acq, Panic)
      else if val (rw_state g) = state \<and> \<not> weak_fails e
      then Some (rw_set_state (state + 2) g, acq, Next R_set)
      else Some (g, acq, Next (R_top (val (rw_state g)))))"
| "rw_read_step F checks e t g acq R_wait_max =
     (case futex_wait F e t U32_MAX (rw_state g) of
        (True, f) \<Rightarrow> Some (g\<lparr>rw_state := f\<rparr>, acq, Next R_blocked_max)
      | (False, _) \<Rightarrow> Some (g, acq, Next (R_top U32_MAX)))"
| "rw_read_step F checks e t g acq R_blocked_max =
     (case futex_return F e t (rw_state g) of
        None \<Rightarrow> None
      | Some f \<Rightarrow> Some (g\<lparr>rw_state := f\<rparr>, acq, Next (R_top U32_MAX)))"
| "rw_read_step F checks e t g acq R_set = Some (g, rw_set_acquired g acq, Next R_poison)"
| "rw_read_step F checks e t g acq R_poison =
     Some (g, acq, Ret (rw_poison_result (rw_is_poisoned g)))"

datatype rw_try_read_pc = TR_check | TR_load | TR_cas u32 | TR_set | TR_poison

fun rw_try_read_step ::
  "'a rwlock \<Rightarrow> u64 set \<Rightarrow> rw_try_read_pc \<Rightarrow>
     'a rwlock \<times> u64 set \<times> (rw_try_read_pc, unit rw_result) ctl" where
  "rw_try_read_step g acq TR_check =
     (g, acq, case rw_acquired_check g acq of Inl err \<Rightarrow> Ret (Inl err) | Inr _ \<Rightarrow> Next TR_load)"
| "rw_try_read_step g acq TR_load =
     (let state = val (rw_state g) in
      (g, acq,
       if state = U32_MAX - 1 then Ret (Inl RwTooManyReaders)
       else if state AND 1 = 1 then Ret (Inl RwWouldBlock)
       else Next (TR_cas state)))"
| "rw_try_read_step g acq (TR_cas state) =
     (if val (rw_state g) = state
      then (rw_set_state (state + 2) g, acq, Next TR_set)
      else (g, acq, Ret (Inl RwWouldBlock)))"
| "rw_try_read_step g acq TR_set = (g, rw_set_acquired g acq, Next TR_poison)"
| "rw_try_read_step g acq TR_poison = (g, acq, Ret (rw_poison_result (rw_is_poisoned g)))"

section \<open>Writing\<close>

text \<open>
  \<open>W_enter\<close> and \<open>W_exit\<close> are the construction and the drop of the \<open>WaitingWriterGuard\<close>; the
  loop goes on from \<open>W_exit\<close> with the same local \<open>state\<close>.
\<close>

definition waiting_guard_new :: "'a rwlock \<Rightarrow> 'a rwlock" where
  "waiting_guard_new g = g\<lparr>waiting_writers := waiting_writers g + 1\<rparr>"

definition waiting_guard_drop :: "'a rwlock \<Rightarrow> 'a rwlock" where
  "waiting_guard_drop g = g\<lparr>waiting_writers := waiting_writers g - 1\<rparr>"

datatype rw_write_pc =
    W_check | W_load | W_top u32 | W_cas u32 | W_mark u32 | W_enter u32 | W_load_wc u32
  | W_wait u32 u32 | W_blocked u32 | W_exit u32 | W_set | W_poison

fun rw_write_step ::
  "futex_api \<Rightarrow> 'op env \<Rightarrow> nat \<Rightarrow> 'a rwlock \<Rightarrow> u64 set \<Rightarrow> rw_write_pc \<Rightarrow>
     ('a rwlock \<times> u64 set \<times> (rw_write_pc, unit rw_result) ctl) option" where
  "rw_write_step F e t g acq W_check =
     Some (g, acq, case rw_acquired_check g acq of Inl err \<Rightarrow> Ret (Inl err) | Inr _ \<Rightarrow> Next W_load)"
| "rw_write_step F e t g acq W_load = Some (g, acq, Next (W_top (val (rw_state g))))"
| "rw_write_step F e t g acq (W_top state) =
     Some (g, acq, Next (if state \<le> 1 then W_cas state
       else if state AND 1 = 0 then W_mark state else W_enter state))"
| "rw_write_step F e t g acq (W_cas state) =
     (if val (rw_state g) = state
      then Some (rw_set_state U32_MAX g, acq, Next W_set)
      else Some (g, acq, Next (W_top (val (rw_state g)))))"
| "rw_write_step F e t g acq (W_mark state) =
     (if val (rw_state g) = state
      then Some (rw_set_state (state + 1) g, acq, Next (W_enter state))
      else Some (g, acq, Next (W_top (val (rw_state g)))))"
| "rw_write_step F e t g acq (W_enter state) = Some (waiting_guard_new g, acq, Next (W_load_wc state))"
| "rw_write_step F e t g acq (W_load_wc state) =
     Some (g, acq, Next (W_wait state (val (writers_number g))))"
| "rw_write_step F e t g acq (W_wait state wc) =
     (case futex_wait F e t wc (writers_number g) of
        (True, f) \<Rightarrow> Some (g\<lparr>writers_number := f\<rparr>, acq, Next (W_blocked state))
      | (False, _) \<Rightarrow> Some (g, acq, Next (W_exit state)))"
| "rw_write_step F e t g acq (W_blocked state) =
     (case futex_return F e t (writers_number g) of
        None \<Rightarrow> None
      | Some f \<Rightarrow> Some (g\<lparr>writers_number := f\<rparr>, acq, Next (W_exit state)))"
| "rw_write_step F e t g acq (W_exit state) = Some (waiting_guard_drop g, acq, Next (W_top state))"
| "rw_write_step F e t g acq W_set = Some (g, rw_set_acquired g acq, Next W_poison)"
| "rw_write_step F e t g acq W_poison =
     Some (g, acq, Ret (rw_poison_result (rw_is_poisoned g)))"

datatype rw_try_write_pc = TW_check | TW_load | TW_cas u32 | TW_set | TW_poison

fun rw_try_write_step ::
  "'a rwlock \<Rightarrow> u64 set \<Rightarrow> rw_try_write_pc \<Rightarrow>
     'a rwlock \<times> u64 set \<times> (rw_try_write_pc, unit rw_result) ctl" where
  "rw_try_write_step g acq TW_check =
     (g, acq, case rw_acquired_check g acq of Inl err \<Rightarrow> Ret (Inl err) | Inr _ \<Rightarrow> Next TW_load)"
| "rw_try_write_step g acq TW_load =
     (let state = val (rw_state g) in
      (g, acq, if state \<le> 1 then Next (TW_cas state) else Ret (Inl RwWouldBlock)))"
| "rw_try_write_step g acq (TW_cas state) =
     (if val (rw_state g) = state
      then (rw_set_state U32_MAX g, acq, Next TW_set)
      else (g, acq, Ret (Inl RwWouldBlock)))"
| "rw_try_write_step g acq TW_set = (g, rw_set_acquired g acq, Next TW_poison)"
| "rw_try_write_step g acq TW_poison = (g, acq, Ret (rw_poison_result (rw_is_poisoned g)))"

section \<open>Dropping guards\<close>

datatype rw_wdrop_pc = WD_poison | WD_remove | WD_bump | WD_store | WD_load | WD_wake_one | WD_wake_all

fun rw_write_drop_step ::
  "futex_api \<Rightarrow> 'op env \<Rightarrow> bool \<Rightarrow> 'a rwlock \<Rightarrow> u64 set \<Rightarrow> rw_wdrop_pc \<Rightarrow>
     'a rwlock \<times> u64 set \<times> (rw_wdrop_pc, unit) ctl" where
  "rw_write_drop_step F e panicking g acq WD_poison =
     (if panicking then g\<lparr>rw_poisoned := True\<rparr> else g, acq, Next WD_remove)"
| "rw_write_drop_step F e panicking g acq WD_remove = (g, rw_remove_acquired g acq, Next WD_bump)"
| "rw_write_drop_step F e panicking g acq WD_bump =
     (g\<lparr>writers_number := (writers_number g)\<lparr>val := val (writers_number g) + 1\<rparr>\<rparr>, acq, Next WD_store)"
| "rw_write_drop_step F e panicking g acq WD_store = (rw_set_state 0 g, acq, Next WD_load)"
| "rw_write_drop_step F e panicking g acq WD_load =
     (g, acq, Next (if waiting_writers g \<noteq> 0 then WD_wake_one else WD_wake_all))"
| "rw_write_drop_step F e panicking g acq WD_wake_one =
     (g\<lparr>writers_number := futex_wake_one F e (writers_number g)\<rparr>, acq, Ret ())"
| "rw_write_drop_step F e panicking g acq WD_wake_all =
     (g\<lparr>rw_state := futex_wake_all F e (rw_state g)\<rparr>, acq, Ret ())"

datatype rw_rdrop_pc = RD_remove | RD_sub | RD_wake

fun rw_read_drop_step ::
  "futex_api \<Rightarrow> 'op env \<Rightarrow> 'a rwlock \<Rightarrow> u64 set \<Rightarrow> rw_rdrop_pc \<Rightarrow>
     'a rwlock \<times> u64 set \<times> (rw_rdrop_pc, unit) ctl" where
  "rw_read_drop_step F e g acq RD_remove = (g, rw_remove_acquired g acq, Next RD_sub)"
| "rw_read_drop_step F e g acq RD_sub =
     (rw_set_state (val (rw_state g) - 2) g, acq,
      if val (rw_state g) = 3 then Next RD_wake else Ret ())"
| "rw_read_drop_step F e g acq RD_wake =
     (g\<lparr>writers_number := futex_wake_one F e (writers_number g)\<rparr>, acq, Ret ())"

text \<open>\<open>DerefMut\<close> of the write guard.\<close>

definition rw_deref_mut :: "('a \<Rightarrow> 'a) \<Rightarrow> 'a rwlock \<Rightarrow> 'a rwlock" where
  "rw_deref_mut f g = g\<lparr>rw_data := f (rw_data g)\<rparr>"

section \<open>Client threads\<close>

datatype 'a rw_op =
    Rw_op_read | Rw_op_write | Rw_op_try_read | Rw_op_try_write | Rw_op_unlock
  | Rw_op_modify "'a \<Rightarrow> 'a" | Rw_op_clear_poison | Rw_op_panic

datatype rw_pc =
    Rw_idle | Rw_read rw_read_pc | Rw_try_read rw_try_read_pc | Rw_write rw_write_pc
  | Rw_try_write rw_try_write_pc | Rw_write_drop rw_wdrop_pc | Rw_read_drop rw_rdrop_pc | Rw_dead

datatype rw_guard = NoGuard | ReadGuard | WriteGuard

record rw_thread =
  rw_pc :: rw_pc
  rw_guard :: rw_guard
  rw_acquired :: "u64 set"
  rw_panicking :: bool
  rw_last :: "unit rw_result option"

definition rw_fresh :: "u64 set \<Rightarrow> rw_thread" where
  "rw_fresh acq = \<lparr>rw_pc = Rw_idle, rw_guard = NoGuard, rw_acquired = acq,
     rw_panicking = False, rw_last = None\<rparr>"

text \<open>The drop of whichever guard a thread has.\<close>

fun rw_drop_pc :: "rw_guard \<Rightarrow> rw_pc" where
  "rw_drop_pc NoGuard = Rw_dead"
| "rw_drop_pc ReadGuard = Rw_read_drop RD_remove"
| "rw_drop_pc WriteGuard = Rw_write_drop WD_poison"

fun rw_call :: "'a rw_op \<Rightarrow> 'a rwlock \<Rightarrow> rw_thread \<Rightarrow> ('a rwlock \<times> rw_thread) option" where
  "rw_call Rw_op_read g l = Some (g, l\<lparr>rw_pc := Rw_read R_check\<rparr>)"
| "rw_call Rw_op_write g l = Some (g, l\<lparr>rw_pc := Rw_write W_check\<rparr>)"
| "rw_call Rw_op_try_read g l = Some (g, l\<lparr>rw_pc := Rw_try_read TR_check\<rparr>)"
| "rw_call Rw_op_try_write g l = Some (g, l\<lparr>rw_pc := Rw_try_write TW_check\<rparr>)"
| "rw_call Rw_op_unlock g l =
     (if rw_guard l = NoGuard then None else Some (g, l\<lparr>rw_pc := rw_drop_pc (rw_guard l)\<rparr>))"
| "rw_call (Rw_op_modify f) g l =
     (if rw_guard l = WriteGuard then Some (rw_deref_mut f g, l) else None)"
| "rw_call Rw_op_clear_poison g l = Some (rw_clear_poison g, l)"
| "rw_call Rw_op_panic g l = Some (g, l\<lparr>rw_panicking := True, rw_pc := rw_drop_pc (rw_guard l)\<rparr>)"

definition rw_return :: "rw_guard \<Rightarrow> unit rw_result \<Rightarrow> u64 set \<Rightarrow> rw_thread \<Rightarrow> rw_thread" where
  "rw_return kind r acq l =
     l\<lparr>rw_pc := Rw_idle, rw_acquired := acq, rw_last := Some r,
       rw_guard := (if rw_carries_guard r then kind else rw_guard l)\<rparr>"

text \<open>A guard is given up with the access that changes the state word.\<close>

definition rw_prog :: "futex_api \<Rightarrow> bool \<Rightarrow> ('a rw_op, 'a rwlock, rw_thread) program" where
  "rw_prog F checks e t g l =
     (case rw_pc l of
        Rw_idle \<Rightarrow> rw_call (call e) g l
      | Rw_read p \<Rightarrow>
          (case rw_read_step F checks e t g (rw_acquired l) p of
             None \<Rightarrow> None
           | Some (g', acq, Next p') \<Rightarrow> Some (g', l\<lparr>rw_pc := Rw_read p', rw_acquired := acq\<rparr>)
           | Some (g', acq, Ret r) \<Rightarrow> Some (g', rw_return ReadGuard r acq l)
           | Some (g', acq, Panic) \<Rightarrow> Some (g', l\<lparr>rw_panicking := True, rw_pc := rw_drop_pc (rw_guard l)\<rparr>))
      | Rw_try_read p \<Rightarrow>
          (case rw_try_read_step g (rw_acquired l) p of
             (g', acq, Next p') \<Rightarrow> Some (g', l\<lparr>rw_pc := Rw_try_read p', rw_acquired := acq\<rparr>)
           | (g', acq, Ret r) \<Rightarrow> Some (g', rw_return ReadGuard r acq l)
           | (g', acq, Panic) \<Rightarrow> None)
      | Rw_write p \<Rightarrow>
          (case rw_write_step F e t g (rw_acquired l) p of
             None \<Rightarrow> None
           | Some (g', acq, Next p') \<Rightarrow> Some (g', l\<lparr>rw_pc := Rw_write p', rw_acquired := acq\<rparr>)
           | Some (g', acq, Ret r) \<Rightarrow> Some (g', rw_return WriteGuard r acq l)
           | Some (g', acq, Panic) \<Rightarrow> None)
      | Rw_try_write p \<Rightarrow>
          (case rw_try_write_step g (rw_acquired l) p of
             (g', acq, Next p') \<Rightarrow> Some (g', l\<lparr>rw_pc := Rw_try_write p', rw_acquired := acq\<rparr>)
           | (g', acq, Ret r) \<Rightarrow> Some (g', rw_return WriteGuard r acq l)
           | (g', acq, Panic) \<Rightarrow> None)
      | Rw_write_drop p \<Rightarrow>
          (let guard = (if p = WD_store then NoGuard else rw_guard l) in
           case rw_write_drop_step F e (rw_panicking l) g (rw_acquired l) p of
             (g', acq, Next p') \<Rightarrow>
               Some (g', l\<lparr>rw_pc := Rw_write_drop p', rw_acquired := acq, rw_guard := guard\<rparr>)
           | (g', acq, Ret _) \<Rightarrow>
               Some (g', l\<lparr>rw_pc := (if rw_panicking l then Rw_dead else Rw_idle),
                 rw_acquired := acq, rw_guard := guard\<rparr>)
           | (g', acq, Panic) \<Rightarrow> None)
      | Rw_read_drop p \<Rightarrow>
          (let guard = (if p = RD_sub then NoGuard else rw_guard l) in
           case rw_read_drop_step F e g (rw_acquired l) p of
             (g', acq, Next p') \<Rightarrow>
               Some (g', l\<lparr>rw_pc := Rw_read_drop p', rw_acquired := acq, rw_guard := guard\<rparr>)
           | (g', acq, Ret _) \<Rightarrow>
               Some (g', l\<lparr>rw_pc := (if rw_panicking l then Rw_dead else Rw_idle),
                 rw_acquired := acq, rw_guard := guard\<rparr>)
           | (g', acq, Panic) \<Rightarrow> None)
      | Rw_dead \<Rightarrow> None)"

text \<open>Fewer than \<open>2 ^ 31 - 1\<close> threads, each of which may hold other locks.\<close>

definition rw_start :: "('a rwlock, rw_thread) sys \<Rightarrow> bool" where
  "rw_start s \<longleftrightarrow>
     (\<exists>next_id d. glob s = snd (rw_new next_id d)) \<and> length (locs s) < 2 ^ 31 - 1 \<and>
     each (\<lambda>t l. \<exists>acq. l = rw_fresh acq \<and> rw_id (glob s) \<notin> acq) (locs s)"

section \<open>Invariant\<close>

text \<open>
  Threads that hold the lock for reading or for writing, from the exchange that acquires it
  to the access of the drop that releases it, and threads counted in \<open>waiting_writers\<close>.
\<close>

definition rw_reads :: "rw_thread \<Rightarrow> bool" where
  "rw_reads l \<longleftrightarrow> rw_guard l = ReadGuard \<or>
     rw_pc l \<in> {Rw_read R_set, Rw_read R_poison, Rw_try_read TR_set, Rw_try_read TR_poison}"

definition rw_writes :: "rw_thread \<Rightarrow> bool" where
  "rw_writes l \<longleftrightarrow> rw_guard l = WriteGuard \<or>
     rw_pc l \<in> {Rw_write W_set, Rw_write W_poison, Rw_try_write TW_set, Rw_try_write TW_poison}"

definition rw_waits :: "rw_thread \<Rightarrow> bool" where
  "rw_waits l \<longleftrightarrow> (case rw_pc l of
     Rw_write (W_load_wc _) \<Rightarrow> True | Rw_write (W_wait _ _) \<Rightarrow> True
   | Rw_write (W_blocked _) \<Rightarrow> True | Rw_write (W_exit _) \<Rightarrow> True | _ \<Rightarrow> False)"

text \<open>What a program point says about its local \<open>state\<close>, and about the guard of the thread.\<close>

fun rw_local_ok :: "rw_pc \<Rightarrow> bool" where
  "rw_local_ok (Rw_read (R_cas state)) \<longleftrightarrow> even (unat state)"
| "rw_local_ok (Rw_try_read (TR_cas state)) \<longleftrightarrow> even (unat state)"
| "rw_local_ok (Rw_write (W_cas state)) \<longleftrightarrow> unat state \<le> 1"
| "rw_local_ok (Rw_write (W_mark state)) \<longleftrightarrow> even (unat state)"
| "rw_local_ok (Rw_try_write (TW_cas state)) \<longleftrightarrow> unat state \<le> 1"
| "rw_local_ok _ \<longleftrightarrow> True"

fun rw_pc_guard_ok :: "rw_pc \<Rightarrow> rw_guard \<Rightarrow> bool" where
  "rw_pc_guard_ok Rw_idle k \<longleftrightarrow> True"
| "rw_pc_guard_ok (Rw_read p) k \<longleftrightarrow> k = NoGuard \<or> p = R_check"
| "rw_pc_guard_ok (Rw_try_read p) k \<longleftrightarrow> k = NoGuard \<or> p = TR_check"
| "rw_pc_guard_ok (Rw_write p) k \<longleftrightarrow> k = NoGuard \<or> p = W_check"
| "rw_pc_guard_ok (Rw_try_write p) k \<longleftrightarrow> k = NoGuard \<or> p = TW_check"
| "rw_pc_guard_ok (Rw_write_drop p) k \<longleftrightarrow>
     k = (if p \<in> {WD_poison, WD_remove, WD_bump, WD_store} then WriteGuard else NoGuard)"
| "rw_pc_guard_ok (Rw_read_drop p) k \<longleftrightarrow> k = (if p = RD_wake then NoGuard else ReadGuard)"
| "rw_pc_guard_ok Rw_dead k \<longleftrightarrow> k = NoGuard"

definition rw_ok :: "u64 \<Rightarrow> rw_thread \<Rightarrow> bool" where
  "rw_ok i l \<longleftrightarrow> rw_local_ok (rw_pc l) \<and> rw_pc_guard_ok (rw_pc l) (rw_guard l) \<and>
     (i \<in> rw_acquired l \<longleftrightarrow>
       rw_guard l \<noteq> NoGuard \<and>
         rw_pc l \<notin> {Rw_write_drop WD_bump, Rw_write_drop WD_store, Rw_read_drop RD_sub} \<or>
       rw_pc l \<in> {Rw_read R_poison, Rw_try_read TR_poison, Rw_write W_poison, Rw_try_write TW_poison})"

text \<open>The encoding of \<open>r\<close> readers and \<open>w\<close> writers in the state word.\<close>

definition rw_word_ok :: "u32 \<Rightarrow> nat \<Rightarrow> nat \<Rightarrow> bool" where
  "rw_word_ok v r w \<longleftrightarrow>
     w = 0 \<and> (unat v = 2 * r \<or> unat v = 2 * r + 1) \<or> w = 1 \<and> r = 0 \<and> v = U32_MAX"

definition rw_inv :: "('a rwlock, rw_thread) sys \<Rightarrow> bool" where
  "rw_inv s \<longleftrightarrow>
     length (locs s) < 2 ^ 31 - 1 \<and> each (\<lambda>t. rw_ok (rw_id (glob s))) (locs s) \<and>
     rw_word_ok (val (rw_state (glob s))) (cnt rw_reads (locs s)) (cnt rw_writes (locs s)) \<and>
     waiting_writers (glob s) = of_nat (cnt rw_waits (locs s))"

lemma unat_and_1: "unat (w AND 1 :: u32) = unat w mod 2"
  by (simp add: and_one_eq unat_mod)

lemma and_1_eq_1: "(w :: u32) AND 1 = 1 \<longleftrightarrow> odd (unat w)"
  by (simp add: word_unat_eq_iff unat_and_1 odd_iff_mod_2_eq_one)

lemma and_1_eq_0: "(w :: u32) AND 1 = 0 \<longleftrightarrow> even (unat w)"
  by (simp add: word_unat_eq_iff unat_and_1 even_iff_mod_2_eq_zero)

lemma word_le_1: "(w :: u32) \<le> 1 \<longleftrightarrow> unat w \<le> 1"
  by (simp add: word_le_nat_alt)

text \<open>
  What one step does to the state word, given the roles of its thread (reads, writes) before
  and after.
\<close>

inductive rw_move :: "u32 \<Rightarrow> bool \<times> bool \<Rightarrow> u32 \<Rightarrow> bool \<times> bool \<Rightarrow> bool" where
  rw_keep: "rw_move v b v b"
| rw_enter_read: "even (unat v) \<Longrightarrow> rw_move v (False, False) (v + 2) (True, False)"
| rw_enter_write: "unat v \<le> 1 \<Longrightarrow> rw_move v (False, False) U32_MAX (False, True)"
| rw_mark: "even (unat v) \<Longrightarrow> rw_move v b (v + 1) b"
| rw_leave_write: "rw_move v (False, True) 0 (False, False)"
| rw_leave_read: "rw_move v (True, False) (v - 2) (False, False)"

declare rw_move.intros [simp, intro]

definition rw_roles :: "rw_thread \<Rightarrow> bool \<times> bool" where
  "rw_roles l = (rw_reads l, rw_writes l)"

definition rw_effect :: "'a rwlock \<Rightarrow> rw_thread \<Rightarrow> 'a rwlock \<Rightarrow> rw_thread \<Rightarrow> bool" where
  "rw_effect g l g' l' \<longleftrightarrow>
     rw_id g' = rw_id g \<and> rw_ok (rw_id g) l' \<and>
     waiting_writers g' + of_bool (rw_waits l) = waiting_writers g + of_bool (rw_waits l') \<and>
     rw_move (val (rw_state g)) (rw_roles l) (val (rw_state g')) (rw_roles l')"

lemmas rw_eval = rw_prog_def rw_acquired_check_def rw_set_acquired_def rw_remove_acquired_def
  rw_is_poisoned_def rw_clear_poison_def rw_deref_mut_def rw_return_def waiting_guard_new_def
  waiting_guard_drop_def

lemmas rw_preds = rw_effect_def rw_ok_def rw_roles_def rw_reads_def rw_writes_def rw_waits_def

lemma rw_effect_idle:
  assumes "rw_pc l = Rw_idle" "rw_prog F checks e t g l = Some (g', l')" "rw_ok (rw_id g) l"
  shows "rw_effect g l g' l'"
  using assms
  by (cases "call e"; cases "rw_guard l") (auto simp: rw_eval rw_preds split: if_splits)

lemma rw_effect_read:
  assumes "rw_pc l = Rw_read p" "rw_prog F checks e t g l = Some (g', l')" "rw_ok (rw_id g) l"
  shows "rw_effect g l g' l'"
  using assms
  by (cases p) (auto simp: rw_eval rw_preds and_1_eq_1 dest: futex_wait_val futex_return_val
      split: if_splits prod.splits bool.splits option.splits)

lemma rw_effect_try_read:
  assumes "rw_pc l = Rw_try_read p" "rw_prog F checks e t g l = Some (g', l')" "rw_ok (rw_id g) l"
  shows "rw_effect g l g' l'"
  using assms
  by (cases p) (auto simp: rw_eval rw_preds and_1_eq_1 Let_def split: if_splits)

lemma rw_effect_write:
  assumes "rw_pc l = Rw_write p" "rw_prog F checks e t g l = Some (g', l')" "rw_ok (rw_id g) l"
  shows "rw_effect g l g' l'"
  using assms
  by (cases p) (auto simp: rw_eval rw_preds and_1_eq_0 word_le_1 dest: futex_wait_val futex_return_val
      split: if_splits prod.splits bool.splits option.splits)

lemma rw_effect_try_write:
  assumes "rw_pc l = Rw_try_write p" "rw_prog F checks e t g l = Some (g', l')" "rw_ok (rw_id g) l"
  shows "rw_effect g l g' l'"
  using assms
  by (cases p) (auto simp: rw_eval rw_preds word_le_1 Let_def split: if_splits)

lemma rw_effect_write_drop:
  assumes "rw_pc l = Rw_write_drop p" "rw_prog F checks e t g l = Some (g', l')" "rw_ok (rw_id g) l"
  shows "rw_effect g l g' l'"
  using assms by (cases p) (auto simp: rw_eval rw_preds Let_def split: if_splits)

lemma rw_effect_read_drop:
  assumes "rw_pc l = Rw_read_drop p" "rw_prog F checks e t g l = Some (g', l')" "rw_ok (rw_id g) l"
  shows "rw_effect g l g' l'"
  using assms rw_leave_read [of 3] by (cases p) (auto simp: rw_eval rw_preds Let_def split: if_splits)

lemma rw_prog_effect:
  assumes "rw_prog F checks e t g l = Some (g', l')" and "rw_ok (rw_id g) l"
  shows "rw_effect g l g' l'"
proof (cases "rw_pc l")
  case Rw_idle
  then show ?thesis by (rule rw_effect_idle [OF _ assms])
next
  case (Rw_read p)
  then show ?thesis by (rule rw_effect_read [OF _ assms])
next
  case (Rw_try_read p)
  then show ?thesis by (rule rw_effect_try_read [OF _ assms])
next
  case (Rw_write p)
  then show ?thesis by (rule rw_effect_write [OF _ assms])
next
  case (Rw_try_write p)
  then show ?thesis by (rule rw_effect_try_write [OF _ assms])
next
  case (Rw_write_drop p)
  then show ?thesis by (rule rw_effect_write_drop [OF _ assms])
next
  case (Rw_read_drop p)
  then show ?thesis by (rule rw_effect_read_drop [OF _ assms])
next
  case Rw_dead
  with assms show ?thesis by (simp add: rw_prog_def)
qed

text \<open>The encoding of readers and writers survives every move, given few enough threads.\<close>

lemma rw_word_ok_move:
  assumes "rw_move v (r, w) v' (r', w')" and "rw_word_ok v nr nw"
    and "nr' + of_bool r = nr + of_bool r'" and "nw' + of_bool w = nw + of_bool w'"
    and "nr' < 2 ^ 31 - 1" and "nr < 2 ^ 31 - 1"
  shows "rw_word_ok v' nr' nw'"
  using assms(1)
proof (cases rule: rw_move.cases)
  case rw_keep
  with assms show ?thesis by simp
next
  case rw_enter_read
  with assms(2) have "nw = 0" and v: "unat v = 2 * nr"
    by (auto simp: rw_word_ok_def unat_U32_MAX)
  moreover from v assms(5) rw_enter_read assms(3) have "unat (v + 2) = unat v + 2"
    by (simp add: unat_word_ariths)
  ultimately show ?thesis using assms(3,4) rw_enter_read by (simp add: rw_word_ok_def)
next
  case rw_enter_write
  with assms(2) have "nw = 0" and "nr = 0" by (auto simp: rw_word_ok_def unat_U32_MAX)
  with assms(3,4) rw_enter_write show ?thesis by (simp add: rw_word_ok_def)
next
  case rw_mark
  with assms(2) have "nw = 0" and v: "unat v = 2 * nr"
    by (auto simp: rw_word_ok_def unat_U32_MAX)
  moreover from v assms(6) have "unat (v + 1) = unat v + 1"
    by (simp add: unat_word_ariths)
  ultimately show ?thesis using assms(3,4) rw_mark by (simp add: rw_word_ok_def)
next
  case rw_leave_write
  with assms(2-4) show ?thesis by (auto simp: rw_word_ok_def)
next
  case rw_leave_read
  with assms(3) have "0 < nr" by simp
  with assms(2) have "nw = 0" and v: "unat v = 2 * nr \<or> unat v = 2 * nr + 1"
    by (auto simp: rw_word_ok_def)
  moreover from v \<open>0 < nr\<close> have "unat (v - 2) = unat v - 2"
    by (auto simp: unat_sub word_le_nat_alt)
  ultimately show ?thesis using assms(3,4) rw_leave_read by (auto simp: rw_word_ok_def)
qed

lemma rw_inv_step:
  assumes inv: "rw_inv \<lparr>glob = g, locs = ls\<rparr>" and t: "t < length ls"
    and step: "rw_prog F checks e t g (ls ! t) = Some (g', l')"
  shows "rw_inv \<lparr>glob = g', locs = ls[t := l']\<rparr>"
proof -
  from inv have n: "length ls < 2 ^ 31 - 1" and ok: "each (\<lambda>t. rw_ok (rw_id g)) ls"
    and word: "rw_word_ok (val (rw_state g)) (cnt rw_reads ls) (cnt rw_writes ls)"
    and num: "waiting_writers g = of_nat (cnt rw_waits ls)"
    by (simp_all add: rw_inv_def)
  from rw_prog_effect [OF step] eachD [OF ok t]
  have eff: "rw_effect g (ls ! t) g' l'" by simp
  then have move: "rw_move (val (rw_state g)) (rw_reads (ls ! t), rw_writes (ls ! t))
      (val (rw_state g')) (rw_reads l', rw_writes l')"
    and id: "rw_id g' = rw_id g" and ok': "rw_ok (rw_id g) l'"
    and num': "waiting_writers g' + of_bool (rw_waits (ls ! t)) =
      waiting_writers g + of_bool (rw_waits l')"
    by (simp_all add: rw_effect_def rw_roles_def)
  have "rw_word_ok (val (rw_state g')) (cnt rw_reads (ls[t := l'])) (cnt rw_writes (ls[t := l']))"
    using move word
  proof (rule rw_word_ok_move)
    show "cnt rw_reads (ls[t := l']) + of_bool (rw_reads (ls ! t)) = cnt rw_reads ls + of_bool (rw_reads l')"
      and "cnt rw_writes (ls[t := l']) + of_bool (rw_writes (ls ! t)) = cnt rw_writes ls + of_bool (rw_writes l')"
      using cnt_update [OF t] by (simp_all add: of_bool_def)
    show "cnt rw_reads (ls[t := l']) < 2 ^ 31 - 1" and "cnt rw_reads ls < 2 ^ 31 - 1"
      using n cnt_le_length [of rw_reads "ls[t := l']"] cnt_le_length [of rw_reads ls] by simp_all
  qed
  moreover have "waiting_writers g' = of_nat (cnt rw_waits (ls[t := l']))"
    using cnt_update_word [OF t, of rw_waits l'] num num' by (metis add_right_cancel)
  ultimately show ?thesis
    using n id ok' each_update_same [OF ok t] by (simp add: rw_inv_def)
qed

lemma rw_inv_init: "rw_start s \<Longrightarrow> rw_inv s"
proof -
  assume start: "rw_start s"
  then have "\<not> rw_reads (locs s ! t) \<and> \<not> rw_writes (locs s ! t) \<and> \<not> rw_waits (locs s ! t) \<and>
      rw_ok (rw_id (glob s)) (locs s ! t)" if "t < length (locs s)" for t
    using that by (auto simp: rw_start_def each_def rw_preds rw_fresh_def)
  then have "cnt rw_reads (locs s) = 0" and "cnt rw_writes (locs s) = 0" and "cnt rw_waits (locs s) = 0"
    and "each (\<lambda>t. rw_ok (rw_id (glob s))) (locs s)"
    by (auto simp: cnt_0_iff each_def)
  with start show ?thesis by (auto simp: rw_start_def rw_inv_def rw_new_def rw_word_ok_def)
qed

interpretation rw: invariant_system "rw_prog F checks" rw_start rw_inv
  for F :: futex_api and checks :: bool
  by unfold_locales (fact rw_inv_init, fact rw_inv_step)

lemma rw_reachable_inv:
  assumes "reachable (rw_prog F checks) rw_start s"
  shows "length (locs s) < 2 ^ 31 - 1" and "each (\<lambda>t. rw_ok (rw_id (glob s))) (locs s)"
    and "rw_word_ok (val (rw_state (glob s))) (cnt rw_reads (locs s)) (cnt rw_writes (locs s))"
    and "waiting_writers (glob s) = of_nat (cnt rw_waits (locs s))"
  using rw.reachable_inv [OF assms] by (auto simp: rw_inv_def)

lemma rw_prog_data:
  assumes "rw_prog F checks e t g l = Some (g', l')" and "rw_data g' \<noteq> rw_data g"
  shows "rw_writes l \<and> rw_writes l'"
proof (cases "rw_pc l")
  case Rw_idle
  with assms show ?thesis by (cases "call e") (auto simp: rw_eval rw_writes_def split: if_splits)
next
  case (Rw_read p)
  with assms show ?thesis
    by (cases p) (auto simp: rw_eval split: if_splits prod.splits bool.splits option.splits)
next
  case (Rw_try_read p)
  with assms show ?thesis by (cases p) (auto simp: rw_eval Let_def split: if_splits)
next
  case (Rw_write p)
  with assms show ?thesis
    by (cases p) (auto simp: rw_eval split: if_splits prod.splits bool.splits option.splits)
next
  case (Rw_try_write p)
  with assms show ?thesis by (cases p) (auto simp: rw_eval Let_def split: if_splits)
next
  case (Rw_write_drop p)
  with assms show ?thesis by (cases p) (auto simp: rw_eval Let_def split: if_splits)
next
  case (Rw_read_drop p)
  with assms show ?thesis by (cases p) (auto simp: rw_eval Let_def split: if_splits)
qed (use assms in \<open>simp add: rw_prog_def\<close>)

lemma rw_exclusive: "reachable (rw_prog F checks) rw_start s \<Longrightarrow> cnt rw_writes (locs s) \<le> 1"
  using rw_reachable_inv(3) [of F checks s] by (auto simp: rw_word_ok_def)

lemma rw_apart:
  "reachable (rw_prog F checks) rw_start s \<Longrightarrow>
    cnt rw_writes (locs s) = 0 \<or> cnt rw_writes (locs s) = 1 \<and> cnt rw_reads (locs s) = 0"
  using rw_reachable_inv(3) [of F checks s] by (auto simp: rw_word_ok_def)

interpretation rw_lock: exclusive_lock "rw_prog F checks" rw_start rw_writes rw_data
  for F :: futex_api and checks :: bool
  by unfold_locales (fact rw_exclusive, fact rw_prog_data)

interpretation rw_shared: shared_lock "rw_prog F checks" rw_start rw_reads rw_writes rw_data
  for F :: futex_api and checks :: bool
  by unfold_locales (fact rw_apart, fact rw_prog_data)

section \<open>Operations that never wait\<close>

text \<open>The steps a thread still takes at most inside \<open>try_read\<close>, \<open>try_write\<close> and the drops.\<close>

fun rw_steps_left :: "rw_pc \<Rightarrow> nat" where
  "rw_steps_left (Rw_try_read p) =
     (case p of TR_check \<Rightarrow> 5 | TR_load \<Rightarrow> 4 | TR_cas _ \<Rightarrow> 3 | TR_set \<Rightarrow> 2 | TR_poison \<Rightarrow> 1)"
| "rw_steps_left (Rw_try_write p) =
     (case p of TW_check \<Rightarrow> 5 | TW_load \<Rightarrow> 4 | TW_cas _ \<Rightarrow> 3 | TW_set \<Rightarrow> 2 | TW_poison \<Rightarrow> 1)"
| "rw_steps_left (Rw_write_drop p) =
     (case p of WD_poison \<Rightarrow> 6 | WD_remove \<Rightarrow> 5 | WD_bump \<Rightarrow> 4 | WD_store \<Rightarrow> 3 | WD_load \<Rightarrow> 2
      | WD_wake_one \<Rightarrow> 1 | WD_wake_all \<Rightarrow> 1)"
| "rw_steps_left (Rw_read_drop p) = (case p of RD_remove \<Rightarrow> 3 | RD_sub \<Rightarrow> 2 | RD_wake \<Rightarrow> 1)"
| "rw_steps_left _ = 0"

definition rw_home :: "rw_thread \<Rightarrow> bool" where
  "rw_home l \<longleftrightarrow> rw_pc l \<in> {Rw_idle, Rw_dead}"

lemma rw_enabled: "0 < rw_steps_left (rw_pc l) \<Longrightarrow> rw_prog F checks e t g l \<noteq> None"
proof (cases "rw_pc l")
  case (Rw_try_read p)
  then show ?thesis by (cases p) (auto simp: rw_eval Let_def)
next
  case (Rw_try_write p)
  then show ?thesis by (cases p) (auto simp: rw_eval Let_def)
next
  case (Rw_write_drop p)
  then show ?thesis by (cases p) (auto simp: rw_eval Let_def)
next
  case (Rw_read_drop p)
  then show ?thesis by (cases p) (auto simp: rw_eval Let_def)
qed simp_all

lemma rw_advances:
  assumes "0 < rw_steps_left (rw_pc l)" and "rw_prog F checks e t g l = Some (g', l')"
  shows "rw_home l' \<or> 0 < rw_steps_left (rw_pc l') \<and> rw_steps_left (rw_pc l') < rw_steps_left (rw_pc l)"
proof (cases "rw_pc l")
  case (Rw_try_read p)
  with assms(2) show ?thesis
    by (cases p) (auto simp: rw_eval rw_home_def Let_def split: if_splits)
next
  case (Rw_try_write p)
  with assms(2) show ?thesis
    by (cases p) (auto simp: rw_eval rw_home_def Let_def split: if_splits)
next
  case (Rw_write_drop p)
  with assms(2) show ?thesis
    by (cases p) (auto simp: rw_eval rw_home_def Let_def split: if_splits)
next
  case (Rw_read_drop p)
  with assms(2) show ?thesis
    by (cases p) (auto simp: rw_eval rw_home_def Let_def split: if_splits)
qed (use assms(1) in simp_all)

interpretation rw_free: wait_free "rw_prog F checks" "\<lambda>l. rw_steps_left (rw_pc l)" rw_home "\<lambda>_. False"
  for F :: futex_api and checks :: bool
  by unfold_locales (use rw_enabled rw_advances in blast)+

section \<open>Properties\<close>

text \<open>
  C2: readers and writers exclude each other.  In any reachable state either no thread holds the lock for
  writing and half the state word is the number of readers, or exactly one thread holds it for
  writing, no thread holds it for reading, and the state word is \<open>u32::MAX\<close>.\<close>

theorem rw_exclusion:
  assumes "reachable (rw_prog F checks) rw_start s"
  shows "cnt rw_writes (locs s) = 0 \<and> unat (val (rw_state (glob s))) div 2 = cnt rw_reads (locs s) \<or>
    cnt rw_writes (locs s) = 1 \<and> cnt rw_reads (locs s) = 0 \<and> val (rw_state (glob s)) = U32_MAX"
  using rw_reachable_inv(3) [OF assms] by (auto simp: rw_word_ok_def)

lemmas rw_run_eval = sys_step_def rw_eval rw_new_def rw_fresh_def futex_new_def
  futex_wait_def futex_return_def futex_wake_one_def futex_wake_all_def rw_poison_result_def
  Let_def replicate_numeral word_le_1 and_1_eq_0 and_1_eq_1 unat_U32_MAX

definition rw_duo :: "(nat rwlock, rw_thread) sys" where
  "rw_duo = \<lparr>glob = snd (rw_new 0 42), locs = [rw_fresh {}, rw_fresh {}]\<rparr>"

lemma rw_duo_reachable: "reachable (rw_prog F checks) rw_start rw_duo"
  by (rule reachable_init) (auto simp: rw_start_def rw_duo_def rw_new_def)

text \<open>Thread 0 of two holds the lock for writing.\<close>

definition rw_write_held :: "(nat rwlock, rw_thread) sys" where
  "rw_write_held = \<lparr>glob = rw_set_state U32_MAX (snd (rw_new 0 42)),
    locs = [(rw_fresh {0})\<lparr>rw_guard := WriteGuard, rw_last := Some (Inr ())\<rparr>, rw_fresh {}]\<rparr>"

lemma rw_write_held_reachable: "reachable (rw_prog F checks) rw_start rw_write_held"
  by (rule run_reachable [OF rw_duo_reachable, where as = "replicate 7 (0, quiet Rw_op_write)"])
    (simp add: rw_run_eval rw_duo_def rw_write_held_def)

text \<open>Thread 0 of two holds the lock for reading.\<close>

definition rw_read_held :: "(nat rwlock, rw_thread) sys" where
  "rw_read_held = \<lparr>glob = rw_set_state 2 (snd (rw_new 0 42)),
    locs = [(rw_fresh {0})\<lparr>rw_guard := ReadGuard, rw_last := Some (Inr ())\<rparr>, rw_fresh {}]\<rparr>"

lemma rw_read_held_reachable: "reachable (rw_prog F checks) rw_start rw_read_held"
  by (rule run_reachable [OF rw_duo_reachable, where as = "replicate 8 (0, quiet Rw_op_read)"])
    (simp add: rw_run_eval rw_duo_def rw_read_held_def)

theorem rw_exclusion_witness:
  "cnt rw_writes (locs rw_write_held) = 1 \<and> cnt rw_reads (locs rw_write_held) = 0 \<and>
    val (rw_state (glob rw_write_held)) = U32_MAX"
  using rw_exclusion [OF rw_write_held_reachable [of fifo_futex True]]
  by (simp add: rw_write_held_def rw_writes_def)

text \<open>
  While a thread holds the lock for writing, no sequence of steps of other threads changes the
  data or takes the lock away.\<close>

theorem rw_critical_section_isolated:
  assumes "reachable (rw_prog F checks) rw_start s" and "t < length (locs s)"
    and "rw_writes (locs s ! t)" and "run (rw_prog F checks) as s = Some s'" and "t \<notin> fst ` set as"
  shows "rw_data (glob s') = rw_data (glob s) \<and> rw_writes (locs s' ! t)"
  using rw_lock.isolated [OF assms] .

theorem rw_critical_section_isolated_witness:
  "\<exists>s'. run (rw_prog fifo_futex True) (replicate 3 (1, quiet Rw_op_try_write)) rw_write_held = Some s' \<and>
    rw_data (glob s') = 42 \<and> rw_writes (locs s' ! 0)"
proof -
  obtain s' where run: "run (rw_prog fifo_futex True) (replicate 3 (1, quiet Rw_op_try_write)) rw_write_held = Some s'"
    by (simp add: rw_run_eval rw_write_held_def)
  moreover have "0 < length (locs rw_write_held)" and "rw_writes (locs rw_write_held ! 0)"
    by (simp_all add: rw_write_held_def rw_writes_def)
  moreover have "0 \<notin> fst ` set (replicate 3 (1 :: nat, quiet (Rw_op_try_write :: nat rw_op)))" by simp
  ultimately have "rw_data (glob s') = rw_data (glob rw_write_held) \<and> rw_writes (locs s' ! 0)"
    by (intro rw_critical_section_isolated [OF rw_write_held_reachable])
  with run show ?thesis by (auto simp: rw_write_held_def rw_new_def)
qed

text \<open>
  C12: The \<open>RwLock\<close> is an atomic lock with shared and exclusive holders.  From any reachable state, every run of threads, read as the sequence of its
  acquisitions, stores and releases, is an execution of the abstract lock, where nobody enters
  beside a writer, a writer enters alone and only a writer stores; it ends with the same readers,
  the same writer and the same data.\<close>

theorem rw_implements_lock:
  assumes "reachable (rw_prog F checks) rw_start s" and "run (rw_prog F checks) as s = Some s'"
  shows "lock_execs (lock_history (rw_prog F checks) rw_reads rw_writes rw_data as s)
      (lock_view_of rw_reads rw_writes rw_data s) =
    Some (lock_view_of rw_reads rw_writes rw_data s')"
  using assms by (rule rw_shared.run_refines)

text \<open>The writer stores and unlocks, both threads read, and thread 1 unlocks.\<close>

definition rw_handover :: "(nat \<times> nat rw_op env) list" where
  "rw_handover = (0, quiet (Rw_op_modify (\<lambda>x. x + 7))) # replicate 6 (0, quiet Rw_op_unlock) @
     replicate 6 (1, quiet Rw_op_try_read) @ replicate 6 (0, quiet Rw_op_try_read)"

theorem rw_implements_lock_witness:
  "\<exists>s'. run (rw_prog fifo_futex True) rw_handover rw_write_held = Some s' \<and>
    lock_execs [Store 0 49, Unlock_write 0, Lock_read 1, Lock_read 0]
      (lock_view_of rw_reads rw_writes rw_data rw_write_held) =
    Some (lock_view_of rw_reads rw_writes rw_data s')"
proof -
  have "run (rw_prog fifo_futex True) rw_handover rw_write_held \<noteq> None"
    by (simp add: rw_run_eval rw_handover_def rw_write_held_def)
  then obtain s' where run: "run (rw_prog fifo_futex True) rw_handover rw_write_held = Some s'" by blast
  moreover have "lock_history (rw_prog fifo_futex True) rw_reads rw_writes rw_data rw_handover rw_write_held =
      [Store 0 49, Unlock_write 0, Lock_read 1, Lock_read 0]"
    by (simp add: rw_run_eval rw_handover_def rw_write_held_def lock_step_events_def rw_preds)
  ultimately show ?thesis using rw_implements_lock [OF rw_write_held_reachable run] by auto
qed

text \<open>
  C24: \<open>try_read\<close>, \<open>try_write\<close> and the drops of both guards are wait-free.  In any state, a
  thread inside one of them is not blocked, and it is back with its client (or, after a panic, dead) after at most
  six of its own steps, however the steps of other threads interleave.\<close>

theorem rw_try_wait_free:
  assumes "t < length (locs s)"
    and "rw_pc (locs s ! t) \<in>
      range Rw_try_read \<union> range Rw_try_write \<union> range Rw_write_drop \<union> range Rw_read_drop"
  shows "returns_within (rw_prog F checks) rw_home (\<lambda>_. False) 6 t s"
  using assms
  by (intro rw_free.returns) (auto split: rw_try_read_pc.split rw_try_write_pc.split
    rw_wdrop_pc.split rw_rdrop_pc.split)

theorem rw_try_wait_free_witness:
  "returns_within (rw_prog fifo_futex True) rw_home (\<lambda>_. False) 6 0
    (rw_write_held\<lparr>locs := (locs rw_write_held)[0 := (locs rw_write_held ! 0)\<lparr>rw_pc := Rw_write_drop WD_poison\<rparr>]\<rparr>)"
  by (rule rw_try_wait_free) (simp_all add: rw_write_held_def)

text \<open>
  The outer loop of \<open>read\<close> never reloads a \<open>state\<close> of \<open>u32::MAX\<close>, and the loop of \<open>write\<close>
  never reloads an odd \<open>state\<close> greater than 1: the program points a call cannot leave.
\<close>

fun rw_read_stuck :: "rw_pc \<Rightarrow> bool" where
  "rw_read_stuck (Rw_read (R_top state)) \<longleftrightarrow> state = U32_MAX"
| "rw_read_stuck (Rw_read R_wait_max) \<longleftrightarrow> True"
| "rw_read_stuck (Rw_read R_blocked_max) \<longleftrightarrow> True"
| "rw_read_stuck _ \<longleftrightarrow> False"

definition rw_hopeless :: "u32 \<Rightarrow> bool" where
  "rw_hopeless state \<longleftrightarrow> \<not> state \<le> 1 \<and> state AND 1 \<noteq> 0"

fun rw_write_stuck :: "rw_pc \<Rightarrow> bool" where
  "rw_write_stuck (Rw_write (W_top state)) \<longleftrightarrow> rw_hopeless state"
| "rw_write_stuck (Rw_write (W_enter state)) \<longleftrightarrow> rw_hopeless state"
| "rw_write_stuck (Rw_write (W_load_wc state)) \<longleftrightarrow> rw_hopeless state"
| "rw_write_stuck (Rw_write (W_wait state _)) \<longleftrightarrow> rw_hopeless state"
| "rw_write_stuck (Rw_write (W_blocked state)) \<longleftrightarrow> rw_hopeless state"
| "rw_write_stuck (Rw_write (W_exit state)) \<longleftrightarrow> rw_hopeless state"
| "rw_write_stuck _ \<longleftrightarrow> False"

lemma rw_read_stuck_step:
  assumes "rw_read_stuck (rw_pc l)" and "rw_prog F checks e t g l = Some (g', l')"
  shows "rw_read_stuck (rw_pc l')"
  using assms
  by (cases "rw_pc l" rule: rw_read_stuck.cases)
    (auto simp: rw_prog_def split: prod.splits bool.splits option.splits)

lemma rw_write_stuck_step:
  assumes "rw_write_stuck (rw_pc l)" and "rw_prog F checks e t g l = Some (g', l')"
  shows "rw_write_stuck (rw_pc l')"
  using assms
  by (cases "rw_pc l" rule: rw_write_stuck.cases)
    (auto simp: rw_prog_def rw_hopeless_def split: prod.splits bool.splits option.splits)

text \<open>
  A reader that arrives while a writer holds the lock never gets it.  If the first load of \<open>read\<close>
  sees \<open>u32::MAX\<close>, the call stays in the branch that waits for the state to differ from \<open>u32::MAX\<close> in
  every run that follows, however long and whoever releases the lock.\<close>

theorem rw_read_starves:
  assumes "rw_pc (locs s ! t) = Rw_read R_load" and "val (rw_state (glob s)) = U32_MAX"
    and "run (rw_prog F checks) ((t, e) # as) s = Some s'"
  shows "rw_read_stuck (rw_pc (locs s' ! t))"
proof -
  from assms(3) obtain s1 where s1: "sys_step (rw_prog F checks) (t, e) s = Some s1"
    and run: "run (rw_prog F checks) as s1 = Some s'"
    by (auto split: option.splits)
  from s1 assms(1,2) have "rw_read_stuck (rw_pc (locs s1 ! t))"
    by (auto elim!: sys_step_SomeE simp: rw_prog_def)
  with rw_read_stuck_step run show ?thesis by (rule run_local_closed)
qed

text \<open>
  The schedule of the two witnesses: thread 1 calls \<open>read\<close> (or \<open>write\<close>) while thread 0 holds the
  lock for writing, thread 0 unlocks, and thread 1 goes on.
\<close>

theorem rw_read_starves_witness:
  "\<exists>s s'. run (rw_prog fifo_futex True) (replicate 2 (1, quiet Rw_op_read)) rw_write_held = Some s \<and>
    run (rw_prog fifo_futex True) ((1, quiet Rw_op_read) # replicate 7 (0, quiet Rw_op_unlock) @
      replicate 10 (1, quiet Rw_op_read)) s = Some s' \<and>
    val (rw_state (glob s')) = 0 \<and> rw_read_stuck (rw_pc (locs s' ! 1))"
proof -
  define s where "s = rw_write_held\<lparr>locs := (locs rw_write_held)[1 := (rw_fresh {})\<lparr>rw_pc := Rw_read R_load\<rparr>]\<rparr>"
  have r: "run (rw_prog fifo_futex True) (replicate 2 (1, quiet Rw_op_read)) rw_write_held = Some s"
    by (simp add: rw_run_eval rw_write_held_def s_def)
  obtain s' where r': "run (rw_prog fifo_futex True) ((1, quiet Rw_op_read) # replicate 7 (0, quiet Rw_op_unlock) @
      replicate 10 (1, quiet Rw_op_read)) s = Some s'" and "val (rw_state (glob s')) = 0"
    by (simp add: rw_run_eval rw_write_held_def s_def)
  moreover have "rw_read_stuck (rw_pc (locs s' ! 1))"
    using rw_read_starves [OF _ _ r'] by (simp add: s_def rw_write_held_def)
  ultimately show ?thesis using r by blast
qed

text \<open>
  A writer that arrives while another writer holds the lock, or waits for readers, never gets it
  either.  If the first load of \<open>write\<close> sees an odd value greater than 1, the call only ever goes round
  its waiting loop with that stale value, in every run that follows.\<close>

theorem rw_write_starves:
  assumes "rw_pc (locs s ! t) = Rw_write W_load" and "odd (unat (val (rw_state (glob s))))"
    and "1 < unat (val (rw_state (glob s)))"
    and "run (rw_prog F checks) ((t, e) # as) s = Some s'"
  shows "rw_write_stuck (rw_pc (locs s' ! t))"
proof -
  from assms(4) obtain s1 where s1: "sys_step (rw_prog F checks) (t, e) s = Some s1"
    and run: "run (rw_prog F checks) as s1 = Some s'"
    by (auto split: option.splits)
  from s1 assms(1-3) have "rw_write_stuck (rw_pc (locs s1 ! t))"
    by (auto elim!: sys_step_SomeE simp: rw_prog_def rw_hopeless_def word_le_1 and_1_eq_0)
  with rw_write_stuck_step run show ?thesis by (rule run_local_closed)
qed

theorem rw_write_starves_witness:
  "\<exists>s s'. run (rw_prog fifo_futex True) (replicate 2 (1, quiet Rw_op_write)) rw_write_held = Some s \<and>
    run (rw_prog fifo_futex True) ((1, quiet Rw_op_write) # replicate 7 (0, quiet Rw_op_unlock) @
      replicate 4 (1, quiet Rw_op_write)) s = Some s' \<and>
    val (rw_state (glob s')) = 0 \<and> rw_write_stuck (rw_pc (locs s' ! 1))"
proof -
  define s where "s = rw_write_held\<lparr>locs := (locs rw_write_held)[1 := (rw_fresh {})\<lparr>rw_pc := Rw_write W_load\<rparr>]\<rparr>"
  have r: "run (rw_prog fifo_futex True) (replicate 2 (1, quiet Rw_op_write)) rw_write_held = Some s"
    by (simp add: rw_run_eval rw_write_held_def s_def)
  obtain s' where r': "run (rw_prog fifo_futex True) ((1, quiet Rw_op_write) # replicate 7 (0, quiet Rw_op_unlock) @
      replicate 4 (1, quiet Rw_op_write)) s = Some s'" and "val (rw_state (glob s')) = 0"
    by (simp add: rw_run_eval rw_write_held_def s_def)
  moreover have "rw_write_stuck (rw_pc (locs s' ! 1))"
    using rw_write_starves [OF _ _ _ r'] by (simp add: s_def rw_write_held_def unat_U32_MAX)
  ultimately show ?thesis using r by blast
qed

definition rw_deadlocked :: "(nat rwlock, rw_thread) sys" where
  "rw_deadlocked = \<lparr>glob = (snd (rw_new 0 42))\<lparr>writers_number := \<lparr>val = 0, waiters = [1]\<rparr>,
      waiting_writers := 1, rw_state := \<lparr>val = 1, waiters = [0]\<rparr>\<rparr>,
    locs = [(rw_fresh {})\<lparr>rw_pc := Rw_read R_blocked, rw_last := Some (Inr ())\<rparr>,
      (rw_fresh {})\<lparr>rw_pc := Rw_write (W_blocked 2)\<rparr>]\<rparr>"

lemma rw_deadlocked_reachable:
  "run (rw_prog fifo_futex checks) (replicate 7 (1, quiet Rw_op_write) @ replicate 4 (0, quiet Rw_op_unlock) @
    [(1, quiet Rw_op_write)] @ replicate 6 (0, quiet Rw_op_read)) rw_read_held = Some rw_deadlocked"
  by (simp add: rw_run_eval rw_read_held_def rw_deadlocked_def)

text \<open>
  The wake-up of a waiting writer can be lost.  The last reader wakes the writers without
  changing \<open>writers_number\<close>; when that happens between the writer's load of the counter and its
  \<open>wait\<close>, the writer blocks on a free lock, its mark keeps new readers out, and no thread can move.\<close>

theorem rw_lost_wakeup_deadlock:
  "\<exists>s :: (nat rwlock, rw_thread) sys. reachable (rw_prog fifo_futex checks) rw_start s \<and>
    cnt rw_reads (locs s) = 0 \<and> cnt rw_writes (locs s) = 0 \<and> length (locs s) = 2 \<and>
    rw_pc (locs s ! 0) = Rw_read R_blocked \<and> rw_pc (locs s ! 1) = Rw_write (W_blocked 2) \<and>
    sys_step (rw_prog fifo_futex checks) (0, e) s = None \<and>
    sys_step (rw_prog fifo_futex checks) (1, e) s = None"
proof (intro exI conjI)
  show "reachable (rw_prog fifo_futex checks) rw_start rw_deadlocked"
    using run_reachable [OF rw_read_held_reachable rw_deadlocked_reachable] .
qed (simp_all add: rw_deadlocked_def rw_reads_def rw_writes_def rw_fresh_def sys_step_def rw_prog_def
    futex_return_def)

text \<open>
  C36: the lock prefers writers.  While the state word is odd, which a waiting writer makes it, no
  step of any thread lets a new reader in.\<close>

theorem rw_writer_preference:
  assumes "reachable (rw_prog F checks) rw_start s" and "odd (unat (val (rw_state (glob s))))"
    and "sys_step (rw_prog F checks) (t, e) s = Some s'"
  shows "cnt rw_reads (locs s') \<le> cnt rw_reads (locs s)"
proof -
  from assms(3) obtain g' l' where t: "t < length (locs s)"
    and step: "rw_prog F checks e t (glob s) (locs s ! t) = Some (g', l')"
    and s': "s' = \<lparr>glob = g', locs = (locs s)[t := l']\<rparr>"
    by (auto elim: sys_step_SomeE)
  from rw_prog_effect [OF step] eachD [OF rw_reachable_inv(2) [OF assms(1)] t]
  have "rw_move (val (rw_state (glob s))) (rw_roles (locs s ! t)) (val (rw_state g')) (rw_roles l')"
    by (simp add: rw_effect_def)
  from this assms(2) have "rw_reads l' \<longrightarrow> rw_reads (locs s ! t)"
    by (cases rule: rw_move.cases) (auto simp: rw_roles_def)
  with cnt_update [OF t, of rw_reads l'] s' show ?thesis by (auto split: if_splits)
qed

theorem rw_writer_preference_witness:
  "\<exists>s'. sys_step (rw_prog fifo_futex True) (1, quiet Rw_op_try_read) rw_write_held = Some s' \<and>
    cnt rw_reads (locs s') \<le> cnt rw_reads (locs rw_write_held)"
proof -
  obtain s' where s': "sys_step (rw_prog fifo_futex True) (1, quiet Rw_op_try_read) rw_write_held = Some s'"
    by (simp add: sys_step_def rw_prog_def rw_write_held_def rw_fresh_def)
  have "odd (unat (val (rw_state (glob rw_write_held))))"
    by (simp add: rw_write_held_def unat_U32_MAX)
  from rw_writer_preference [OF rw_write_held_reachable this s'] s' show ?thesis by blast
qed

text \<open>The fields of an idle thread without a guard, and what the thread-local set says about it.\<close>

lemma rw_idle_thread:
  assumes "reachable (rw_prog F checks) rw_start s" and "t < length (locs s)"
    and "rw_pc (locs s ! t) = Rw_idle" and "rw_guard (locs s ! t) = NoGuard"
  obtains acq p r where "locs s ! t = \<lparr>rw_pc = Rw_idle, rw_guard = NoGuard, rw_acquired = acq,
      rw_panicking = p, rw_last = r\<rparr>" and "rw_id (glob s) \<notin> acq"
proof -
  obtain acq p r where l: "locs s ! t = \<lparr>rw_pc = Rw_idle, rw_guard = NoGuard, rw_acquired = acq,
      rw_panicking = p, rw_last = r\<rparr>"
    using assms(3,4) by (cases "locs s ! t") auto
  moreover have "rw_id (glob s) \<notin> acq"
    using eachD [OF rw_reachable_inv(2) [OF assms(1)] assms(2)] l by (simp add: rw_ok_def)
  ultimately show ?thesis by (rule that)
qed

text \<open>The state after a thread has acquired the lock with the given guard.\<close>

definition rw_acquire :: "nat \<Rightarrow> rw_guard \<Rightarrow> u32 \<Rightarrow> ('a rwlock, rw_thread) sys \<Rightarrow> ('a rwlock, rw_thread) sys" where
  "rw_acquire t kind v s =
     \<lparr>glob = rw_set_state v (glob s),
      locs = (locs s)[t := (locs s ! t)\<lparr>rw_guard := kind,
        rw_acquired := insert (rw_id (glob s)) (rw_acquired (locs s ! t)),
        rw_last := Some (rw_poison_result (rw_poisoned (glob s)))\<rparr>]\<rparr>"

text \<open>
  \<open>read\<close> on a lock that no writer holds or waits for adds one reader and returns the guard,
  in the result or, when the lock is poisoned, in the error; it neither blocks nor disturbs the
  readers already there.\<close>

theorem rw_read_available:
  assumes "reachable (rw_prog F checks) rw_start s" and "t < length (locs s)"
    and "rw_pc (locs s ! t) = Rw_idle" and "rw_guard (locs s ! t) = NoGuard"
    and "even (unat (val (rw_state (glob s))))"
  shows "run (rw_prog F checks) (replicate 8 (t, quiet Rw_op_read)) s =
    Some (rw_acquire t ReadGuard (val (rw_state (glob s)) + 2) s)"
proof -
  obtain acq p r where l: "locs s ! t = \<lparr>rw_pc = Rw_idle, rw_guard = NoGuard, rw_acquired = acq,
      rw_panicking = p, rw_last = r\<rparr>" and "rw_id (glob s) \<notin> acq"
    using assms(1-4) by (rule rw_idle_thread)
  moreover have "unat (val (rw_state (glob s))) + 2 < 2 ^ 32 \<and>
      val (rw_state (glob s)) \<noteq> U32_MAX \<and> val (rw_state (glob s)) \<noteq> U32_MAX - 1"
  proof -
    have "unat (val (rw_state (glob s))) = 2 * cnt rw_reads (locs s)"
      using rw_reachable_inv(3) [OF assms(1)] assms(5) by (auto simp: rw_word_ok_def unat_U32_MAX)
    moreover have "cnt rw_reads (locs s) < 2 ^ 31 - 1"
      using cnt_le_length [of rw_reads "locs s"] rw_reachable_inv(1) [OF assms(1)] by simp
    moreover have "unat (U32_MAX - 1) = 2 ^ 32 - 2"
      using unat_minus_1 [of U32_MAX] by (simp add: unat_U32_MAX)
    ultimately show ?thesis by (auto simp: unat_U32_MAX)
  qed
  ultimately show ?thesis
    using assms(2,5) by (simp add: sys_step_def rw_eval replicate_numeral rw_acquire_def and_1_eq_1)
qed

theorem rw_read_available_witness:
  "run (rw_prog fifo_futex True) (replicate 8 (1, quiet Rw_op_read)) rw_read_held =
    Some (rw_acquire 1 ReadGuard 4 rw_read_held)"
proof -
  have "run (rw_prog fifo_futex True) (replicate 8 (1, quiet Rw_op_read)) rw_read_held =
    Some (rw_acquire 1 ReadGuard (val (rw_state (glob rw_read_held)) + 2) rw_read_held)"
    by (rule rw_read_available [OF rw_read_held_reachable]) (simp_all add: rw_read_held_def rw_fresh_def)
  then show ?thesis by (simp add: rw_read_held_def)
qed

text \<open>
  \<open>write\<close> and \<open>try_write\<close> on a lock without readers or a writer take it: the state word becomes \<open>u32::MAX\<close>
  and the thread gets the write guard, in the result or in the poison error.\<close>

theorem rw_write_available:
  assumes "reachable (rw_prog F checks) rw_start s" and "t < length (locs s)"
    and "rw_pc (locs s ! t) = Rw_idle" and "rw_guard (locs s ! t) = NoGuard"
    and "val (rw_state (glob s)) \<le> 1"
  shows "run (rw_prog F checks) (replicate 7 (t, quiet Rw_op_write)) s =
      Some (rw_acquire t WriteGuard U32_MAX s) \<and>
    run (rw_prog F checks) (replicate 6 (t, quiet Rw_op_try_write)) s =
      Some (rw_acquire t WriteGuard U32_MAX s)"
proof -
  obtain acq p r where "locs s ! t = \<lparr>rw_pc = Rw_idle, rw_guard = NoGuard, rw_acquired = acq,
      rw_panicking = p, rw_last = r\<rparr>" and "rw_id (glob s) \<notin> acq"
    using assms(1-4) by (rule rw_idle_thread)
  with assms(2,5) show ?thesis
    by (simp add: sys_step_def rw_eval replicate_numeral rw_acquire_def Let_def)
qed

theorem rw_write_available_witness:
  "run (rw_prog fifo_futex True) (replicate 7 (0, quiet Rw_op_write)) rw_duo = Some rw_write_held"
proof -
  have "run (rw_prog fifo_futex True) (replicate 7 (0, quiet Rw_op_write)) rw_duo =
      Some (rw_acquire 0 WriteGuard U32_MAX rw_duo) \<and>
    run (rw_prog fifo_futex True) (replicate 6 (0, quiet Rw_op_try_write)) rw_duo =
      Some (rw_acquire 0 WriteGuard U32_MAX rw_duo)"
    by (rule rw_write_available [OF rw_duo_reachable]) (simp_all add: rw_duo_def rw_new_def rw_fresh_def)
  then show ?thesis
    by (simp add: rw_acquire_def rw_duo_def rw_write_held_def rw_new_def rw_fresh_def futex_new_def
        rw_poison_result_def)
qed

text \<open>
  \<open>try_read\<close> never blocks.  Undisturbed it returns \<open>TooManyReaders\<close> at \<open>u32::MAX - 1\<close>, \<open>WouldBlock\<close> when a
  writer holds the lock or waits for it, and otherwise a read guard.\<close>

theorem rw_try_read_result:
  assumes "reachable (rw_prog F checks) rw_start s" and "t < length (locs s)"
    and "rw_pc (locs s ! t) = Rw_idle" and "rw_guard (locs s ! t) = NoGuard"
  shows "if val (rw_state (glob s)) = U32_MAX - 1
    then run (rw_prog F checks) (replicate 3 (t, quiet Rw_op_try_read)) s =
      Some (s\<lparr>locs := (locs s)[t := (locs s ! t)\<lparr>rw_last := Some (Inl RwTooManyReaders)\<rparr>]\<rparr>)
    else if odd (unat (val (rw_state (glob s))))
    then run (rw_prog F checks) (replicate 3 (t, quiet Rw_op_try_read)) s =
      Some (s\<lparr>locs := (locs s)[t := (locs s ! t)\<lparr>rw_last := Some (Inl RwWouldBlock)\<rparr>]\<rparr>)
    else run (rw_prog F checks) (replicate 6 (t, quiet Rw_op_try_read)) s =
      Some (rw_acquire t ReadGuard (val (rw_state (glob s)) + 2) s)"
proof -
  obtain acq p r where "locs s ! t = \<lparr>rw_pc = Rw_idle, rw_guard = NoGuard, rw_acquired = acq,
      rw_panicking = p, rw_last = r\<rparr>" and "rw_id (glob s) \<notin> acq"
    using assms(1-4) by (rule rw_idle_thread)
  with assms(2) show ?thesis
    by (cases s) (simp add: sys_step_def rw_eval replicate_numeral rw_acquire_def Let_def and_1_eq_1)
qed

theorem rw_try_read_result_witness:
  "run (rw_prog fifo_futex True) (replicate 3 (1, quiet Rw_op_try_read)) rw_write_held =
    Some (rw_write_held\<lparr>locs := (locs rw_write_held)[1 :=
      (locs rw_write_held ! 1)\<lparr>rw_last := Some (Inl RwWouldBlock)\<rparr>]\<rparr>)"
proof -
  have "1 < length (locs rw_write_held)" and "rw_pc (locs rw_write_held ! 1) = Rw_idle"
    and "rw_guard (locs rw_write_held ! 1) = NoGuard"
    by (simp_all add: rw_write_held_def rw_fresh_def)
  from rw_try_read_result [OF rw_write_held_reachable this, of fifo_futex True]
  show ?thesis by (simp add: rw_write_held_def unat_U32_MAX)
qed

text \<open>
  A step poisons the lock only as the first access of the drop of a write guard by a panicking
  thread, and only \<open>clear_poison\<close> takes the poison away.
\<close>

lemma rw_step_poison:
  assumes "rw_prog F checks e t g l = Some (g', l')"
  shows "rw_poisoned g' \<longleftrightarrow> rw_pc l = Rw_write_drop WD_poison \<and> rw_panicking l \<or>
    rw_poisoned g \<and> \<not> (rw_pc l = Rw_idle \<and> call e = Rw_op_clear_poison)"
proof (cases "rw_pc l")
  case Rw_idle
  with assms show ?thesis by (cases "call e") (auto simp: rw_eval split: if_splits)
next
  case (Rw_read p)
  with assms show ?thesis
    by (cases p) (auto simp: rw_eval split: if_splits option.splits prod.splits sum.splits bool.splits)
next
  case (Rw_try_read p)
  with assms show ?thesis by (cases p) (auto simp: rw_eval Let_def split: if_splits)
next
  case (Rw_write p)
  with assms show ?thesis
    by (cases p) (auto simp: rw_eval split: if_splits option.splits prod.splits sum.splits bool.splits)
next
  case (Rw_try_write p)
  with assms show ?thesis by (cases p) (auto simp: rw_eval Let_def split: if_splits)
next
  case (Rw_write_drop p)
  with assms show ?thesis by (cases p) (auto simp: rw_eval split: if_splits)
next
  case (Rw_read_drop p)
  with assms show ?thesis by (cases p) (auto simp: rw_eval split: if_splits)
qed (use assms in \<open>simp add: rw_eval\<close>)

text \<open>Thread \<open>t\<close> is about to poison the lock, or it is poisoned.\<close>

definition rw_will_poison :: "nat \<Rightarrow> ('a rwlock, rw_thread) sys \<Rightarrow> bool" where
  "rw_will_poison t s \<longleftrightarrow> rw_poisoned (glob s) \<or>
     rw_pc (locs s ! t) = Rw_write_drop WD_poison \<and> rw_panicking (locs s ! t)"

lemma rw_will_poison_run:
  "run (rw_prog F checks) as s = Some s' \<Longrightarrow> rw_will_poison t s \<Longrightarrow>
    Rw_op_clear_poison \<notin> (call \<circ> snd) ` set as \<Longrightarrow> rw_will_poison t s'"
proof (induction as arbitrary: s)
  case (Cons a as)
  then obtain s1 where s1: "sys_step (rw_prog F checks) a s = Some s1" "run (rw_prog F checks) as s1 = Some s'"
    by (auto split: option.splits)
  from s1(1) obtain g' l' where here: "fst a < length (locs s)"
    and p: "rw_prog F checks (snd a) (fst a) (glob s) (locs s ! fst a) = Some (g', l')"
    and eq: "s1 = \<lparr>glob = g', locs = (locs s)[fst a := l']\<rparr>" by (rule sys_step_SomeE)
  have "call (snd a) \<noteq> Rw_op_clear_poison" using Cons.prems(3) by auto
  then have kept: "rw_poisoned (glob s) \<Longrightarrow> rw_poisoned g'" using rw_step_poison [OF p] by blast
  have "rw_will_poison t s1"
  proof (cases "fst a = t \<and> \<not> rw_poisoned (glob s)")
    case True
    with Cons.prems(2) p show ?thesis by (auto simp: rw_will_poison_def eq rw_eval)
  next
    case False
    with Cons.prems(2) kept show ?thesis by (auto simp: rw_will_poison_def eq)
  qed
  with Cons.IH [OF s1(2)] Cons.prems(3) show ?case by simp
qed simp

lemma rw_poison_kept:
  "run (rw_prog F checks) as s = Some s' \<Longrightarrow> Rw_op_clear_poison \<notin> (call \<circ> snd) ` set as \<Longrightarrow>
    rw_poisoned (glob s) \<Longrightarrow> rw_poisoned (glob s')"
proof (induction as arbitrary: s)
  case (Cons a as)
  then obtain s1 where s1: "sys_step (rw_prog F checks) a s = Some s1" "run (rw_prog F checks) as s1 = Some s'"
    by (auto split: option.splits)
  from s1(1) have "rw_poisoned (glob s1)"
    using Cons.prems(2,3) by (auto elim!: sys_step_SomeE simp: rw_step_poison)
  with Cons.IH [OF s1(2)] Cons.prems(2) show ?case by simp
qed simp

lemma rw_panic_poisons:
  assumes "reachable (rw_prog F checks) rw_start s" and run: "run (rw_prog F checks) as s = Some s'"
    and clear: "Rw_op_clear_poison \<notin> (call \<circ> snd) ` set as"
    and as: "as = xs @ (t, e) # ys" and s1: "run (rw_prog F checks) xs s = Some s1"
    and idle: "rw_pc (locs s1 ! t) = Rw_idle" "rw_guard (locs s1 ! t) = WriteGuard" "call e = Rw_op_panic"
  shows "rw_writes (locs s' ! t) \<or> rw_poisoned (glob s')"
proof -
  from run as s1 obtain s2 where s2: "sys_step (rw_prog F checks) (t, e) s1 = Some s2"
    and ys: "run (rw_prog F checks) ys s2 = Some s'" by (auto simp: run_append split: option.splits)
  from s2 idle have t: "t < length (locs s1)" and "rw_will_poison t s2"
    by (auto elim!: sys_step_SomeE simp: rw_will_poison_def rw_eval)
  with rw_will_poison_run [OF ys] clear as have will: "rw_will_poison t s'" by auto
  have "length (locs s') = length (locs s1)"
    using s2 ys run_length sys_step_length by metis
  then have "rw_ok (rw_id (glob s')) (locs s' ! t)"
    using rw.reachable_inv [OF run_reachable [OF assms(1) run]] t by (auto simp: rw_inv_def each_def)
  with will show ?thesis by (auto simp: rw_will_poison_def rw_ok_def rw_writes_def)
qed

lemma rw_poisoner:
  assumes "reachable (rw_prog F checks) rw_start s" and "sys_step (rw_prog F checks) (t, e) s = Some s'"
    and "\<not> rw_poisoned (glob s)" and "rw_poisoned (glob s')"
  shows "rw_guard (locs s ! t) = WriteGuard \<and> rw_panicking (locs s ! t)"
proof -
  from assms(2) obtain g' l' where here: "t < length (locs s)"
    and p: "rw_prog F checks e t (glob s) (locs s ! t) = Some (g', l')" and "glob s' = g'"
    by (auto elim: sys_step_SomeE)
  with assms(3,4) rw_step_poison [OF p]
  have at: "rw_pc (locs s ! t) = Rw_write_drop WD_poison" "rw_panicking (locs s ! t)" by auto
  then show ?thesis
    using rw.reachable_inv [OF assms(1)] here by (auto simp: rw_inv_def each_def rw_ok_def)
qed

text \<open>
  C37: In every interleaving, only a thread that holds the write
  guard and is panicking takes the step that poisons the lock: neither a drop without a panic, nor the panic of a reader or of a thread
  without a guard poisons it.  Conversely, as long as nobody calls \<open>clear_poison\<close>, a poisoned lock stays
  poisoned, and when a thread panics with the write guard the lock is poisoned by the
  time the thread has released it, so every later owner finds the poison.\<close>

theorem rw_poisoning:
  assumes "reachable (rw_prog F checks) rw_start s" and "run (rw_prog F checks) as s = Some s'"
  shows "(\<forall>xs t e ys s1 s2. as = xs @ (t, e) # ys \<and> run (rw_prog F checks) xs s = Some s1 \<and>
        sys_step (rw_prog F checks) (t, e) s1 = Some s2 \<and> \<not> rw_poisoned (glob s1) \<and> rw_poisoned (glob s2) \<longrightarrow>
      rw_guard (locs s1 ! t) = WriteGuard \<and> rw_panicking (locs s1 ! t)) \<and>
    (Rw_op_clear_poison \<notin> (call \<circ> snd) ` set as \<longrightarrow>
      (rw_poisoned (glob s) \<longrightarrow> rw_poisoned (glob s')) \<and>
      (\<forall>xs t e ys s1. as = xs @ (t, e) # ys \<and> run (rw_prog F checks) xs s = Some s1 \<and>
        rw_pc (locs s1 ! t) = Rw_idle \<and> rw_guard (locs s1 ! t) = WriteGuard \<and> call e = Rw_op_panic \<longrightarrow>
        rw_writes (locs s' ! t) \<or> rw_poisoned (glob s')))"
  using rw_poisoner [OF run_reachable [OF assms(1)]] rw_poison_kept [OF assms(2)] rw_panic_poisons [OF assms]
  by blast

text \<open>Thread 0 panics with the write guard while thread 1 tries to read.\<close>

theorem rw_poisoning_witness:
  "\<exists>s'. run (rw_prog fifo_futex True) ([(0, quiet Rw_op_panic), (1, quiet Rw_op_try_read)] @
       replicate 4 (0, quiet Rw_op_panic)) rw_write_held = Some s' \<and>
    rw_poisoned (glob s') \<and> val (rw_state (glob s')) = 0"
proof -
  let ?as = "[(0, quiet Rw_op_panic), (1, quiet Rw_op_try_read)] @ replicate 4 (0, quiet Rw_op_panic)"
  obtain s' where run: "run (rw_prog fifo_futex True) ?as rw_write_held = Some s'"
    and free: "val (rw_state (glob s')) = 0" "\<not> rw_writes (locs s' ! 0)"
    by (simp add: rw_run_eval rw_write_held_def rw_writes_def)
  have "Rw_op_clear_poison \<notin> (call \<circ> snd) ` set ?as" by auto
  moreover have "?as = [] @ (0, quiet Rw_op_panic) # ((1, quiet Rw_op_try_read) # replicate 4 (0, quiet Rw_op_panic)) \<and>
      run (rw_prog fifo_futex True) [] rw_write_held = Some rw_write_held \<and>
      rw_pc (locs rw_write_held ! 0) = Rw_idle \<and> rw_guard (locs rw_write_held ! 0) = WriteGuard \<and>
      call (quiet Rw_op_panic :: nat rw_op env) = Rw_op_panic"
    by (simp add: rw_write_held_def rw_fresh_def)
  ultimately have "rw_writes (locs s' ! 0) \<or> rw_poisoned (glob s')"
    using rw_poisoning [OF rw_write_held_reachable run] by blast
  with run free show ?thesis by blast
qed

text \<open>
  The limit of readers is not checked again after waiting.  A reader that wakes up and finds the state at
  \<open>u32::MAX - 1\<close> adds 2 to it: with overflow checks it panics, without them the state wraps to 0
  and the lock looks free although it has its maximal number of readers.\<close>

theorem rw_read_overflow:
  assumes "t < length (locs s)" and "rw_pc (locs s ! t) = Rw_read R_reload"
    and "rw_guard (locs s ! t) = NoGuard" and "val (rw_state (glob s)) = U32_MAX - 1"
  shows "\<exists>s'. run (rw_prog F checks) (replicate 3 (t, quiet Rw_op_read)) s = Some s' \<and>
    (if checks then rw_pc (locs s' ! t) = Rw_dead \<and> glob s' = glob s
     else rw_reads (locs s' ! t) \<and> val (rw_state (glob s')) = 0)"
proof -
  have "unat (U32_MAX - 1) = 2 ^ 32 - 2" and "U32_MAX - 1 + 2 = (0 :: u32)"
    using unat_minus_1 [of U32_MAX] by (simp_all add: unat_U32_MAX)
  with assms show ?thesis
    by (simp add: sys_step_def rw_prog_def replicate_numeral rw_reads_def and_1_eq_1)
qed

theorem rw_read_overflow_witness:
  "\<exists>s'. run (rw_prog fifo_futex False) (replicate 3 (0, quiet Rw_op_read))
      \<lparr>glob = rw_set_state (U32_MAX - 1) (snd (rw_new 0 ())),
        locs = [(rw_fresh {})\<lparr>rw_pc := Rw_read R_reload\<rparr>]\<rparr> = Some s' \<and>
    val (rw_state (glob s')) = 0"
  using rw_read_overflow [of 0 "\<lparr>glob = rw_set_state (U32_MAX - 1) (snd (rw_new 0 ())),
      locs = [(rw_fresh {})\<lparr>rw_pc := Rw_read R_reload\<rparr>]\<rparr>" fifo_futex False]
  by (auto simp: rw_fresh_def)

end
