(* ===== verification/CondVar.thy ===== *)
theory CondVar
  imports MutexV1 Embedding
begin

text \<open>
  The condition variable of \<open>src/condvar.rs\<close>, used with the mutex of \<open>src/mutex_v1.rs\<close>.  Where
  the source calls an operation of the mutex, the thread runs the program of the mutex until
  the operation has returned, so the whole interleaving of the mutex is inside the model.
\<close>

section \<open>State\<close>

record condvar =
  cv_counter :: "u32 futex"
  cv_waiting :: u32

definition cv_new :: condvar where
  "cv_new = \<lparr>cv_counter = futex_new 0, cv_waiting = 0\<rparr>"

record 'a cv_state =
  cv_var :: condvar
  cv_mutex :: "'a mutex1"

section \<open>Operations\<close>

text \<open>
  \<open>CW_unlock\<close> and \<open>CW_lock\<close> stay until the mutex operation has returned; \<open>CW_unwrap\<close> is the
  panic of \<open>unwrap\<close>, which drops the guard inside the error.
\<close>

datatype cv_wait_pc =
    CW_load | CW_add u32 | CW_unlock u32 | CW_wait u32 | CW_blocked | CW_sub | CW_lock | CW_unwrap

fun cv_wait_step ::
  "futex_api \<Rightarrow> (nat \<Rightarrow> usize) \<Rightarrow> 'op env \<Rightarrow> nat \<Rightarrow> 'a cv_state \<Rightarrow> m1_thread \<Rightarrow> cv_wait_pc \<Rightarrow>
     ('a cv_state \<times> m1_thread \<times> (cv_wait_pc, unit) ctl) option" where
  "cv_wait_step F tid e t g m CW_load = Some (g, m, Next (CW_add (val (cv_counter (cv_var g)))))"
| "cv_wait_step F tid e t g m (CW_add state) =
     Some (g\<lparr>cv_var := (cv_var g)\<lparr>cv_waiting := cv_waiting (cv_var g) + 1\<rparr>\<rparr>, m, Next (CW_unlock state))"
| "cv_wait_step F tid e t g m (CW_unlock state) =
     (case m1_prog tid (with_call M1_op_unlock e) t (cv_mutex g) m of
        None \<Rightarrow> None
      | Some (x, m') \<Rightarrow> Some (g\<lparr>cv_mutex := x\<rparr>, m',
          Next (if m1_pc m' = M1_idle then CW_wait state else CW_unlock state)))"
| "cv_wait_step F tid e t g m (CW_wait state) =
     (case futex_wait F e t state (cv_counter (cv_var g)) of
        (True, f) \<Rightarrow> Some (g\<lparr>cv_var := (cv_var g)\<lparr>cv_counter := f\<rparr>\<rparr>, m, Next CW_blocked)
      | (False, _) \<Rightarrow> Some (g, m, Next CW_sub))"
| "cv_wait_step F tid e t g m CW_blocked =
     (case futex_return F e t (cv_counter (cv_var g)) of
        None \<Rightarrow> None
      | Some f \<Rightarrow> Some (g\<lparr>cv_var := (cv_var g)\<lparr>cv_counter := f\<rparr>\<rparr>, m, Next CW_sub))"
| "cv_wait_step F tid e t g m CW_sub =
     Some (g\<lparr>cv_var := (cv_var g)\<lparr>cv_waiting := cv_waiting (cv_var g) - 1\<rparr>\<rparr>, m, Next CW_lock)"
| "cv_wait_step F tid e t g m CW_lock =
     (case m1_prog tid (with_call M1_op_lock e) t (cv_mutex g) m of
        None \<Rightarrow> None
      | Some (x, m') \<Rightarrow> Some (g\<lparr>cv_mutex := x\<rparr>, m',
          if m1_pc m' \<noteq> M1_idle then Next CW_lock
          else if m1_last m' = Some (Inr ()) then Ret ()
          else Next CW_unwrap))"
| "cv_wait_step F tid e t g m CW_unwrap =
     (case m1_prog tid (with_call M1_op_panic e) t (cv_mutex g) m of
        None \<Rightarrow> None
      | Some (x, m') \<Rightarrow> Some (g\<lparr>cv_mutex := x\<rparr>, m',
          if m1_pc m' = M1_dead then Panic else Next CW_unwrap))"

datatype cv_one_pc = CO_add | CO_wake

definition cv_bump :: "condvar \<Rightarrow> condvar" where
  "cv_bump v = v\<lparr>cv_counter := (cv_counter v)\<lparr>val := val (cv_counter v) + 1\<rparr>\<rparr>"

fun cv_notify_one_step ::
  "futex_api \<Rightarrow> 'op env \<Rightarrow> condvar \<Rightarrow> cv_one_pc \<Rightarrow> condvar \<times> (cv_one_pc, unit) ctl" where
  "cv_notify_one_step F e v CO_add = (cv_bump v, Next CO_wake)"
| "cv_notify_one_step F e v CO_wake =
     (v\<lparr>cv_counter := futex_wake_one F e (cv_counter v)\<rparr>, Ret ())"

datatype cv_all_pc = CA_add | CA_load | CA_wake

fun cv_notify_all_step ::
  "futex_api \<Rightarrow> 'op env \<Rightarrow> condvar \<Rightarrow> cv_all_pc \<Rightarrow> condvar \<times> (cv_all_pc, unit) ctl" where
  "cv_notify_all_step F e v CA_add = (cv_bump v, Next CA_load)"
| "cv_notify_all_step F e v CA_load = (v, if cv_waiting v \<noteq> 0 then Next CA_wake else Ret ())"
| "cv_notify_all_step F e v CA_wake =
     (v\<lparr>cv_counter := futex_wake_all F e (cv_counter v)\<rparr>, Ret ())"

section \<open>Client threads\<close>

datatype 'a cv_op = CV_op_mutex "'a m1_op" | CV_op_wait | CV_op_notify_one | CV_op_notify_all

datatype cv_pc = CV_client | CV_wait cv_wait_pc | CV_one cv_one_pc | CV_all cv_all_pc

record cv_thread =
  cv_pc :: cv_pc
  cv_m1 :: m1_thread

text \<open>A step of the mutex on behalf of the client.\<close>

definition cv_mutex_step ::
  "(nat \<Rightarrow> usize) \<Rightarrow> 'op env \<Rightarrow> 'a m1_op \<Rightarrow> nat \<Rightarrow> 'a cv_state \<Rightarrow> cv_thread \<Rightarrow> ('a cv_state \<times> cv_thread) option" where
  "cv_mutex_step tid e op t g l =
     (case m1_prog tid (with_call op e) t (cv_mutex g) (cv_m1 l) of
        None \<Rightarrow> None
      | Some (x, m') \<Rightarrow> Some (g\<lparr>cv_mutex := x\<rparr>, l\<lparr>cv_m1 := m'\<rparr>))"

text \<open>\<open>wait\<close> takes the guard of its caller by value, so only a thread with a guard calls it.\<close>

fun cv_call :: "(nat \<Rightarrow> usize) \<Rightarrow> 'op env \<Rightarrow> 'a cv_op \<Rightarrow> nat \<Rightarrow> 'a cv_state \<Rightarrow> cv_thread \<Rightarrow>
    ('a cv_state \<times> cv_thread) option" where
  "cv_call tid e (CV_op_mutex op) t g l = cv_mutex_step tid e op t g l"
| "cv_call tid e CV_op_wait t g l =
     (if m1_guard (cv_m1 l) then Some (g, l\<lparr>cv_pc := CV_wait CW_load\<rparr>) else None)"
| "cv_call tid e CV_op_notify_one t g l = Some (g, l\<lparr>cv_pc := CV_one CO_add\<rparr>)"
| "cv_call tid e CV_op_notify_all t g l = Some (g, l\<lparr>cv_pc := CV_all CA_add\<rparr>)"

definition cv_prog :: "futex_api \<Rightarrow> (nat \<Rightarrow> usize) \<Rightarrow> ('a cv_op, 'a cv_state, cv_thread) program" where
  "cv_prog F tid e t g l =
     (case cv_pc l of
        CV_client \<Rightarrow>
          (if m1_pc (cv_m1 l) = M1_idle then cv_call tid e (call e) t g l
           else cv_mutex_step tid e M1_op_lock t g l)
      | CV_wait p \<Rightarrow>
          (case cv_wait_step F tid e t g (cv_m1 l) p of
             None \<Rightarrow> None
           | Some (g', m', c) \<Rightarrow> Some (g', \<lparr>cv_pc = (case c of Next p' \<Rightarrow> CV_wait p' | _ \<Rightarrow> CV_client),
               cv_m1 = m'\<rparr>))
      | CV_one p \<Rightarrow>
          (case cv_notify_one_step F e (cv_var g) p of
             (v, c) \<Rightarrow> Some (g\<lparr>cv_var := v\<rparr>,
               l\<lparr>cv_pc := (case c of Next p' \<Rightarrow> CV_one p' | _ \<Rightarrow> CV_client)\<rparr>))
      | CV_all p \<Rightarrow>
          (case cv_notify_all_step F e (cv_var g) p of
             (v, c) \<Rightarrow> Some (g\<lparr>cv_var := v\<rparr>,
               l\<lparr>cv_pc := (case c of Next p' \<Rightarrow> CV_all p' | _ \<Rightarrow> CV_client)\<rparr>)))"

definition cv_idle :: cv_thread where
  "cv_idle = \<lparr>cv_pc = CV_client, cv_m1 = m1_fresh\<rparr>"

definition cv_start :: "futex_api \<Rightarrow> (nat \<Rightarrow> usize) \<Rightarrow> ('a cv_state, cv_thread) sys \<Rightarrow> bool" where
  "cv_start F tid s \<longleftrightarrow>
     (\<exists>n d tokens. s = \<lparr>glob = \<lparr>cv_var = cv_new, cv_mutex = (m1_new d)\<lparr>park_tokens := tokens\<rparr>\<rparr>,
        locs = replicate n cv_idle\<rparr> \<and> tid_ok tid n) \<and> futex_ok F"

section \<open>The mutex inside\<close>

text \<open>The mutex and what the threads do with it.\<close>

definition cv_mutex_view :: "('a cv_state, cv_thread) sys \<Rightarrow> ('a mutex1, m1_thread) sys" where
  "cv_mutex_view s = sys_view cv_mutex cv_m1 s"

lemma cv_prog_simulates:
  assumes "cv_prog F tid e t g l = Some (g', l')"
  shows "cv_mutex g' = cv_mutex g \<and> cv_m1 l' = cv_m1 l \<or>
    (\<exists>op. m1_prog tid (with_call op e) t (cv_mutex g) (cv_m1 l) = Some (cv_mutex g', cv_m1 l'))"
proof (cases "cv_pc l")
  case CV_client
  with assms show ?thesis
    by (cases "call e")
      (auto simp: cv_prog_def cv_mutex_step_def split: if_splits option.splits)
next
  case (CV_wait p)
  with assms show ?thesis
    by (cases p) (auto simp: cv_prog_def split: if_splits option.splits prod.splits bool.splits)
next
  case (CV_one p)
  with assms show ?thesis by (cases p) (auto simp: cv_prog_def)
next
  case (CV_all p)
  with assms show ?thesis by (cases p) (auto simp: cv_prog_def)
qed

lemma cv_start_view: "cv_start F tid s \<Longrightarrow> m1_start tid (sys_view cv_mutex cv_m1 s)"
  unfolding cv_start_def m1_start_def sys_view_def cv_idle_def by fastforce

interpretation cv_inner: embedded_lock "cv_prog F tid" "cv_start F tid" "m1_prog tid" "m1_start tid"
    cv_mutex cv_m1 m1_owns m1_data
  for F :: futex_api and tid :: "nat \<Rightarrow> usize"
  by unfold_locales (use cv_prog_simulates cv_start_view in blast)+

lemma cv_mutex_reachable:
  "reachable (cv_prog F tid) (cv_start F tid) s \<Longrightarrow>
    reachable (m1_prog tid) (m1_start tid) (cv_mutex_view s)"
  unfolding cv_mutex_view_def by (rule cv_inner.view_reachable)

section \<open>Invariant\<close>

text \<open>The threads counted in \<open>waiting\<close>, and what each point of \<open>wait\<close> says of the thread's guard.\<close>

fun cv_pc_waits :: "cv_pc \<Rightarrow> bool" where
  "cv_pc_waits (CV_wait p) = (p \<notin> {CW_load, CW_lock, CW_unwrap} \<and> (\<forall>n. p \<noteq> CW_add n))"
| "cv_pc_waits _ = False"

definition cv_waits :: "cv_thread \<Rightarrow> bool" where
  "cv_waits l \<longleftrightarrow> cv_pc_waits (cv_pc l)"

fun cv_wait_ok :: "cv_wait_pc \<Rightarrow> m1_thread \<Rightarrow> bool" where
  "cv_wait_ok CW_load m = (m1_pc m = M1_idle \<and> m1_guard m)"
| "cv_wait_ok (CW_add _) m = (m1_pc m = M1_idle \<and> m1_guard m)"
| "cv_wait_ok (CW_unlock _) m =
     (m1_pc m = M1_idle \<and> m1_guard m \<or>
      (\<exists>p. m1_pc m = M1_drop p \<and> (m1_guard m \<longleftrightarrow> p \<in> {M1d_poison, M1d_store})))"
| "cv_wait_ok CW_lock m = (\<not> m1_guard m \<and> (m1_pc m = M1_idle \<or> (\<exists>p. m1_pc m = M1_lock p)))"
| "cv_wait_ok CW_unwrap m = True"
| "cv_wait_ok _ m = (m1_pc m = M1_idle \<and> \<not> m1_guard m)"

text \<open>A thread that panics drops its guard and is dead.\<close>

definition m1_alive :: "m1_thread \<Rightarrow> bool" where
  "m1_alive m \<longleftrightarrow> (m1_panicking m \<longrightarrow> m1_pc m = M1_dead \<or> (\<exists>p. m1_pc m = M1_drop p))"

fun cv_local_ok :: "cv_pc \<Rightarrow> m1_thread \<Rightarrow> bool" where
  "cv_local_ok (CV_wait p) m = (cv_wait_ok p m \<and> m1_alive m \<and> (m1_panicking m \<longrightarrow> p = CW_unwrap))"
| "cv_local_ok p m = m1_alive m"

definition cv_inv :: "futex_api \<Rightarrow> ('a cv_state, cv_thread) sys \<Rightarrow> bool" where
  "cv_inv F s \<longleftrightarrow>
     futex_ok F \<and> each (\<lambda>t l. cv_local_ok (cv_pc l) (cv_m1 l)) (locs s) \<and>
     cv_waiting (cv_var (glob s)) = of_nat (cnt cv_waits (locs s)) \<and>
     set (waiters (cv_counter (cv_var (glob s)))) \<subseteq> {..<length (locs s)} \<and>
     each (\<lambda>t l. t \<in> set (waiters (cv_counter (cv_var (glob s)))) \<longrightarrow> cv_pc l = CV_wait CW_blocked) (locs s)"

definition cv_effect :: "nat \<Rightarrow> condvar \<Rightarrow> cv_thread \<Rightarrow> condvar \<Rightarrow> cv_thread \<Rightarrow> bool" where
  "cv_effect t v l v' l' \<longleftrightarrow>
     cv_waiting v' + of_bool (cv_waits l) = cv_waiting v + of_bool (cv_waits l') \<and>
     set (waiters (cv_counter v')) \<subseteq> insert t (set (waiters (cv_counter v))) \<and>
     (t \<in> set (waiters (cv_counter v')) \<longrightarrow> cv_pc l' = CV_wait CW_blocked)"

lemma m1_prog_unlocking:
  assumes "m1_prog tid (with_call M1_op_unlock e) t g m = Some (g', m')"
    and "cv_wait_ok (CW_unlock n) m" and "\<not> m1_panicking m"
  shows "\<not> m1_panicking m' \<and> (cv_wait_ok (CW_unlock n) m' \<and> m1_pc m' \<noteq> M1_idle \<or>
    m1_pc m' = M1_idle \<and> \<not> m1_guard m')"
proof (cases "m1_pc m")
  case (M1_drop p)
  show ?thesis
  proof (cases p)
    case (M1d_dequeue q)
    with assms M1_drop show ?thesis
      by (cases q) (auto simp: m1_eval split: if_splits list.splits option.splits)
  qed (use assms M1_drop in \<open>auto simp: m1_eval\<close>)
qed (use assms in \<open>auto simp: m1_eval\<close>)

lemma m1_prog_relocking:
  assumes "m1_prog tid (with_call M1_op_lock e) t g m = Some (g', m')"
    and "cv_wait_ok CW_lock m" and "\<not> m1_panicking m"
  shows "\<not> m1_panicking m' \<and> (cv_wait_ok CW_lock m' \<and> m1_pc m' \<noteq> M1_idle \<or>
    m1_pc m' = M1_idle \<and> (m1_last m' = Some (Inr ()) \<longrightarrow> m1_guard m'))"
proof (cases "m1_pc m")
  case (M1_lock p)
  show ?thesis
  proof (cases p)
    case (M1_enqueue q)
    with assms M1_lock show ?thesis by (cases q) (auto simp: m1_eval split: if_splits)
  qed (use assms M1_lock in \<open>auto simp: m1_eval split: if_splits\<close>)
qed (use assms in \<open>auto simp: m1_eval\<close>)

lemma m1_prog_alive:
  assumes "m1_prog tid e t g m = Some (g', m')" and "m1_alive m"
  shows "m1_alive m'"
proof (cases "m1_pc m")
  case M1_idle
  with assms show ?thesis by (cases "call e") (auto simp: m1_eval m1_alive_def split: if_splits)
qed (use assms in \<open>auto simp: m1_eval m1_alive_def Let_def split: option.splits prod.splits ctl.splits\<close>)

lemma m1_alive_idle: "m1_alive m \<Longrightarrow> m1_pc m = M1_idle \<Longrightarrow> \<not> m1_panicking m"
  by (auto simp: m1_alive_def)

lemma cv_local_alive: "cv_local_ok p m \<Longrightarrow> m1_alive m"
  by (cases p) auto

lemma cv_prog_local:
  assumes "cv_prog F tid e t g l = Some (g', l')" and "cv_local_ok (cv_pc l) (cv_m1 l)"
  shows "cv_local_ok (cv_pc l') (cv_m1 l')"
proof (cases "cv_pc l")
  case CV_client
  have "m1_alive (cv_m1 l')"
    using cv_prog_simulates [OF assms(1)] m1_prog_alive cv_local_alive [OF assms(2)] by metis
  then show ?thesis
    using assms CV_client m1_alive_idle [of "cv_m1 l"]
    by (cases "call e") (auto simp: cv_prog_def cv_mutex_step_def split: if_splits option.splits)
next
  case (CV_wait p)
  show ?thesis
  proof (cases p)
    case (CW_unlock n)
    with assms CV_wait obtain x m' where step: "m1_prog tid (with_call M1_op_unlock e) t (cv_mutex g) (cv_m1 l) = Some (x, m')"
      and l': "l' = \<lparr>cv_pc = CV_wait (if m1_pc m' = M1_idle then CW_wait n else CW_unlock n), cv_m1 = m'\<rparr>"
      by (auto simp: cv_prog_def split: option.splits)
    have "m1_alive m'" using m1_prog_alive [OF step] assms(2) CV_wait by simp
    with m1_prog_unlocking [OF step, of n] assms(2) CV_wait CW_unlock l' show ?thesis by auto
  next
    case CW_lock
    with assms CV_wait obtain x m' where step: "m1_prog tid (with_call M1_op_lock e) t (cv_mutex g) (cv_m1 l) = Some (x, m')"
      and l': "l' = \<lparr>cv_pc = (if m1_pc m' \<noteq> M1_idle then CV_wait CW_lock
        else if m1_last m' = Some (Inr ()) then CV_client else CV_wait CW_unwrap), cv_m1 = m'\<rparr>"
      by (auto simp: cv_prog_def split: option.splits)
    have "m1_alive m'" using m1_prog_alive [OF step] assms(2) CV_wait by simp
    with m1_prog_relocking [OF step] assms(2) CV_wait CW_lock l' show ?thesis by auto
  next
    case CW_unwrap
    then show ?thesis
      using assms CV_wait m1_prog_alive by (auto simp: cv_prog_def split: option.splits if_splits)
  qed (use assms CV_wait in \<open>auto simp: cv_prog_def split: option.splits prod.splits bool.splits\<close>)
next
  case (CV_one p)
  with assms show ?thesis by (cases p) (auto simp: cv_prog_def)
next
  case (CV_all p)
  with assms show ?thesis by (cases p) (auto simp: cv_prog_def)
qed

lemma cv_prog_effect:
  assumes F: "futex_ok F" and step: "cv_prog F tid e t g l = Some (g', l')"
    and ok: "t \<in> set (waiters (cv_counter (cv_var g))) \<longrightarrow> cv_pc l = CV_wait CW_blocked"
  shows "cv_effect t (cv_var g) l (cv_var g') l'"
proof (cases "cv_pc l")
  case CV_client
  with step ok show ?thesis
    by (cases "call e") (auto simp: cv_prog_def cv_mutex_step_def cv_effect_def cv_waits_def
      split: if_splits option.splits)
next
  case (CV_wait p)
  with step ok show ?thesis
    by (cases p) (auto simp: cv_prog_def cv_effect_def cv_waits_def futex_return_def
      dest: futex_wait_blocked [OF F] futex_wait_passed split: if_splits option.splits prod.splits bool.splits)
next
  case (CV_one p)
  with step ok futex_ok_wake_one [OF F, of "cv_counter (cv_var g)" e]
    futex_ok_wake_one_empty [OF F, of "cv_counter (cv_var g)" e]
  show ?thesis
    by (cases p; cases "waiters (cv_counter (cv_var g)) = []")
      (auto simp: cv_prog_def cv_effect_def cv_waits_def cv_bump_def dest: notin_set_remove1)
next
  case (CV_all p)
  with step ok show ?thesis
    by (cases p) (auto simp: cv_prog_def cv_effect_def cv_waits_def cv_bump_def
      futex_ok_wake_all [OF F] split: if_splits)
qed

lemma cv_inv_step:
  assumes inv: "cv_inv F \<lparr>glob = g, locs = ls\<rparr>" and t: "t < length ls"
    and step: "cv_prog F tid e t g (ls ! t) = Some (g', l')"
  shows "cv_inv F \<lparr>glob = g', locs = ls[t := l']\<rparr>"
proof -
  let ?W = "\<lambda>g. set (waiters (cv_counter (cv_var g)))"
  from inv have F: "futex_ok F" and loc: "each (\<lambda>t l. cv_local_ok (cv_pc l) (cv_m1 l)) ls"
    and count: "cv_waiting (cv_var g) = of_nat (cnt cv_waits ls)" and range: "?W g \<subseteq> {..<length ls}"
    and blocked: "each (\<lambda>t l. t \<in> ?W g \<longrightarrow> cv_pc l = CV_wait CW_blocked) ls"
    by (simp_all add: cv_inv_def)
  from cv_prog_effect [OF F step] eachD [OF blocked t]
  have count': "cv_waiting (cv_var g') + of_bool (cv_waits (ls ! t)) =
      cv_waiting (cv_var g) + of_bool (cv_waits l')"
    and sub: "?W g' \<subseteq> insert t (?W g)" and here: "t \<in> ?W g' \<longrightarrow> cv_pc l' = CV_wait CW_blocked"
    by (auto simp: cv_effect_def)
  have "cv_waiting (cv_var g') = of_nat (cnt cv_waits (ls[t := l']))"
    using count' count cnt_update_word [OF t, of cv_waits l', where 'a = 32]
    by (metis add_right_cancel)
  moreover have "each (\<lambda>t l. cv_local_ok (cv_pc l) (cv_m1 l)) (ls[t := l'])"
    using cv_prog_local [OF step] eachD [OF loc t] by (intro each_update_same [OF loc t]) simp
  moreover have "each (\<lambda>t l. t \<in> ?W g' \<longrightarrow> cv_pc l = CV_wait CW_blocked) (ls[t := l'])"
    using sub here by (intro each_update [OF blocked t]) auto
  moreover have "?W g' \<subseteq> {..<length (ls[t := l'])}" using sub range t by auto
  ultimately show ?thesis using F by (simp add: cv_inv_def)
qed

lemma cv_inv_start: "cv_start F tid s \<Longrightarrow> cv_inv F s"
  by (auto simp: cv_start_def cv_inv_def cv_new_def cv_idle_def m1_fresh_def m1_alive_def
      each_replicate cnt_replicate cv_waits_def)

interpretation cv: invariant_system "cv_prog F tid" "cv_start F tid" "cv_inv F"
  for F :: futex_api and tid :: "nat \<Rightarrow> usize"
  by unfold_locales (fact cv_inv_start, fact cv_inv_step)

text \<open>A thread owns the mutex, and the data is the data of the mutex.\<close>

abbreviation cv_owns :: "cv_thread \<Rightarrow> bool" where
  "cv_owns l \<equiv> m1_owns (cv_m1 l)"

abbreviation cv_data :: "'a cv_state \<Rightarrow> 'a" where
  "cv_data g \<equiv> m1_data (cv_mutex g)"

section \<open>Properties\<close>

text \<open>
  C32: When \<open>wait\<close> ends, the thread owns the mutex again with the result \<open>Ok\<close>;
  otherwise it has panicked in the \<open>unwrap\<close>, dropped the guard and is dead.\<close>

theorem cv_wait_returns_guard:
  assumes "reachable (cv_prog F tid) (cv_start F tid) s" and "t < length (locs s)"
    and "cv_pc (locs s ! t) = CV_wait p" and "sys_step (cv_prog F tid) (t, e) s = Some s'"
    and "cv_pc (locs s' ! t) = CV_client"
  shows "m1_guard (cv_m1 (locs s' ! t)) \<and> m1_last (cv_m1 (locs s' ! t)) = Some (Inr ()) \<and>
      m1_state (cv_mutex (glob s')) = tid t \<or>
    m1_pc (cv_m1 (locs s' ! t)) = M1_dead"
proof -
  from assms(4) obtain g' l' where
    step: "cv_prog F tid e t (glob s) (locs s ! t) = Some (g', l')"
    and s': "s' = \<lparr>glob = g', locs = (locs s)[t := l']\<rparr>"
    by (auto elim: sys_step_SomeE)
  have ok: "cv_wait_ok p (cv_m1 (locs s ! t))" and
    quiet: "p \<noteq> CW_unwrap \<Longrightarrow> \<not> m1_panicking (cv_m1 (locs s ! t))"
    using cv.reachable_inv [OF assms(1)] assms(2,3) by (auto simp: cv_inv_def each_def)
  have "m1_guard (cv_m1 l') \<and> m1_last (cv_m1 l') = Some (Inr ()) \<or> m1_pc (cv_m1 l') = M1_dead"
  proof (cases p)
    case CW_lock
    with step assms(3,5) s' assms(2) obtain x m' where
      m: "m1_prog tid (with_call M1_op_lock e) t (cv_mutex (glob s)) (cv_m1 (locs s ! t)) = Some (x, m')"
      and "l' = \<lparr>cv_pc = CV_client, cv_m1 = m'\<rparr>" "m1_pc m' = M1_idle" "m1_last m' = Some (Inr ())"
      by (auto simp: cv_prog_def split: option.splits if_splits)
    with m1_prog_relocking [OF m] ok quiet CW_lock show ?thesis by auto
  qed (use step assms(2,3,5) s' in \<open>auto simp: cv_prog_def split: option.splits if_splits prod.splits bool.splits\<close>)
  moreover have "m1_guard (cv_m1 l') \<Longrightarrow> m1_state (cv_mutex g') = tid t"
  proof -
    assume "m1_guard (cv_m1 l')"
    moreover have "reachable (cv_prog F tid) (cv_start F tid) s'"
      using assms(1,4) by (rule reachable_step)
    ultimately show ?thesis
      using m1_owner_iff [OF cv_mutex_reachable, of F tid s' t] assms(2)
      by (simp add: s' cv_mutex_view_def sys_view_def m1_owns_def)
  qed
  ultimately show ?thesis using assms(2) s' by auto
qed

text \<open>
  The field \<open>waiting\<close> counts, modulo 2^32, the threads inside \<open>wait\<close> between
  its increment and its decrement, and the threads blocked on the counter are among them:
  with fewer than 2^32 threads it is not 0 while a thread is blocked.\<close>

lemma cv_waiting_pos:
  assumes "reachable (cv_prog F tid) (cv_start F tid) s" and "length (locs s) < 2 ^ 32"
    and "waiters (cv_counter (cv_var (glob s))) \<noteq> []"
  shows "cv_waiting (cv_var (glob s)) \<noteq> 0"
proof -
  from cv.reachable_inv [OF assms(1)] have inv: "cv_inv F s" .
  from assms(3) obtain t where t: "t \<in> set (waiters (cv_counter (cv_var (glob s))))"
    by (cases "waiters (cv_counter (cv_var (glob s)))") auto
  with inv have "t < length (locs s)" and "cv_pc (locs s ! t) = CV_wait CW_blocked"
    by (auto simp: cv_inv_def each_def)
  then have "0 < cnt cv_waits (locs s)" by (intro cnt_pos) (auto simp: cv_waits_def)
  moreover have "cnt cv_waits (locs s) < 2 ^ 32"
    using cnt_le_length [of cv_waits "locs s"] assms(2) by linarith
  ultimately show ?thesis using inv of_nat_u32_0_iff [of "cnt cv_waits (locs s)"]
    by (simp add: cv_inv_def)
qed

theorem cv_waiting_count:
  assumes "reachable (cv_prog F tid) (cv_start F tid) s"
  shows "cv_waiting (cv_var (glob s)) = of_nat (cnt cv_waits (locs s)) \<and>
    (length (locs s) < 2 ^ 32 \<longrightarrow> waiters (cv_counter (cv_var (glob s))) \<noteq> [] \<longrightarrow>
      cv_waiting (cv_var (glob s)) \<noteq> 0)"
  using cv.reachable_inv [OF assms] cv_waiting_pos [OF assms] by (simp add: cv_inv_def)

text \<open>
  \<open>notify_all\<close> returns within four steps of its thread with no thread left
  blocked on the counter: its shortcut, which skips the wake-up when \<open>waiting\<close> is 0, never
  leaves a sleeper behind (with fewer than 2^32 threads).\<close>

theorem cv_notify_all_wakes:
  assumes "reachable (cv_prog F tid) (cv_start F tid) s" and "length (locs s) < 2 ^ 32"
    and "t < length (locs s)" and "cv_pc (locs s ! t) = CV_client"
    and "m1_pc (cv_m1 (locs s ! t)) = M1_idle"
  shows "\<exists>n s'. n \<le> 4 \<and> run (cv_prog F tid) (replicate n (t, quiet CV_op_notify_all)) s = Some s' \<and>
    locs s' = locs s \<and> waiters (cv_counter (cv_var (glob s'))) = [] \<and>
    val (cv_counter (cv_var (glob s'))) = val (cv_counter (cv_var (glob s))) + 1"
proof -
  have F: "futex_ok F" using cv.reachable_inv [OF assms(1)] by (simp add: cv_inv_def)
  have same: "(locs s)[t := (locs s ! t)\<lparr>cv_pc := CV_client\<rparr>] = locs s"
    using assms(4) by (metis (mono_tags) cv_thread.surjective cv_thread.update_convs(1) list_update_id)
  show ?thesis
  proof (cases "cv_waiting (cv_var (glob s)) = 0")
    case True
    then have "waiters (cv_counter (cv_var (glob s))) = []"
      using cv_waiting_pos [OF assms(1,2)] by blast
    with True same assms(3-5) show ?thesis
      by (intro exI [of _ 3]) (simp add: sys_step_def cv_prog_def cv_bump_def replicate_numeral)
  next
    case False
    with same assms(3-5) show ?thesis
      by (intro exI [of _ 4])
        (simp add: sys_step_def cv_prog_def cv_bump_def replicate_numeral futex_ok_wake_all [OF F])
  qed
qed

text \<open>
  A notification that arrives after the waiting thread has released the
  mutex and before it sleeps is not lost: the counter it loaded before releasing the mutex
  has changed, and its \<open>wait\<close> on the futex returns at once.\<close>

theorem cv_notify_before_sleep:
  assumes "futex_ok F" and "t < length (locs s)" and "u < length (locs s)" and "u \<noteq> t"
    and "cv_pc (locs s ! t) = CV_wait (CW_wait (val (cv_counter (cv_var (glob s)))))"
    and "cv_pc (locs s ! u) \<in> {CV_one CO_add, CV_all CA_add}"
  shows "\<exists>s'. run (cv_prog F tid) [(u, e), (t, e')] s = Some s' \<and> cv_pc (locs s' ! t) = CV_wait CW_sub"
proof -
  have "\<not> blocks F c False" for c using assms(1) by (simp add: futex_ok_def)
  then show ?thesis using assms(2-6)
    by (auto simp: sys_step_def cv_prog_def cv_bump_def futex_wait_def)
qed

text \<open>
  When the mutex has been poisoned meanwhile, \<open>wait\<close> does not return an
  error: it panics in \<open>unwrap\<close>, and the guard inside the error is dropped, so that the mutex
  is free (and still poisoned) and the thread is dead.\<close>

theorem cv_poisoned_wait_panics:
  assumes "t < length (locs s)" and "cv_pc (locs s ! t) = CV_wait CW_lock"
    and "m1_pc (cv_m1 (locs s ! t)) = M1_idle" and "\<not> m1_guard (cv_m1 (locs s ! t))"
    and "m1_state (cv_mutex (glob s)) = 0" and "tid t \<noteq> 0" and "m1_poisoned (cv_mutex (glob s))"
    and "\<not> queue_is_accessed (cv_mutex (glob s))" and "m1_queue (cv_mutex (glob s)) = []"
  shows "\<exists>s'. run (cv_prog F tid) (replicate 12 (t, quiet op)) s = Some s' \<and>
    m1_pc (cv_m1 (locs s' ! t)) = M1_dead \<and> cv_pc (locs s' ! t) = CV_client \<and>
    m1_state (cv_mutex (glob s')) = 0 \<and> m1_poisoned (cv_mutex (glob s'))"
  using assms
  by (simp add: sys_step_def cv_prog_def m1_eval replicate_numeral poison_result_def)

text \<open>Two threads: thread 0 locks the mutex and waits; thread 1 has done nothing.\<close>

definition cv_duo :: "(nat cv_state, cv_thread) sys" where
  "cv_duo = \<lparr>glob = \<lparr>cv_var = cv_new, cv_mutex = m1_new 4\<rparr>, locs = [cv_idle, cv_idle]\<rparr>"

definition cv_asleep :: "(nat cv_state, cv_thread) sys" where
  "cv_asleep = \<lparr>glob = \<lparr>cv_var = \<lparr>cv_counter = \<lparr>val = 0, waiters = [0]\<rparr>, cv_waiting = 1\<rparr>,
       cv_mutex = m1_new 4\<rparr>,
     locs = [\<lparr>cv_pc = CV_wait CW_blocked, cv_m1 = m1_fresh\<lparr>m1_last := Some (Inr ())\<rparr>\<rparr>, cv_idle]\<rparr>"

lemmas cv_run_eval = m1_run_eval cv_prog_def cv_mutex_step_def cv_idle_def cv_new_def cv_bump_def
  futex_wait_def futex_return_def futex_new_def futex_wake_all_def with_call_def

lemma cv_duo_reachable: "reachable (cv_prog fifo_futex tid_succ) (cv_start fifo_futex tid_succ) cv_duo"
proof (rule reachable_init)
  have "m1_new 4 = (m1_new (4 :: nat))\<lparr>park_tokens := {}\<rparr>" by (simp add: m1_new_def)
  moreover have "[cv_idle, cv_idle] = replicate 2 cv_idle" by (simp add: replicate_numeral)
  moreover have "tid_ok tid_succ 2" by (rule tid_succ_ok) simp
  ultimately show "cv_start fifo_futex tid_succ cv_duo"
    unfolding cv_start_def cv_duo_def using fifo_futex_ok by metis
qed

lemma cv_asleep_reachable:
  "reachable (cv_prog fifo_futex tid_succ) (cv_start fifo_futex tid_succ) cv_asleep"
  by (rule run_reachable [OF cv_duo_reachable, where as =
      "replicate 5 (0, quiet (CV_op_mutex M1_op_lock)) @ replicate 11 (0, quiet CV_op_wait)"])
    (simp add: cv_run_eval cv_duo_def cv_asleep_def)

text \<open>Thread 1 notifies all, and thread 0 is about to return from its second \<open>lock\<close>.\<close>

definition cv_returning :: "(nat cv_state, cv_thread) sys" where
  "cv_returning = \<lparr>glob = \<lparr>cv_var = \<lparr>cv_counter = \<lparr>val = 1, waiters = []\<rparr>, cv_waiting = 0\<rparr>,
       cv_mutex = (m1_new 4)\<lparr>m1_state := 1\<rparr>\<rparr>,
     locs = [\<lparr>cv_pc = CV_wait CW_lock,
         cv_m1 = m1_fresh\<lparr>m1_last := Some (Inr ()), m1_pc := M1_lock M1_poison\<rparr>\<rparr>, cv_idle]\<rparr>"

lemma cv_returning_reachable:
  "reachable (cv_prog fifo_futex tid_succ) (cv_start fifo_futex tid_succ) cv_returning"
  by (rule run_reachable [OF cv_asleep_reachable, where as =
      "replicate 4 (1, quiet CV_op_notify_all) @ replicate 6 (0, quiet CV_op_wait)"])
    (simp add: cv_run_eval cv_asleep_def cv_returning_def)

text \<open>Concrete instances of the properties with hypotheses.\<close>

lemma cv_wait_returns_guard_witness:
  "\<exists>s'. sys_step (cv_prog fifo_futex tid_succ) (0, quiet CV_op_wait) cv_returning = Some s' \<and>
     (m1_guard (cv_m1 (locs s' ! 0)) \<and> m1_last (cv_m1 (locs s' ! 0)) = Some (Inr ()) \<and>
       m1_state (cv_mutex (glob s')) = tid_succ 0 \<or> m1_pc (cv_m1 (locs s' ! 0)) = M1_dead)"
proof -
  obtain s' where step: "sys_step (cv_prog fifo_futex tid_succ) (0, quiet CV_op_wait) cv_returning = Some s'"
    and pc: "cv_pc (locs s' ! 0) = CV_client"
    by (simp add: cv_run_eval cv_returning_def)
  have "0 < length (locs cv_returning)" "cv_pc (locs cv_returning ! 0) = CV_wait CW_lock"
    by (simp_all add: cv_returning_def)
  from cv_wait_returns_guard [OF cv_returning_reachable this step pc] step show ?thesis by blast
qed

lemma cv_waiting_count_witness:
  "cv_waiting (cv_var (glob cv_asleep)) = of_nat (cnt cv_waits (locs cv_asleep)) \<and>
   cnt cv_waits (locs cv_asleep) = 1"
  using cv_waiting_count [OF cv_asleep_reachable]
  by (simp add: cv_asleep_def cv_waits_def cv_idle_def)

lemma cv_notify_all_wakes_witness:
  "\<exists>n s'. run (cv_prog fifo_futex tid_succ) (replicate n (1, quiet CV_op_notify_all)) cv_asleep = Some s' \<and>
     waiters (cv_counter (cv_var (glob s'))) = []"
proof -
  have "length (locs cv_asleep) < 2 ^ 32" "1 < length (locs cv_asleep)"
    "cv_pc (locs cv_asleep ! 1) = CV_client" "m1_pc (cv_m1 (locs cv_asleep ! 1)) = M1_idle"
    by (simp_all add: cv_asleep_def cv_idle_def m1_fresh_def)
  from cv_notify_all_wakes [OF cv_asleep_reachable this] show ?thesis by blast
qed

lemma cv_notify_before_sleep_witness:
  "\<exists>s'. run (cv_prog fifo_futex tid_succ) [(1, quiet CV_op_wait), (0, quiet CV_op_wait)]
      (cv_duo\<lparr>locs := [cv_idle\<lparr>cv_pc := CV_wait (CW_wait 0)\<rparr>, cv_idle\<lparr>cv_pc := CV_one CO_add\<rparr>]\<rparr>) = Some s' \<and>
    cv_pc (locs s' ! 0) = CV_wait CW_sub"
  by (rule cv_notify_before_sleep) (simp_all add: cv_duo_def cv_new_def)

lemma cv_poisoned_wait_panics_witness:
  "\<exists>s'. run (cv_prog fifo_futex tid_succ) (replicate 12 (0, quiet CV_op_wait))
      \<lparr>glob = \<lparr>cv_var = cv_new, cv_mutex = (m1_new (4 :: nat))\<lparr>m1_poisoned := True\<rparr>\<rparr>,
       locs = [cv_idle\<lparr>cv_pc := CV_wait CW_lock\<rparr>]\<rparr> = Some s' \<and>
    m1_pc (cv_m1 (locs s' ! 0)) = M1_dead \<and> cv_pc (locs s' ! 0) = CV_client \<and>
    m1_state (cv_mutex (glob s')) = 0 \<and> m1_poisoned (cv_mutex (glob s'))"
  by (rule cv_poisoned_wait_panics)
    (simp_all add: cv_idle_def m1_fresh_def m1_new_def tid_succ_def)

text \<open>
  The condition variable and its mutex together are still an atomic lock with data.
  Every run of threads that lock, wait, notify, write and panic, read as the
  sequence of its acquisitions, stores and releases, is an execution of the abstract lock.  A
  call of \<open>wait\<close> shows in it as one release and one acquisition.\<close>

theorem cv_implements_lock:
  assumes "reachable (cv_prog F tid) (cv_start F tid) s" and "run (cv_prog F tid) as s = Some s'"
  shows "lock_execs (lock_history (cv_prog F tid) (\<lambda>_. False) cv_owns cv_data as s)
      (lock_view_of (\<lambda>_. False) cv_owns cv_data s) =
    Some (lock_view_of (\<lambda>_. False) cv_owns cv_data s')"
  using assms by (rule cv_inner.outside.lock.run_refines)

text \<open>
  Thread 0 locks and waits; thread 1 locks, stores, unlocks and notifies; thread 0 wakes up and
  has the mutex again.
\<close>

definition cv_exchange :: "(nat \<times> nat cv_op env) list" where
  "cv_exchange = replicate 5 (0, quiet (CV_op_mutex M1_op_lock)) @ replicate 11 (0, quiet CV_op_wait) @
     replicate 5 (1, quiet (CV_op_mutex M1_op_lock)) @
     [(1, quiet (CV_op_mutex (M1_op_write (\<lambda>x. x + 1))))] @
     replicate 7 (1, quiet (CV_op_mutex M1_op_unlock)) @ replicate 4 (1, quiet CV_op_notify_all) @
     replicate 7 (0, quiet CV_op_wait)"

theorem cv_implements_lock_witness:
  "\<exists>s'. run (cv_prog fifo_futex tid_succ) cv_exchange cv_duo = Some s' \<and>
    lock_execs [Lock_write 0, Unlock_write 0, Lock_write 1, Store 1 5, Unlock_write 1, Lock_write 0]
      (lock_view_of (\<lambda>_. False) cv_owns cv_data cv_duo) =
    Some (lock_view_of (\<lambda>_. False) cv_owns cv_data s')"
proof -
  have "run (cv_prog fifo_futex tid_succ) cv_exchange cv_duo \<noteq> None"
    by (simp add: cv_run_eval cv_exchange_def cv_duo_def)
  then obtain s' where run: "run (cv_prog fifo_futex tid_succ) cv_exchange cv_duo = Some s'" by blast
  moreover have "lock_history (cv_prog fifo_futex tid_succ) (\<lambda>_. False) cv_owns cv_data cv_exchange cv_duo =
      [Lock_write 0, Unlock_write 0, Lock_write 1, Store 1 5, Unlock_write 1, Lock_write 0]"
    by (simp add: cv_run_eval cv_exchange_def cv_duo_def lock_step_events_def m1_owns_def)
  ultimately show ?thesis using cv_implements_lock [OF cv_duo_reachable run] by auto
qed

end
