(* ===== verification/LockTests.thy ===== *)
theory LockTests
  imports Script MutexV1 MutexV2 SpinLock SemaphoreUse RwLock CondVar
begin

text \<open>
  The sequential tests of the locks and of the semaphore, as scripts that are run on the models.
  Where a test starts a thread and joins it at once, thread 1 of the script is that thread.  A guard that goes out of scope
  at the end of a test is not dropped by its script.
\<close>

section \<open>\<open>src/mutex_v1.rs\<close>\<close>

definition m1_home :: "m1_thread \<Rightarrow> bool" where
  "m1_home l \<longleftrightarrow> m1_pc l \<in> {M1_idle, M1_dead}"

text \<open>What the assertions look at: whether the last result is \<open>Ok\<close>, or \<open>Err(WouldBlock)\<close>, the flag
  and the data.\<close>

definition m1_sees :: "'a mutex1 \<Rightarrow> m1_thread \<Rightarrow> bool \<times> bool \<times> bool \<times> 'a" where
  "m1_sees g l =
     (m1_last l = Some (Inr ()), m1_last l = Some (Inl WouldBlock), m1_is_poisoned g, m1_data g)"

definition m1_alone :: "'a \<Rightarrow> ('a mutex1, m1_thread) sys" where
  "m1_alone d = \<lparr>glob = m1_new d, locs = [m1_fresh]\<rparr>"

definition m1_runs :: "(nat \<times> 'a m1_op) list \<Rightarrow> 'a \<Rightarrow> (bool \<times> bool \<times> bool \<times> 'a) list option" where
  "m1_runs script d = run_script (m1_prog tid_succ) m1_home m1_sees script (m1_alone d)"

lemmas m1_script_eval = m1_run_eval m1_runs_def m1_home_def m1_sees_def m1_alone_def

definition m1_test_basic_locking :: "(nat \<times> 8 word m1_op) list" where
  "m1_test_basic_locking =
     [(0, M1_op_lock), (0, M1_op_unlock), (0, M1_op_lock), (0, M1_op_write (\<lambda>x. x * 20))]"

lemma m1_test_basic_locking_passes:
  "m1_runs m1_test_basic_locking 4 =
    Some [(True, False, False, 4), (True, False, False, 4), (True, False, False, 4), (True, False, False, 80)]"
  by (simp add: m1_script_eval m1_test_basic_locking_def)

definition m1_test_try_lock :: "(nat \<times> 8 word m1_op) list" where
  "m1_test_try_lock = [(0, M1_op_lock), (0, M1_op_try_lock)]"

lemma m1_test_try_lock_passes:
  "m1_runs m1_test_try_lock 4 = Some [(True, False, False, 4), (False, True, False, 4)]"
  by (simp add: m1_script_eval m1_test_try_lock_def)

definition m1_test_reentrancy :: "(nat \<times> string m1_op) list" where
  "m1_test_reentrancy = [(0, M1_op_lock), (0, M1_op_lock)]"

lemma m1_test_reentrancy_passes:
  "m1_runs m1_test_reentrancy ''shared data'' =
    Some [(True, False, False, ''shared data''), (False, True, False, ''shared data'')]"
  by (simp add: m1_script_eval m1_test_reentrancy_def)

text \<open>
  The panic inside the scope is the panic of the whole test (\<open>#[should_panic]\<close>): the lines after
  the scope are not reached, and the mutex is poisoned with the first of the two stores.\<close>

definition m1_test_unlocking_after_panic :: "(nat \<times> 8 word m1_op) list" where
  "m1_test_unlocking_after_panic = [(0, M1_op_lock), (0, M1_op_write (\<lambda>x. x + 100)), (0, M1_op_panic)]"

lemma m1_test_unlocking_after_panic_passes:
  "m1_runs m1_test_unlocking_after_panic 0 =
    Some [(True, False, False, 0), (True, False, False, 100), (True, False, True, 100)]"
  by (simp add: m1_script_eval m1_test_unlocking_after_panic_def)

section \<open>\<open>src/mutex_v2.rs\<close>\<close>

definition m2_sees :: "'a mutex2 \<Rightarrow> m2_thread \<Rightarrow> bool \<times> bool \<times> bool \<times> 'a" where
  "m2_sees g l =
     (m2_last l = Some (Inr ()), m2_last l = Some (Inl WouldBlock), m2_is_poisoned g, m2_data g)"

definition m2_both :: "'a \<Rightarrow> ('a mutex2, m2_thread) sys" where
  "m2_both d = \<lparr>glob = snd (m2_new 0 d), locs = [m2_fresh {}, m2_fresh {}]\<rparr>"

definition m2_runs :: "(nat \<times> 'a m2_op) list \<Rightarrow> 'a \<Rightarrow> (bool \<times> bool \<times> bool \<times> 'a) list option" where
  "m2_runs script d = run_script (m2_prog fifo_futex) m2_home m2_sees script (m2_both d)"

lemmas m2_script_eval = m2_run_eval m2_runs_def m2_home_def m2_sees_def m2_both_def

definition m2_test_basic_locking :: "(nat \<times> 8 word m2_op) list" where
  "m2_test_basic_locking =
     [(0, M2_op_lock), (0, M2_op_unlock), (0, M2_op_lock), (0, M2_op_write (\<lambda>x. x * 20))]"

lemma m2_test_basic_locking_passes:
  "m2_runs m2_test_basic_locking 4 = Some [(True, False, False, 4), (True, False, False, 4),
    (True, False, False, 4), (True, False, False, 80)]"
  by (simp add: m2_script_eval m2_test_basic_locking_def)

definition m2_test_reentrancy :: "(nat \<times> string m2_op) list" where
  "m2_test_reentrancy = [(0, M2_op_lock), (0, M2_op_lock)]"

lemma m2_test_reentrancy_passes:
  "m2_runs m2_test_reentrancy ''shared data'' =
    Some [(True, False, False, ''shared data''), (False, True, False, ''shared data'')]"
  by (simp add: m2_script_eval m2_test_reentrancy_def)

definition m2_test_unlocking_after_panic :: "(nat \<times> 8 word m2_op) list" where
  "m2_test_unlocking_after_panic =
     [(1, M2_op_lock), (1, M2_op_write (\<lambda>x. x + 100)), (1, M2_op_panic),
      (0, M2_op_lock), (0, M2_op_clear_poison), (0, M2_op_unlock), (0, M2_op_lock)]"

lemma m2_test_unlocking_after_panic_passes:
  "m2_runs m2_test_unlocking_after_panic 0 =
    Some [(True, False, False, 0), (True, False, False, 100), (True, False, True, 100),
     (False, False, True, 100), (False, False, False, 100), (False, False, False, 100),
     (True, False, False, 100)]"
  by (simp add: m2_script_eval m2_test_unlocking_after_panic_def)

section \<open>\<open>src/spinlock.rs\<close>\<close>

definition spin_home :: "spin_thread \<Rightarrow> bool" where
  "spin_home l \<longleftrightarrow> sp_pc l \<in> {Sp_idle, Sp_dead}"

text \<open>Whether the caller has a guard, whether it has panicked, and the data.\<close>

definition spin_sees :: "'a spinlock \<Rightarrow> spin_thread \<Rightarrow> bool \<times> bool \<times> 'a" where
  "spin_sees g l = (sp_guard l, sp_pc l = Sp_dead, spin_deref g)"

definition spin_runs :: "(nat \<times> 'a spin_op) list \<Rightarrow> 'a \<Rightarrow> (bool \<times> bool \<times> 'a) list option" where
  "spin_runs script d = run_script (spin_prog tid_succ) spin_home spin_sees script (spin_init 2 d)"

lemmas spin_script_eval = spin_eval spin_runs_def spin_home_def spin_sees_def spin_deref_def

definition spin_test_basic :: "(nat \<times> 8 word spin_op) list" where
  "spin_test_basic = [(0, Spin_lock), (0, Spin_unlock), (0, Spin_lock), (0, Spin_write (\<lambda>x. x * 2))]"

lemma spin_test_basic_passes:
  "spin_runs spin_test_basic 4 = Some [(True, False, 4), (False, False, 4), (True, False, 4), (True, False, 8)]"
  by (simp add: spin_script_eval spin_test_basic_def)

text \<open>\<open>#[should_panic]\<close>.\<close>

definition spin_test_reentrancy :: "(nat \<times> string spin_op) list" where
  "spin_test_reentrancy = [(0, Spin_lock), (0, Spin_lock)]"

lemma spin_test_reentrancy_passes:
  "spin_runs spin_test_reentrancy ''x'' = Some [(True, False, ''x''), (False, True, ''x'')]"
  by (simp add: spin_script_eval spin_test_reentrancy_def)

definition spin_test_interrupt :: "(nat \<times> int spin_op) list" where
  "spin_test_interrupt =
     [(1, Spin_lock), (1, Spin_write (\<lambda>x. x + 1)), (1, Spin_panic), (0, Spin_lock), (0, Spin_write (\<lambda>x. x + 1))]"

lemma spin_test_interrupt_passes:
  "spin_runs spin_test_interrupt 0 =
    Some [(True, False, 0), (True, False, 1), (False, True, 1), (True, False, 1), (True, False, 2)]"
  by (simp add: spin_script_eval spin_test_interrupt_def)

section \<open>\<open>src/semaphore.rs\<close>\<close>

definition sem_sees :: "semaphore \<Rightarrow> sem_thread \<Rightarrow> u32 \<times> bool option" where
  "sem_sees g l = (val (sem_count g), sem_last l)"

definition sem_runs :: "(nat \<times> sem_op) list \<Rightarrow> u32 \<Rightarrow> (u32 \<times> bool option) list option" where
  "sem_runs script i = run_script (sem_prog fifo_futex) (\<lambda>l. sem_pc l = Sem_idle) sem_sees script
     \<lparr>glob = sem_new i, locs = [sem_idle, sem_idle]\<rparr>"

lemmas sem_script_eval = sem_run_eval sem_runs_def sem_sees_def

definition sem_test_signal_before_wait :: "(nat \<times> sem_op) list" where
  "sem_test_signal_before_wait = [(0, Sem_op_signal), (0, Sem_op_wait)]"

lemma sem_test_signal_before_wait_passes:
  "sem_runs sem_test_signal_before_wait 0 = Some [(1, None), (0, None)]"
  by (simp add: sem_script_eval sem_test_signal_before_wait_def)

definition sem_test_wait_before_signal :: "(nat \<times> sem_op) list" where
  "sem_test_wait_before_signal = [(0, Sem_op_wait), (0, Sem_op_signal)]"

lemma sem_test_wait_before_signal_passes:
  "sem_runs sem_test_wait_before_signal 1 = Some [(0, None), (1, None)]"
  by (simp add: sem_script_eval sem_test_wait_before_signal_def)

definition sem_test_try_wait :: "(nat \<times> sem_op) list" where
  "sem_test_try_wait = [(1, Sem_op_wait), (0, Sem_op_try)]"

lemma sem_test_try_wait_passes: "sem_runs sem_test_try_wait 1 = Some [(0, None), (0, Some False)]"
  by (simp add: sem_script_eval sem_test_try_wait_def)

section \<open>\<open>src/rwlock.rs\<close>\<close>

text \<open>The last result: \<open>Ok\<close>, \<open>Err(WouldBlock)\<close> or \<open>Err(Poisoned)\<close>; the flag and the data.\<close>

datatype rw_seen = Seen_nothing | Seen_ok | Seen_would_block | Seen_too_many | Seen_poisoned

fun rw_seen_of :: "unit rw_result option \<Rightarrow> rw_seen" where
  "rw_seen_of None = Seen_nothing"
| "rw_seen_of (Some (Inr _)) = Seen_ok"
| "rw_seen_of (Some (Inl RwWouldBlock)) = Seen_would_block"
| "rw_seen_of (Some (Inl RwTooManyReaders)) = Seen_too_many"
| "rw_seen_of (Some (Inl (RwPoisoned _))) = Seen_poisoned"

definition rw_sees :: "'a rwlock \<Rightarrow> rw_thread \<Rightarrow> rw_seen \<times> bool \<times> 'a" where
  "rw_sees g l = (rw_seen_of (rw_last l), rw_is_poisoned g, rw_data g)"

definition rw_runs :: "(nat \<times> int rw_op) list \<Rightarrow> int rwlock \<Rightarrow> (rw_seen \<times> bool \<times> int) list option" where
  "rw_runs script g = run_script (rw_prog fifo_futex True) rw_home rw_sees script
     \<lparr>glob = g, locs = replicate 6 (rw_fresh {})\<rparr>"

lemmas rw_script_eval = rw_run_eval rw_runs_def rw_home_def rw_sees_def

definition rw_test_basic_read :: "(nat \<times> int rw_op) list" where
  "rw_test_basic_read = [(0, Rw_op_read)]"

lemma rw_test_basic_read_passes:
  "rw_runs rw_test_basic_read (snd (rw_new 0 42)) = Some [(Seen_ok, False, 42)]"
  by (simp add: rw_script_eval rw_test_basic_read_def)

definition rw_test_basic_write :: "(nat \<times> int rw_op) list" where
  "rw_test_basic_write = [(0, Rw_op_write), (0, Rw_op_modify (\<lambda>_. 84))]"

lemma rw_test_basic_write_passes:
  "rw_runs rw_test_basic_write (snd (rw_new 0 42)) = Some [(Seen_ok, False, 42), (Seen_ok, False, 84)]"
  by (simp add: rw_script_eval rw_test_basic_write_def)

definition rw_test_write_blocks_reads :: "(nat \<times> int rw_op) list" where
  "rw_test_write_blocks_reads = [(0, Rw_op_write), (1, Rw_op_try_read)]"

lemma rw_test_write_blocks_reads_passes:
  "rw_runs rw_test_write_blocks_reads (snd (rw_new 0 0)) =
    Some [(Seen_ok, False, 0), (Seen_would_block, False, 0)]"
  by (simp add: rw_script_eval rw_test_write_blocks_reads_def)

definition rw_test_write_blocks_writes :: "(nat \<times> int rw_op) list" where
  "rw_test_write_blocks_writes = [(0, Rw_op_write), (1, Rw_op_try_write)]"

lemma rw_test_write_blocks_writes_passes:
  "rw_runs rw_test_write_blocks_writes (snd (rw_new 0 0)) =
    Some [(Seen_ok, False, 0), (Seen_would_block, False, 0)]"
  by (simp add: rw_script_eval rw_test_write_blocks_writes_def)

definition rw_test_upgrade_blocked :: "(nat \<times> int rw_op) list" where
  "rw_test_upgrade_blocked = [(0, Rw_op_read), (0, Rw_op_try_write)]"

lemma rw_test_upgrade_blocked_passes:
  "rw_runs rw_test_upgrade_blocked (snd (rw_new 0 42)) =
    Some [(Seen_ok, False, 42), (Seen_would_block, False, 42)]"
  by (simp add: rw_script_eval rw_test_upgrade_blocked_def)

definition rw_test_poisoning :: "(nat \<times> int rw_op) list" where
  "rw_test_poisoning =
     [(1, Rw_op_write), (1, Rw_op_modify (\<lambda>_. 42)), (1, Rw_op_panic), (0, Rw_op_try_read)]"

lemma rw_test_poisoning_passes:
  "rw_runs rw_test_poisoning (snd (rw_new 0 0)) = Some [(Seen_ok, False, 0), (Seen_ok, False, 42),
    (Seen_ok, True, 42), (Seen_poisoned, True, 42)]"
  by (simp add: rw_script_eval rw_test_poisoning_def)

definition rw_test_clear_poison :: "(nat \<times> int rw_op) list" where
  "rw_test_clear_poison =
     [(1, Rw_op_write), (1, Rw_op_modify (\<lambda>_. 42)), (1, Rw_op_panic), (0, Rw_op_clear_poison), (0, Rw_op_read)]"

lemma rw_test_clear_poison_passes:
  "rw_runs rw_test_clear_poison (snd (rw_new 0 0)) = Some [(Seen_ok, False, 0), (Seen_ok, False, 42),
    (Seen_ok, True, 42), (Seen_nothing, False, 42), (Seen_ok, False, 42)]"
  by (simp add: rw_script_eval rw_test_clear_poison_def)

definition rw_test_explicit_unlock :: "(nat \<times> int rw_op) list" where
  "rw_test_explicit_unlock =
     [(0, Rw_op_read), (0, Rw_op_unlock), (0, Rw_op_try_write), (0, Rw_op_unlock),
      (0, Rw_op_write), (0, Rw_op_unlock), (0, Rw_op_try_read), (0, Rw_op_unlock)]"

lemma rw_test_explicit_unlock_passes:
  "rw_runs rw_test_explicit_unlock (snd (rw_new 0 42)) = Some (replicate 8 (Seen_ok, False, 42))"
  by (simp add: rw_script_eval rw_test_explicit_unlock_def)

text \<open>Five threads hold the lock for reading at the same time, then let it go.\<close>

definition rw_test_multiple_readers :: "(nat \<times> int rw_op) list" where
  "rw_test_multiple_readers =
     map (\<lambda>t. (t, Rw_op_read)) [1, 2, 3, 4, 5] @ map (\<lambda>t. (t, Rw_op_unlock)) [1, 2, 3, 4, 5]"

lemma rw_test_multiple_readers_passes:
  "rw_runs rw_test_multiple_readers (snd (rw_new 0 0)) = Some (replicate 10 (Seen_ok, False, 0))"
  by (simp add: rw_script_eval rw_test_multiple_readers_def)

text \<open>
  \<open>get_mut\<close> needs no guard: it writes through the unique reference.  The data that is observed
  last is what \<open>into_inner\<close> returns.\<close>

definition rw_test_get_mut_and_into_inner :: "int rwlock \<times> (nat \<times> int rw_op) list" where
  "rw_test_get_mut_and_into_inner =
     (rw_get_mut (\<lambda>_. 84) (snd (rw_new 0 42)), [(0, Rw_op_read), (0, Rw_op_unlock)])"

lemma rw_test_get_mut_and_into_inner_passes:
  "rw_runs (snd rw_test_get_mut_and_into_inner) (fst rw_test_get_mut_and_into_inner) =
    Some (replicate 2 (Seen_ok, False, 84))"
  by (simp add: rw_script_eval rw_test_get_mut_and_into_inner_def rw_get_mut_def)

section \<open>\<open>src/condvar.rs\<close>\<close>

text \<open>
  Thread 1 is the thread the tests spawn.  Its \<open>wait\<close> blocks, so these tests are schedules, for which the
  channel of the tests leaves some freedom: the message says that the thread has locked the mutex, not
  that it waits.\<close>

definition cv_both :: "(int cv_state, cv_thread) sys" where
  "cv_both = \<lparr>glob = \<lparr>cv_var = cv_new, cv_mutex = m1_new 0\<rparr>, locs = [cv_idle, cv_idle]\<rparr>"

text \<open>The thread waits before the test stores 1, unlocks and notifies it; then it returns with the guard.\<close>

definition cv_test_basic_wait_notify_one :: "(nat \<times> int cv_op env) list" where
  "cv_test_basic_wait_notify_one =
     replicate 5 (1, quiet (CV_op_mutex M1_op_lock)) @ replicate 11 (1, quiet CV_op_wait) @
     replicate 5 (0, quiet (CV_op_mutex M1_op_lock)) @ [(0, quiet (CV_op_mutex (M1_op_write (\<lambda>_. 1))))] @
     replicate 7 (0, quiet (CV_op_mutex M1_op_unlock)) @ replicate 3 (0, quiet CV_op_notify_one) @
     replicate 7 (1, quiet CV_op_wait)"

lemma cv_test_basic_wait_notify_one_passes:
  "\<exists>s. run (cv_prog fifo_futex tid_succ) cv_test_basic_wait_notify_one cv_both = Some s \<and>
    cv_data (glob s) = 1 \<and> cv_pc (locs s ! 1) = CV_client \<and> m1_guard (cv_m1 (locs s ! 1))"
  by (simp add: cv_run_eval futex_wake_one_def cv_test_basic_wait_notify_one_def cv_both_def)

text \<open>The test looks at \<open>waiting\<close> when the thread has taken \<open>k\<close> steps of its \<open>wait\<close>.\<close>

definition cv_test_waiting_counter :: "nat \<Rightarrow> (nat \<times> int cv_op env) list" where
  "cv_test_waiting_counter k =
     replicate 5 (1, quiet (CV_op_mutex M1_op_lock)) @ replicate k (1, quiet CV_op_wait)"

lemma cv_test_waiting_counter_passes:
  "\<exists>s. run (cv_prog fifo_futex tid_succ) (cv_test_waiting_counter 11) cv_both = Some s \<and>
    cv_waiting (cv_var (glob s)) = 1"
  by (simp add: cv_run_eval cv_test_waiting_counter_def cv_both_def)

text \<open>The assertion that follows the message fails when the thread has not entered \<open>wait\<close> yet.\<close>

lemma cv_test_waiting_counter_races:
  "\<exists>s. run (cv_prog fifo_futex tid_succ) (cv_test_waiting_counter 0) cv_both = Some s \<and>
    m1_guard (cv_m1 (locs s ! 1)) \<and> cv_waiting (cv_var (glob s)) = 0"
  by (simp add: cv_run_eval cv_test_waiting_counter_def cv_both_def)

end
