(* ===== verification/BoundedQueue.thy ===== *)
theory BoundedQueue
  imports Prelude
begin

text \<open>
  The interface between the ring buffer and the channel built on it: a bounded first-in
  first-out queue.  \<open>enq\<close> and \<open>deq\<close> are the operations the channel calls when nothing
  interferes with them; they are partial because an operation may panic.  Enqueueing on a full
  queue gives the element back, as \<open>push\<close> does.  A queue may be good for a bounded number of
  enqueue operations only, since indices may be counted in a machine word: the invariant has this number
  as an argument.  The laws let a client reason with lists.
\<close>

text \<open>
  What comes of a function body that runs alone for a number of steps: it returns or panics, or it
  is blocked, or it is still running.
\<close>

datatype ('g, 'r) outcome = Returns 'g 'r | Panics 'g | Blocks 'g | Runs_on

fun solo :: "('g \<Rightarrow> 'p \<Rightarrow> ('g \<times> ('p, 'r) ctl) option) \<Rightarrow> nat \<Rightarrow> 'g \<Rightarrow> 'p \<Rightarrow> ('g, 'r) outcome" where
  "solo f 0 g p = Runs_on"
| "solo f (Suc n) g p =
     (case f g p of
        None \<Rightarrow> Blocks g
      | Some (g', Next p') \<Rightarrow> solo f n g' p'
      | Some (g', Ret r) \<Rightarrow> Returns g' r
      | Some (g', Panic) \<Rightarrow> Panics g')"

lemma solo_numeral:
  "solo f (numeral k) g p =
     (case f g p of
        None \<Rightarrow> Blocks g
      | Some (g', Next p') \<Rightarrow> solo f (pred_numeral k) g' p'
      | Some (g', Ret r) \<Rightarrow> Returns g' r
      | Some (g', Panic) \<Rightarrow> Panics g')"
  by (simp add: numeral_eq_Suc)

locale bounded_queue =
  fixes inv :: "nat \<Rightarrow> 'q \<Rightarrow> bool"
    and contents :: "'q \<Rightarrow> 'a list"
    and capacity :: "'q \<Rightarrow> nat"
    and enq :: "'a \<Rightarrow> 'q \<Rightarrow> ('q \<times> ('a + unit)) option"
    and deq :: "'q \<Rightarrow> ('q \<times> 'a option) option"
  assumes bounded: "inv b q \<Longrightarrow> length (contents q) \<le> capacity q"
    and fewer: "inv (Suc b) q \<Longrightarrow> inv b q"
    and enq_room: "inv (Suc b) q \<Longrightarrow> length (contents q) < capacity q \<Longrightarrow>
      \<exists>q'. enq x q = Some (q', Inr ()) \<and> inv b q' \<and> contents q' = contents q @ [x] \<and>
        capacity q' = capacity q"
    and enq_full: "inv b q \<Longrightarrow> length (contents q) = capacity q \<Longrightarrow> enq x q = Some (q, Inl x)"
    and deq_some: "inv b q \<Longrightarrow> contents q = x # xs \<Longrightarrow>
      \<exists>q'. deq q = Some (q', Some x) \<and> inv b q' \<and> contents q' = xs \<and> capacity q' = capacity q"
    and deq_none: "inv b q \<Longrightarrow> contents q = [] \<Longrightarrow> deq q = Some (q, None)"
begin

text \<open>Enqueueing a list, keeping what did not fit, and dequeueing up to \<open>n\<close> elements.\<close>

fun enq_list :: "'a list \<Rightarrow> 'q \<Rightarrow> ('q \<times> 'a list) option" where
  "enq_list [] q = Some (q, [])"
| "enq_list (x # xs) q =
     (case enq x q of
        None \<Rightarrow> None
      | Some (q', Inr _) \<Rightarrow> enq_list xs q'
      | Some (q', Inl y) \<Rightarrow> Some (q', y # xs))"

fun deq_list :: "nat \<Rightarrow> 'q \<Rightarrow> ('q \<times> 'a list) option" where
  "deq_list 0 q = Some (q, [])"
| "deq_list (Suc n) q =
     (case deq q of
        None \<Rightarrow> None
      | Some (q', None) \<Rightarrow> Some (q', [])
      | Some (q', Some x) \<Rightarrow> map_option (\<lambda>(q'', xs). (q'', x # xs)) (deq_list n q'))"

lemma fewer_list: "inv (length xs + b) q \<Longrightarrow> inv b q"
  by (induction xs) (auto dest: fewer)

lemma enq_list_fills:
  "inv (length xs + b) q \<Longrightarrow>
    \<exists>q'. enq_list xs q = Some (q', drop (capacity q - length (contents q)) xs) \<and> inv b q' \<and>
    contents q' = contents q @ take (capacity q - length (contents q)) xs \<and> capacity q' = capacity q"
proof (induction xs arbitrary: q)
  case (Cons x xs)
  show ?case
  proof (cases "length (contents q) < capacity q")
    case True
    with enq_room [of "length xs + b" q x] Cons.prems obtain q' where
      q': "enq x q = Some (q', Inr ())" "inv (length xs + b) q'" "contents q' = contents q @ [x]"
      "capacity q' = capacity q" by auto
    moreover have "capacity q - length (contents q) = Suc (capacity q' - length (contents q'))"
      using True q' by simp
    ultimately show ?thesis using Cons.IH [of q'] by auto
  next
    case False
    with bounded [OF Cons.prems] have "length (contents q) = capacity q" by simp
    with enq_full [OF Cons.prems] fewer_list [OF Cons.prems] show ?thesis by simp
  qed
qed simp

lemma deq_list_takes:
  "inv b q \<Longrightarrow> \<exists>q'. deq_list n q = Some (q', take n (contents q)) \<and> inv b q' \<and>
    contents q' = drop n (contents q) \<and> capacity q' = capacity q"
proof (induction n arbitrary: q)
  case (Suc n)
  show ?case
  proof (cases "contents q")
    case Nil
    with deq_none [OF Suc.prems] Suc.prems show ?thesis by simp
  next
    case (Cons x xs)
    from deq_some [OF Suc.prems Cons] obtain q' where "deq q = Some (q', Some x)" and
      "inv b q'" and "contents q' = xs" and "capacity q' = capacity q" by blast
    with Suc.IH [of q'] Cons show ?thesis by auto
  qed
qed simp

text \<open>What goes in comes out, in order.\<close>

lemma enq_deq_list:
  assumes "inv (length xs) q" and "contents q = []" and "length xs \<le> capacity q"
  shows "\<exists>q' q''. enq_list xs q = Some (q', []) \<and> deq_list (length xs) q' = Some (q'', xs) \<and>
    contents q'' = []"
proof -
  from enq_list_fills [of xs 0 q] assms obtain q' where
    "enq_list xs q = Some (q', [])" and "inv 0 q'" and "contents q' = xs" by auto
  with deq_list_takes [of 0 q' "length xs"] show ?thesis by auto
qed

end

end
