(* ===== verification/RingBuffer.thy ===== *)
theory RingBuffer
  imports BoundedQueue Progress
begin

unbundle bit_operations_syntax

text \<open>
  The ring buffer of \<open>src/utils/ring_buffer.rs\<close>: an array of possibly uninitialised slots with
  two free-running indices.  The body of each function is a step function of its atomic
  accesses and its accesses to the slots.  Plain additions and subtractions of the source
  panic on overflow when \<open>checks\<close> holds (a build with overflow checks) and wrap otherwise.
  History variables, not in the source, record the values whose slot was reserved, the slots
  written, the values handed out, the values dropped by \<open>pop\<close>, and reads of unwritten slots.
\<close>

section \<open>State\<close>

datatype 'a slot = Uninit | Init 'a

record 'a ring =
  buffer :: "'a slot list"
  head :: usize
  tail :: usize
  hist_pushed :: "'a list"
  hist_written :: "nat set"
  hist_popped :: "'a slot list"
  hist_dropped :: "'a slot list"
  hist_raced :: bool

definition CACHE_LINE_SIZE :: usize where
  "CACHE_LINE_SIZE = 128"

definition rb_empty :: "nat \<Rightarrow> 'a ring" where
  "rb_empty n = \<lparr>buffer = replicate n Uninit, head = 0, tail = 0, hist_pushed = [],
     hist_written = {}, hist_popped = [], hist_dropped = [], hist_raced = False\<rparr>"

text \<open>\<open>RingBuffer::new\<close> asserts \<open>N % 2 == 0\<close>; the failing assertion is a panic.\<close>

definition rb_new :: "nat \<Rightarrow> 'a ring option" where
  "rb_new n = (if n mod 2 = 0 then Some (rb_empty n) else None)"

abbreviation rb_size :: "'a ring \<Rightarrow> nat" where
  "rb_size r \<equiv> length (buffer r)"

text \<open>The two ways the source maps an index to a slot: \<open>i % N\<close> and \<open>i & (N - 1)\<close>.\<close>

definition idx_mod :: "nat \<Rightarrow> usize \<Rightarrow> nat" where
  "idx_mod n i = unat i mod n"

definition idx_mask :: "nat \<Rightarrow> usize \<Rightarrow> nat" where
  "idx_mask n i = unat (i AND (of_nat n - 1))"

section \<open>Operations\<close>

text \<open>The accesses the functions share.\<close>

definition rb_reserve :: "'a \<Rightarrow> usize \<Rightarrow> 'a ring \<Rightarrow> 'a ring" where
  "rb_reserve v h r = r\<lparr>head := h + 1, hist_pushed := hist_pushed r @ [v]\<rparr>"

definition rb_write :: "'a \<Rightarrow> usize \<Rightarrow> 'a ring \<Rightarrow> 'a ring" where
  "rb_write v h r = r\<lparr>buffer := (buffer r)[idx_mod (rb_size r) h := Init v],
     hist_written := insert (unat h) (hist_written r)\<rparr>"

definition rb_note_read :: "usize \<Rightarrow> 'a ring \<Rightarrow> 'a ring" where
  "rb_note_read i r = r\<lparr>hist_raced := (hist_raced r \<or> unat i \<notin> hist_written r)\<rparr>"

definition rb_advance :: "usize \<Rightarrow> 'a slot \<Rightarrow> 'a ring \<Rightarrow> 'a ring" where
  "rb_advance i v r = r\<lparr>tail := i + 1, hist_popped := hist_popped r @ [v]\<rparr>"

definition rb_discard :: "'a slot \<Rightarrow> 'a ring \<Rightarrow> 'a ring" where
  "rb_discard v r = r\<lparr>hist_dropped := hist_dropped r @ [v]\<rparr>"

text \<open>Overflow of \<open>current_head - current_tail\<close> and of an index plus one.\<close>

definition sub_overflows :: "bool \<Rightarrow> usize \<Rightarrow> usize \<Rightarrow> bool" where
  "sub_overflows checks a b \<longleftrightarrow> checks \<and> unat a < unat b"

definition inc_overflows :: "bool \<Rightarrow> usize \<Rightarrow> bool" where
  "inc_overflows checks a \<longleftrightarrow> checks \<and> a = USIZE_MAX"

datatype push_pc = PU_tail | PU_head usize | PU_cas usize | PU_write usize

fun rb_push_step ::
  "bool \<Rightarrow> bool \<Rightarrow> 'a \<Rightarrow> 'a ring \<Rightarrow> push_pc \<Rightarrow> 'a ring \<times> (push_pc, 'a + unit) ctl" where
  "rb_push_step checks weak v r PU_tail = (r, Next (PU_head (tail r)))"
| "rb_push_step checks weak v r (PU_head current_tail) =
     (r, if sub_overflows checks (head r) current_tail then Panic
         else if rb_size r \<le> unat (head r - current_tail) then Ret (Inl v)
         else Next (PU_cas (head r)))"
| "rb_push_step checks weak v r (PU_cas current_head) =
     (if inc_overflows checks current_head then (r, Panic)
      else if head r = current_head \<and> \<not> weak
      then (rb_reserve v current_head r, Next (PU_write current_head))
      else (r, Next PU_tail))"
| "rb_push_step checks weak v r (PU_write current_head) = (rb_write v current_head r, Ret (Inr ()))"

datatype 'a pop_pc = PO_tail | PO_head usize | PO_read usize | PO_cas usize "'a slot"

fun rb_pop_step ::
  "bool \<Rightarrow> 'a ring \<Rightarrow> 'a pop_pc \<Rightarrow> 'a ring \<times> ('a pop_pc, 'a slot option) ctl" where
  "rb_pop_step weak r PO_tail = (r, Next (PO_head (tail r)))"
| "rb_pop_step weak r (PO_head current_tail) =
     (r, if head r = current_tail then Ret None else Next (PO_read current_tail))"
| "rb_pop_step weak r (PO_read current_tail) =
     (rb_note_read current_tail r,
      Next (PO_cas current_tail (buffer r ! idx_mask (rb_size r) current_tail)))"
| "rb_pop_step weak r (PO_cas current_tail v) =
     (if tail r = current_tail \<and> \<not> weak
      then (rb_advance current_tail v r, Ret (Some v))
      else (rb_discard v r, Next (PO_head (tail r))))"

fun rb_try_push_step ::
  "bool \<Rightarrow> bool \<Rightarrow> 'a \<Rightarrow> 'a ring \<Rightarrow> push_pc \<Rightarrow> 'a ring \<times> (push_pc, 'a + unit) ctl" where
  "rb_try_push_step checks weak v r PU_tail = (r, Next (PU_head (tail r)))"
| "rb_try_push_step checks weak v r (PU_head current_tail) =
     (r, if sub_overflows checks (head r) current_tail then Panic
         else if rb_size r \<le> unat (head r - current_tail) then Ret (Inl v)
         else Next (PU_cas (head r)))"
| "rb_try_push_step checks weak v r (PU_cas current_head) =
     (if inc_overflows checks current_head then (r, Panic)
      else if head r = current_head \<and> \<not> weak
      then (rb_reserve v current_head r, Next (PU_write current_head))
      else (r, Ret (Inl v)))"
| "rb_try_push_step checks weak v r (PU_write current_head) =
     (rb_write v current_head r, Ret (Inr ()))"

fun rb_try_pop_step ::
  "bool \<Rightarrow> bool \<Rightarrow> 'a ring \<Rightarrow> 'a pop_pc \<Rightarrow> 'a ring \<times> ('a pop_pc, 'a slot option) ctl" where
  "rb_try_pop_step checks weak r PO_tail = (r, Next (PO_head (tail r)))"
| "rb_try_pop_step checks weak r (PO_head current_tail) =
     (r, if head r = current_tail then Ret None else Next (PO_read current_tail))"
| "rb_try_pop_step checks weak r (PO_read current_tail) =
     (rb_note_read current_tail r,
      Next (PO_cas current_tail (buffer r ! idx_mod (rb_size r) current_tail)))"
| "rb_try_pop_step checks weak r (PO_cas current_tail v) =
     (if inc_overflows checks current_tail then (rb_discard v r, Panic)
      else if tail r = current_tail \<and> \<not> weak
      then (rb_advance current_tail v r, Ret (Some v))
      else (rb_discard v r, Ret None))"

text \<open>\<open>Drop for RingBuffer\<close>: the slots it drops, for the indices in the range \<open>tail..head\<close>.\<close>

definition rb_drop :: "'a ring \<Rightarrow> 'a slot list" where
  "rb_drop r = map (\<lambda>i. buffer r ! idx_mask (rb_size r) (of_nat i)) [unat (tail r)..<unat (head r)]"

section \<open>Client threads\<close>

datatype 'a rb_op = Rb_op_push 'a | Rb_op_try_push 'a | Rb_op_pop | Rb_op_try_pop

datatype 'a rb_pc =
    Rb_idle | Rb_push 'a push_pc | Rb_try_push 'a push_pc | Rb_pop "'a pop_pc"
  | Rb_try_pop "'a pop_pc" | Rb_dead

datatype 'a rb_result = Push_result "'a + unit" | Pop_result "'a slot option"

record 'a rb_thread =
  rb_pc :: "'a rb_pc"
  rb_last :: "'a rb_result option"

definition rb_idle :: "'a rb_thread" where
  "rb_idle = \<lparr>rb_pc = Rb_idle, rb_last = None\<rparr>"

fun rb_call :: "'a rb_op \<Rightarrow> 'a rb_pc" where
  "rb_call (Rb_op_push v) = Rb_push v PU_tail"
| "rb_call (Rb_op_try_push v) = Rb_try_push v PU_tail"
| "rb_call Rb_op_pop = Rb_pop PO_tail"
| "rb_call Rb_op_try_pop = Rb_try_pop PO_tail"

fun rb_resume :: "('p \<Rightarrow> 'a rb_pc) \<Rightarrow> ('r \<Rightarrow> 'a rb_result) \<Rightarrow> 'a rb_thread \<Rightarrow>
    'a ring \<times> ('p, 'r) ctl \<Rightarrow> ('a ring \<times> 'a rb_thread) option" where
  "rb_resume c k l (r, Next p) = Some (r, l\<lparr>rb_pc := c p\<rparr>)"
| "rb_resume c k l (r, Ret x) = Some (r, \<lparr>rb_pc = Rb_idle, rb_last = Some (k x)\<rparr>)"
| "rb_resume c k l (r, Panic) = Some (r, l\<lparr>rb_pc := Rb_dead\<rparr>)"

definition rb_prog :: "bool \<Rightarrow> ('a rb_op, 'a ring, 'a rb_thread) program" where
  "rb_prog checks e t r l =
     (case rb_pc l of
        Rb_idle \<Rightarrow> Some (r, l\<lparr>rb_pc := rb_call (call e)\<rparr>)
      | Rb_push v p \<Rightarrow>
          rb_resume (Rb_push v) Push_result l (rb_push_step checks (weak_fails e) v r p)
      | Rb_try_push v p \<Rightarrow>
          rb_resume (Rb_try_push v) Push_result l (rb_try_push_step checks (weak_fails e) v r p)
      | Rb_pop p \<Rightarrow> rb_resume Rb_pop Pop_result l (rb_pop_step (weak_fails e) r p)
      | Rb_try_pop p \<Rightarrow>
          rb_resume Rb_try_pop Pop_result l (rb_try_pop_step checks (weak_fails e) r p)
      | Rb_dead \<Rightarrow> None)"

section \<open>Indices\<close>

text \<open>The index computations of \<open>push\<close> and \<open>pop\<close> agree for a power of two.\<close>

lemma idx_mask_pow2: "k < 64 \<Longrightarrow> idx_mask (2 ^ k) i = idx_mod (2 ^ k) i"
proof -
  assume "k < 64"
  have "idx_mask (2 ^ k) i = unat (take_bit k i)"
    by (simp add: idx_mask_def take_bit_eq_mask mask_eq_exp_minus_1)
  also have "\<dots> = take_bit k (unat i)" by (rule unsigned_take_bit_eq)
  also have "\<dots> = idx_mod (2 ^ k) i" by (simp only: idx_mod_def take_bit_eq_mod)
  finally show ?thesis .
qed

lemma and_pred_0_power: "0 < n \<Longrightarrow> n AND (n - 1) = 0 \<Longrightarrow> \<exists>k. n = 2 ^ k" for n :: nat
proof (induction n rule: less_induct)
  case (less n)
  have half: "n div 2 AND (n - 1) div 2 = 0"
    using arg_cong [OF less.prems(2), of "\<lambda>x. x div 2"] drop_bit_and [of 1 n "n - 1"]
    by (simp add: drop_bit_eq_div)
  show ?case
  proof (cases "even n")
    case True
    then obtain m where m: "n = 2 * m" by (elim evenE)
    with less.prems(1) have "0 < m" "m < n" "(n - 1) div 2 = m - 1" by auto
    with half m less.IH [of m] obtain k where "m = 2 ^ k" by auto
    with m have "n = 2 ^ Suc k" by simp
    then show ?thesis ..
  next
    case False
    then obtain m where m: "n = 2 * m + 1" by (elim oddE)
    with half have "m = 0" by simp
    with m have "n = 2 ^ 0" by simp
    then show ?thesis ..
  qed
qed

lemma idx_mask_nat: "0 < n \<Longrightarrow> n < 2 ^ 64 \<Longrightarrow> idx_mask n (of_nat n) = n AND (n - 1)"
proof -
  assume n: "0 < n" "n < 2 ^ 64"
  then have pred: "(of_nat n - 1 :: usize) = of_nat (n - 1)" by (simp add: of_nat_diff)
  have "unat (of_nat n :: usize) = n" "unat (of_nat (n - 1) :: usize) = n - 1"
    by (rule unat_of_nat_usize, use n in simp)+
  then show ?thesis by (simp only: idx_mask_def pred unsigned_and_eq)
qed

lemma idx_mod_add: "k < 64 \<Longrightarrow> idx_mod (2 ^ k) (a + of_nat i) = (unat a + i) mod 2 ^ k"
proof -
  assume "k < 64"
  then have "(2 :: nat) ^ k dvd 2 ^ 64" by (intro le_imp_power_dvd) simp
  moreover have "unat (a + of_nat i) = (unat a + i) mod 2 ^ 64"
    by (simp add: unat_word_ariths unat_of_nat take_bit_eq_mod mod_simps)
  ultimately show ?thesis unfolding idx_mod_def by (simp only: mod_mod_cancel)
qed

lemma mod_diff_small:
  fixes t i j n :: nat
  assumes "(t + i) mod n = (t + j) mod n" and "i < j" and "j < n"
  shows False
proof -
  from assms(1,2) have "n dvd (t + j) - (t + i)"
    by (metis add_less_cancel_left less_imp_le mod_eq_dvd_iff_nat)
  then have "n dvd j - i" by simp
  moreover have "0 < j - i" and "j - i < n" using assms(2,3) by auto
  ultimately show False by (simp add: nat_dvd_not_less)
qed

lemma mod_slots_distinct:
  fixes t i j n :: nat
  assumes "t \<le> i" "i < t + n" "t \<le> j" "j < t + n" "i \<noteq> j"
  shows "i mod n \<noteq> j mod n"
proof -
  obtain a b where ab: "i = t + a" "j = t + b" using assms(1,3) by (metis le_Suc_ex)
  with assms have "a < n" "b < n" "a \<noteq> b" by auto
  with mod_diff_small [of t a n b] mod_diff_small [of t b n a] show ?thesis
    unfolding ab by (metis linorder_neqE_nat)
qed

section \<open>The operations without interference\<close>

text \<open>
  \<open>push\<close> and \<open>pop\<close> without a spurious failure of their exchange, which would only send them round their
  loop again, and \<open>try_pop\<close>, whose exchange may fail spuriously.
\<close>

definition rb_push_alone :: "bool \<Rightarrow> 'a \<Rightarrow> 'a ring \<Rightarrow> ('a ring, 'a + unit) outcome" where
  "rb_push_alone checks v r = solo (\<lambda>r p. Some (rb_push_step checks False v r p)) 4 r PU_tail"

definition rb_pop_alone :: "'a ring \<Rightarrow> ('a ring, 'a slot option) outcome" where
  "rb_pop_alone r = solo (\<lambda>r p. Some (rb_pop_step False r p)) 4 r PO_tail"

definition rb_try_pop_alone :: "bool \<Rightarrow> bool \<Rightarrow> 'a ring \<Rightarrow> ('a ring, 'a slot option) outcome" where
  "rb_try_pop_alone checks weak r = solo (\<lambda>r p. Some (rb_try_pop_step checks weak r p)) 4 r PO_tail"

lemmas rb_access_defs = rb_reserve_def rb_write_def rb_note_read_def rb_advance_def rb_discard_def

text \<open>
  The elements of the buffer, from the tail to the head; the indices may have wrapped around.
\<close>

definition rb_length :: "'a ring \<Rightarrow> nat" where
  "rb_length r = unat (head r - tail r)"

definition rb_slot :: "'a ring \<Rightarrow> nat \<Rightarrow> 'a slot" where
  "rb_slot r i = buffer r ! ((unat (tail r) + i) mod rb_size r)"

definition rb_slots :: "'a ring \<Rightarrow> 'a slot list" where
  "rb_slots r = map (rb_slot r) [0..<rb_length r]"

fun slot_values :: "'a slot \<Rightarrow> 'a list" where
  "slot_values (Init v) = [v]"
| "slot_values Uninit = []"

definition rb_contents :: "'a ring \<Rightarrow> 'a list" where
  "rb_contents r = concat (map slot_values (rb_slots r))"

text \<open>The size is a power of two, and all slots between tail and head are initialised.\<close>

definition rb_wf :: "'a ring \<Rightarrow> bool" where
  "rb_wf r \<longleftrightarrow> (\<exists>k < 64. rb_size r = 2 ^ k) \<and> rb_length r \<le> rb_size r \<and>
     Uninit \<notin> set (rb_slots r)"

text \<open>
  With overflow checks the difference of the indices is computed without a panic only as long as the head
  is not below the tail, and \<open>b\<close> more values can be pushed only if the head does not reach the end of
  its range.  Without checks the indices do not matter.
\<close>

definition rb_ready :: "bool \<Rightarrow> nat \<Rightarrow> 'a ring \<Rightarrow> bool" where
  "rb_ready checks b r \<longleftrightarrow> rb_wf r \<and>
     (checks \<longrightarrow> unat (tail r) \<le> unat (head r) \<and> unat (head r) + b < 2 ^ 64)"

text \<open>
  The operations as functions on the queue: there is no result when one panics, or hands out an uninitialised
  slot, which is undefined behaviour.
\<close>

definition rb_enq :: "bool \<Rightarrow> 'a \<Rightarrow> 'a ring \<Rightarrow> ('a ring \<times> ('a + unit)) option" where
  "rb_enq checks v r = (case rb_push_alone checks v r of Returns r' x \<Rightarrow> Some (r', x) | _ \<Rightarrow> None)"

definition rb_deq :: "'a ring \<Rightarrow> ('a ring \<times> 'a option) option" where
  "rb_deq r =
     (case rb_pop_alone r of
        Returns r' None \<Rightarrow> Some (r', None)
      | Returns r' (Some (Init v)) \<Rightarrow> Some (r', Some v)
      | _ \<Rightarrow> None)"

lemma slots_contents: "Uninit \<notin> set xs \<Longrightarrow> map Init (concat (map slot_values xs)) = xs"
proof (induction xs)
  case (Cons x xs)
  then show ?case by (cases x) auto
qed simp

lemma rb_contents_slots: "rb_wf r \<Longrightarrow> rb_slots r = map Init (rb_contents r)"
  by (simp add: rb_wf_def rb_contents_def slots_contents)

lemma rb_contents_eqI: "rb_slots r = map Init xs \<Longrightarrow> rb_contents r = xs"
  by (simp add: rb_contents_def comp_def)

lemma rb_length_contents: "rb_wf r \<Longrightarrow> length (rb_contents r) = rb_length r"
  using rb_contents_slots [of r] by (metis length_map rb_slots_def diff_zero length_upt)

lemma rb_head_eq: "head r = tail r + of_nat (rb_length r)"
  by (simp add: rb_length_def)

lemma rb_head_idx:
  "k < 64 \<Longrightarrow> rb_size r = 2 ^ k \<Longrightarrow> idx_mod (rb_size r) (head r) = (unat (tail r) + rb_length r) mod rb_size r"
  using idx_mod_add [of k "tail r" "rb_length r"] rb_head_eq [of r] by metis

lemma rb_tail_idx:
  "k < 64 \<Longrightarrow> rb_size r = 2 ^ k \<Longrightarrow> idx_mask (rb_size r) (tail r) = unat (tail r) mod rb_size r"
  using idx_mask_pow2 [of k] by (simp add: idx_mod_def)

text \<open>Pushing into a buffer with room.\<close>

definition rb_pushed :: "'a \<Rightarrow> 'a ring \<Rightarrow> 'a ring" where
  "rb_pushed v r = rb_write v (head r) (rb_reserve v (head r) r)"

text \<open>The states in which an overflow check stops \<open>push\<close> and \<open>try_push\<close>.\<close>

definition push_overflows :: "bool \<Rightarrow> 'a ring \<Rightarrow> bool" where
  "push_overflows checks r \<longleftrightarrow>
     checks \<and> (head r < tail r \<or> head r = USIZE_MAX \<and> rb_length r < rb_size r)"

lemma rb_push_alone:
  "rb_push_alone checks v r =
     (if push_overflows checks r then Panics r
      else if rb_length r < rb_size r then Returns (rb_pushed v r) (Inr ())
      else Returns r (Inl v))"
  by (simp add: rb_push_alone_def solo_numeral rb_length_def sub_overflows_def inc_overflows_def
      push_overflows_def rb_pushed_def rb_reserve_def word_less_nat_alt)

lemma rb_ready_no_overflow: "rb_ready checks (Suc b) r \<Longrightarrow> \<not> push_overflows checks r"
  by (auto simp: rb_ready_def push_overflows_def word_less_nat_alt unat_USIZE_MAX)

lemma rb_ready_full: "rb_ready checks b r \<Longrightarrow> rb_length r = rb_size r \<Longrightarrow> \<not> push_overflows checks r"
  by (auto simp: rb_ready_def push_overflows_def word_less_nat_alt)

lemma rb_pushed_length:
  assumes "rb_length r < rb_size r" and "rb_size r = 2 ^ k" and "k < 64"
  shows "rb_length (rb_pushed v r) = Suc (rb_length r)"
proof -
  have "(2 :: nat) ^ k < 2 ^ 64" using assms(3) by (intro power_strict_increasing) auto
  with assms have "unat (head r - tail r) + 1 < 2 ^ 64" by (simp add: rb_length_def)
  then have "unat (head r - tail r + 1) = unat (head r - tail r) + 1"
    by (simp add: unat_word_ariths)
  moreover have "head r + 1 - tail r = head r - tail r + 1" by (simp only: diff_add_eq)
  ultimately have "unat (head r + 1 - tail r) = Suc (unat (head r - tail r))"
    by (simp only: Suc_eq_plus1)
  then show ?thesis
    by (simp add: rb_length_def rb_pushed_def rb_write_def rb_reserve_def)
qed

lemma rb_pushed_slots:
  assumes "rb_length r < rb_size r" and "rb_size r = 2 ^ k" and "k < 64"
  shows "rb_slots (rb_pushed v r) = rb_slots r @ [Init v]"
proof (rule nth_equalityI)
  show "length (rb_slots (rb_pushed v r)) = length (rb_slots r @ [Init v])"
    using rb_pushed_length [OF assms] by (simp add: rb_slots_def)
next
  fix i
  assume "i < length (rb_slots (rb_pushed v r))"
  then have i: "i < Suc (rb_length r)"
    using rb_pushed_length [OF assms] by (simp add: rb_slots_def)
  let ?j = "(unat (tail r) + i) mod rb_size r"
  let ?h = "(unat (tail r) + rb_length r) mod rb_size r"
  have "rb_slots (rb_pushed v r) ! i = (buffer r)[?h := Init v] ! ?j"
    using i rb_pushed_length [OF assms] rb_head_idx [OF assms(3,2)]
    by (simp add: rb_slots_def rb_slot_def rb_pushed_def rb_write_def rb_reserve_def del: upt_Suc)
  also have "\<dots> = (rb_slots r @ [Init v]) ! i"
  proof (cases "i = rb_length r")
    case True
    moreover have "?h < rb_size r" using assms(1) by (intro mod_less_divisor) linarith
    ultimately show ?thesis by (simp add: nth_append rb_slots_def)
  next
    case False
    with i have "i < rb_length r" by simp
    with mod_diff_small [of "unat (tail r)" i "rb_size r" "rb_length r"] assms(1) have "?j \<noteq> ?h" by auto
    with \<open>i < rb_length r\<close> show ?thesis by (simp add: nth_append rb_slots_def rb_slot_def)
  qed
  finally show "rb_slots (rb_pushed v r) ! i = (rb_slots r @ [Init v]) ! i" .
qed

text \<open>Popping from a buffer that is not empty.\<close>

definition rb_popped :: "'a slot \<Rightarrow> 'a ring \<Rightarrow> 'a ring" where
  "rb_popped v r = rb_advance (tail r) v (rb_note_read (tail r) r)"

lemma rb_pop_alone_empty: "rb_length r = 0 \<Longrightarrow> rb_pop_alone r = Returns r None"
  by (simp add: rb_pop_alone_def solo_numeral rb_length_def unat_eq_0)

lemma rb_pop_alone_some:
  assumes "0 < rb_length r" and "rb_size r = 2 ^ k" and "k < 64"
  shows "rb_pop_alone r = Returns (rb_popped (rb_slot r 0) r) (Some (rb_slot r 0))"
proof -
  have "head r \<noteq> tail r" using assms(1) by (auto simp: rb_length_def)
  then show ?thesis
    using rb_tail_idx [OF assms(3,2)]
    by (simp add: rb_pop_alone_def solo_numeral rb_popped_def rb_slot_def rb_note_read_def)
qed

lemma rb_popped_slots:
  assumes "0 < rb_length r" and "rb_size r = 2 ^ k" and "k < 64"
  shows "rb_slots r = rb_slot r 0 # rb_slots (rb_popped v r)"
proof -
  have nz: "head r - tail r \<noteq> 0" using assms(1) by (auto simp: rb_length_def)
  have "head r - (tail r + 1) = head r - tail r - 1" by (simp only: diff_diff_add)
  with unat_minus_1 [OF nz] have "unat (head r - (tail r + 1)) = unat (head r - tail r) - 1"
    by (simp only:)
  then have len: "rb_length (rb_popped v r) = rb_length r - 1"
    by (simp add: rb_length_def rb_popped_def rb_advance_def rb_note_read_def)
  have "rb_slot (rb_popped v r) i = rb_slot r (Suc i)" for i
  proof -
    have "(unat (tail r + 1) + i) mod 2 ^ k = idx_mod (2 ^ k) (tail r + 1 + of_nat i)"
      by (rule idx_mod_add [OF assms(3), symmetric])
    also have "tail r + 1 + of_nat i = tail r + of_nat (Suc i)"
      by (simp only: of_nat_Suc add.assoc)
    also have "idx_mod (2 ^ k) (tail r + of_nat (Suc i)) = (unat (tail r) + Suc i) mod 2 ^ k"
      by (rule idx_mod_add [OF assms(3)])
    finally have "(unat (tail r + 1) + i) mod rb_size r = (unat (tail r) + Suc i) mod rb_size r"
      by (simp only: assms(2))
    moreover have "rb_slot (rb_popped v r) i = buffer r ! ((unat (tail r + 1) + i) mod rb_size r)"
      by (simp add: rb_slot_def rb_popped_def rb_advance_def rb_note_read_def)
    ultimately show ?thesis by (simp only: rb_slot_def)
  qed
  moreover have "[0..<rb_length r] = 0 # map Suc [0..<rb_length r - 1]"
    using assms(1) by (cases "rb_length r") (auto simp: map_Suc_upt upt_conv_Cons simp del: upt_Suc)
  ultimately show ?thesis using len by (simp add: rb_slots_def comp_def)
qed

lemma rb_wf_pushed:
  assumes "rb_wf r" and "rb_length r < rb_size r"
  shows "rb_wf (rb_pushed v r) \<and> rb_contents (rb_pushed v r) = rb_contents r @ [v] \<and>
    rb_size (rb_pushed v r) = rb_size r"
proof -
  from assms(1) obtain k where k: "k < 64" "rb_size r = 2 ^ k" by (auto simp: rb_wf_def)
  note slots = rb_pushed_slots [OF assms(2) k(2,1)]
  have "rb_size (rb_pushed v r) = rb_size r"
    by (simp add: rb_pushed_def rb_write_def rb_reserve_def)
  moreover from this have "rb_wf (rb_pushed v r)"
    using assms rb_pushed_length [OF assms(2) k(2,1)] slots by (auto simp: rb_wf_def)
  moreover have "rb_contents (rb_pushed v r) = rb_contents r @ [v]"
    using slots rb_contents_slots [OF assms(1)] by (intro rb_contents_eqI) simp
  ultimately show ?thesis by blast
qed

lemma rb_wf_popped:
  assumes "rb_wf r" and "rb_contents r = x # xs"
  shows "rb_slot r 0 = Init x \<and> rb_wf (rb_popped v r) \<and> rb_contents (rb_popped v r) = xs \<and>
    rb_size (rb_popped v r) = rb_size r"
proof -
  from assms(1) obtain k where k: "k < 64" "rb_size r = 2 ^ k" by (auto simp: rb_wf_def)
  have len: "0 < rb_length r" using rb_length_contents [OF assms(1)] assms(2) by simp
  note slots = rb_popped_slots [OF len k(2,1), of v]
  with rb_contents_slots [OF assms(1)] assms(2)
  have eqs: "rb_slot r 0 = Init x" "rb_slots (rb_popped v r) = map Init xs" by auto
  moreover have size: "rb_size (rb_popped v r) = rb_size r"
    by (simp add: rb_popped_def rb_advance_def rb_note_read_def)
  moreover have "rb_length (rb_popped v r) \<le> rb_length r"
    using arg_cong [OF slots, of length] by (simp add: rb_slots_def)
  ultimately show ?thesis using assms(1) rb_contents_eqI [OF eqs(2)] by (auto simp: rb_wf_def)
qed

text \<open>The indices of a buffer that is ready for more values.\<close>

lemma rb_ready_pushed:
  assumes "rb_ready checks (Suc b) r" and "rb_length r < rb_size r"
  shows "rb_ready checks b (rb_pushed v r)"
proof -
  have "unat (tail r) \<le> unat (head r + 1) \<and> unat (head r + 1) + b < 2 ^ 64" if checks
  proof -
    from assms(1) that have "unat (tail r) \<le> unat (head r)" "unat (head r) + Suc b < 2 ^ 64"
      by (simp_all add: rb_ready_def)
    moreover from this have "unat (head r + 1) = unat (head r) + 1" by (simp add: unat_word_ariths)
    ultimately show ?thesis by simp
  qed
  then show ?thesis
    using assms rb_wf_pushed [of r v] by (simp add: rb_ready_def rb_pushed_def rb_write_def rb_reserve_def)
qed

lemma rb_ready_popped:
  assumes "rb_ready checks b r" and "rb_contents r = x # xs"
  shows "rb_ready checks b (rb_popped v r)"
proof -
  have "unat (tail r + 1) \<le> unat (head r)" if checks
  proof -
    from assms(1) that have le: "unat (tail r) \<le> unat (head r)" by (simp add: rb_ready_def)
    have "head r \<noteq> tail r"
      using assms rb_length_contents [of r] by (auto simp: rb_ready_def rb_length_def)
    then have "unat (tail r) \<noteq> unat (head r)" by (auto simp: word_unat_eq_iff)
    with le unat_plus_1_le [of "tail r"] show ?thesis by linarith
  qed
  then show ?thesis
    using assms rb_wf_popped [of r x xs v] by (simp add: rb_ready_def rb_popped_def rb_advance_def rb_note_read_def)
qed

interpretation rb: bounded_queue "rb_ready checks" rb_contents rb_size "rb_enq checks" rb_deq
  for checks :: bool
proof (unfold_locales, goal_cases)
  case (1 b q)
  then show ?case by (simp add: rb_ready_def rb_length_contents) (simp add: rb_wf_def)
next
  case (2 b q)
  then show ?case by (auto simp: rb_ready_def)
next
  case (3 b q x)
  then have wf: "rb_wf q" and room: "rb_length q < rb_size q" by (auto simp: rb_ready_def rb_length_contents)
  with 3 rb_wf_pushed [OF wf room, of x] rb_ready_pushed [OF 3(1) room, of x] show ?case
    by (simp add: rb_enq_def rb_push_alone rb_ready_no_overflow)
next
  case (4 b q x)
  then have "rb_length q = rb_size q" by (simp add: rb_ready_def rb_length_contents)
  with 4 show ?case by (simp add: rb_enq_def rb_push_alone rb_ready_full)
next
  case (5 b q x xs)
  then have wf: "rb_wf q" by (simp add: rb_ready_def)
  with 5 have "0 < rb_length q" using rb_length_contents [of q] by auto
  moreover from wf obtain k where "k < 64" "rb_size q = 2 ^ k" by (auto simp: rb_wf_def)
  ultimately have "rb_deq q = Some (rb_popped (Init x) q, Some x)"
    using rb_wf_popped [OF wf 5(2)] by (simp add: rb_deq_def rb_pop_alone_some)
  with rb_wf_popped [OF wf 5(2)] rb_ready_popped [OF 5] show ?case by blast
next
  case (6 b q)
  then show ?case using rb_length_contents [of q] by (simp add: rb_ready_def rb_deq_def rb_pop_alone_empty)
qed

lemma rb_empty_wf:
  "k < 64 \<Longrightarrow> rb_wf (rb_empty (2 ^ k) :: 'a ring) \<and> rb_contents (rb_empty (2 ^ k) :: 'a ring) = []"
  by (auto simp: rb_wf_def rb_empty_def rb_length_def rb_slots_def rb_contents_def)

section \<open>Concurrent use\<close>

text \<open>
  The invariant of any number of concurrent producers and consumers, up to the wrap-around of
  the indices.  \<open>rb_core\<close>: the indices count reservations and handed-out values and are at
  most the size apart; as long as no slot was read before it was written, every slot between
  them that has been written holds its value and the values handed out are those reserved
  first, in order.
\<close>

definition rb_core :: "nat \<Rightarrow> 'a ring \<Rightarrow> bool" where
  "rb_core k r \<longleftrightarrow>
     k < 64 \<and> rb_size r = 2 ^ k \<and> length (hist_pushed r) < 2 ^ 64 \<and>
     unat (head r) = length (hist_pushed r) \<and> unat (tail r) = length (hist_popped r) \<and>
     unat (tail r) \<le> unat (head r) \<and> unat (head r) \<le> unat (tail r) + 2 ^ k \<and>
     hist_written r \<subseteq> {..<unat (head r)} \<and>
     (\<not> hist_raced r \<longrightarrow>
       {..<unat (tail r)} \<subseteq> hist_written r \<and>
       (\<forall>i \<in> hist_written r. unat (tail r) \<le> i \<longrightarrow> buffer r ! (i mod 2 ^ k) = Init (hist_pushed r ! i)) \<and>
       (\<forall>i < unat (tail r). hist_popped r ! i = Init (hist_pushed r ! i)))"

text \<open>What the local variables of \<open>push\<close> and \<open>pop\<close> say.\<close>

fun push_ok :: "'a ring \<Rightarrow> 'a \<Rightarrow> push_pc \<Rightarrow> bool" where
  "push_ok r v PU_tail \<longleftrightarrow> True"
| "push_ok r v (PU_head current_tail) \<longleftrightarrow> unat current_tail \<le> unat (tail r)"
| "push_ok r v (PU_cas current_head) \<longleftrightarrow>
     unat current_head < unat (tail r) + rb_size r \<and> unat current_head \<le> unat (head r)"
| "push_ok r v (PU_write current_head) \<longleftrightarrow>
     unat current_head < unat (head r) \<and> hist_pushed r ! unat current_head = v \<and>
     unat current_head \<notin> hist_written r"

fun pop_ok :: "'a ring \<Rightarrow> 'a pop_pc \<Rightarrow> bool" where
  "pop_ok r PO_tail \<longleftrightarrow> True"
| "pop_ok r (PO_head current_tail) \<longleftrightarrow> unat current_tail \<le> unat (tail r)"
| "pop_ok r (PO_read current_tail) \<longleftrightarrow>
     unat current_tail \<le> unat (tail r) \<and> unat current_tail < unat (head r)"
| "pop_ok r (PO_cas current_tail v) \<longleftrightarrow>
     unat current_tail \<le> unat (tail r) \<and> unat current_tail < unat (head r) \<and>
     (\<not> hist_raced r \<longrightarrow> unat current_tail \<in> hist_written r \<and>
       (current_tail = tail r \<longrightarrow> v = Init (hist_pushed r ! unat current_tail)))"

fun rb_ok :: "'a ring \<Rightarrow> 'a rb_pc \<Rightarrow> bool" where
  "rb_ok r (Rb_push v p) \<longleftrightarrow> push_ok r v p"
| "rb_ok r (Rb_try_push v p) \<longleftrightarrow> push_ok r v p"
| "rb_ok r (Rb_pop p) \<longleftrightarrow> pop_ok r p"
| "rb_ok r (Rb_try_pop p) \<longleftrightarrow> pop_ok r p"
| "rb_ok r _ \<longleftrightarrow> True"

text \<open>The slot a thread has reserved and not yet written.\<close>

fun push_pending :: "push_pc \<Rightarrow> nat option" where
  "push_pending (PU_write h) = Some (unat h)"
| "push_pending _ = None"

fun rb_pending :: "'a rb_pc \<Rightarrow> nat option" where
  "rb_pending (Rb_push v p) = push_pending p"
| "rb_pending (Rb_try_push v p) = push_pending p"
| "rb_pending _ = None"

text \<open>A change of the ring by one thread keeps what holds of a thread that has not reserved slot \<open>i\<close>.\<close>

definition rb_keeps :: "nat option \<Rightarrow> 'a ring \<Rightarrow> 'a ring \<Rightarrow> bool" where
  "rb_keeps i r r' \<longleftrightarrow>
     (\<forall>pc. rb_ok r pc \<longrightarrow> i = None \<or> rb_pending pc \<noteq> i \<longrightarrow> rb_ok r' pc)"

lemma rb_keepsI:
  assumes "\<And>v p. push_ok r v p \<Longrightarrow> i = None \<or> rb_pending (Rb_push v p) \<noteq> i \<Longrightarrow> push_ok r' v p"
    and "\<And>p. pop_ok r p \<Longrightarrow> pop_ok r' p"
  shows "rb_keeps i r r'"
proof -
  have "rb_ok r' pc" if "rb_ok r pc" "i = None \<or> rb_pending pc \<noteq> i" for pc
  proof (cases pc)
    case (Rb_push v p)
    with that assms(1) [of v p] show ?thesis by simp
  next
    case (Rb_try_push v p)
    with that assms(1) [of v p] show ?thesis by (cases p) auto
  qed (use that assms(2) in auto)
  then show ?thesis by (simp add: rb_keeps_def)
qed

lemma rb_core_reserve:
  assumes "rb_core k r" and "push_ok r v (PU_cas (head r))" and "length (hist_pushed r) + 1 < 2 ^ 64"
  shows "rb_core k (rb_reserve v (head r) r) \<and> rb_keeps None r (rb_reserve v (head r) r) \<and>
    push_ok (rb_reserve v (head r) r) v (PU_write (head r))"
proof (intro conjI)
  have h: "unat (head r) = length (hist_pushed r)" using assms(1) by (simp add: rb_core_def)
  with assms(3) have h1: "unat (head r + 1) = Suc (length (hist_pushed r))"
    by (simp add: unat_word_ariths)
  show "rb_core k (rb_reserve v (head r) r)"
    using assms h h1 unfolding rb_core_def
    by (auto simp: rb_reserve_def nth_append subset_iff less_Suc_eq)
  show "push_ok (rb_reserve v (head r) r) v (PU_write (head r))"
    using assms(1) h h1 unfolding rb_core_def by (auto simp: rb_reserve_def)
  show "rb_keeps None r (rb_reserve v (head r) r)"
  proof (rule rb_keepsI)
    show "push_ok (rb_reserve v (head r) r) w p" if "push_ok r w p" for w p
      using that h h1 by (cases p) (auto simp: rb_reserve_def nth_append)
    show "pop_ok (rb_reserve v (head r) r) p" if "pop_ok r p" for p
      using that h h1 by (cases p) (auto simp: rb_reserve_def nth_append)
  qed
qed

lemma rb_core_write:
  assumes "rb_core k r" and "push_ok r v (PU_write h)"
  shows "rb_core k (rb_write v h r) \<and> rb_keeps (Some (unat h)) r (rb_write v h r)"
proof (intro conjI)
  have "(buffer r)[unat h mod 2 ^ k := Init v] ! (i mod 2 ^ k) = Init (hist_pushed r ! i)"
    if "\<not> hist_raced r" and "i \<in> insert (unat h) (hist_written r)" and "unat (tail r) \<le> i" for i
  proof (cases "i = unat h")
    case True
    with assms show ?thesis by (simp add: rb_core_def)
  next
    case False
    with that assms have i: "i < unat (tail r) + 2 ^ k" and iw: "i \<in> hist_written r"
      and hn: "unat h < unat (tail r) + 2 ^ k"
      by (auto simp: rb_core_def subset_iff)
    have ht: "unat (tail r) \<le> unat h"
    proof (rule ccontr)
      assume "\<not> unat (tail r) \<le> unat h"
      with that assms have "unat h \<in> hist_written r" by (auto simp: rb_core_def subset_iff)
      with assms(2) show False by simp
    qed
    from mod_slots_distinct [OF that(3) i ht hn False] have "i mod 2 ^ k \<noteq> unat h mod 2 ^ k" .
    with iw that assms show ?thesis by (auto simp: rb_core_def)
  qed
  with assms show "rb_core k (rb_write v h r)"
    unfolding rb_core_def by (auto simp: rb_write_def idx_mod_def)
  show "rb_keeps (Some (unat h)) r (rb_write v h r)"
  proof (rule rb_keepsI)
    show "push_ok (rb_write v h r) w p"
      if "push_ok r w p" "Some (unat h) = None \<or> rb_pending (Rb_push w p) \<noteq> Some (unat h)" for w p
      using that by (cases p) (auto simp: rb_write_def)
    show "pop_ok (rb_write v h r) p" if "pop_ok r p" for p
      using that by (cases p) (auto simp: rb_write_def)
  qed
qed

lemma rb_core_note_read:
  assumes "rb_core k r" and "pop_ok r (PO_read i)"
  shows "rb_core k (rb_note_read i r) \<and> rb_keeps None r (rb_note_read i r) \<and>
    pop_ok (rb_note_read i r) (PO_cas i (buffer r ! (unat i mod rb_size r)))"
proof (intro conjI)
  show "rb_core k (rb_note_read i r)"
    using assms(1) unfolding rb_core_def by (auto simp: rb_note_read_def)
  show "pop_ok (rb_note_read i r) (PO_cas i (buffer r ! (unat i mod rb_size r)))"
    using assms by (auto simp: rb_core_def rb_note_read_def)
  show "rb_keeps None r (rb_note_read i r)"
  proof (rule rb_keepsI)
    show "push_ok (rb_note_read i r) w p" if "push_ok r w p" for w p
      using that by (cases p) (auto simp: rb_note_read_def)
    show "pop_ok (rb_note_read i r) p" if "pop_ok r p" for p
      using that by (cases p) (auto simp: rb_note_read_def)
  qed
qed

lemma rb_core_advance:
  assumes "rb_core k r" and "pop_ok r (PO_cas (tail r) x)"
  shows "rb_core k (rb_advance (tail r) x r) \<and> rb_keeps None r (rb_advance (tail r) x r)"
proof (intro conjI)
  have t1: "unat (tail r + 1) = Suc (unat (tail r))"
    using assms by (simp add: rb_core_def unat_word_ariths)
  show "rb_core k (rb_advance (tail r) x r)"
    using assms t1 unfolding rb_core_def
    by (auto simp: rb_advance_def lessThan_Suc nth_append less_Suc_eq)
  have moved: "tail r + 1 \<noteq> i" if "unat i \<le> unat (tail r)" for i
    using that t1 by auto
  show "rb_keeps None r (rb_advance (tail r) x r)"
  proof (rule rb_keepsI)
    show "push_ok (rb_advance (tail r) x r) w p" if "push_ok r w p" for w p
      using that t1 by (cases p) (auto simp: rb_advance_def)
    show "pop_ok (rb_advance (tail r) x r) p" if "pop_ok r p" for p
      using that t1 moved by (cases p) (auto simp: rb_advance_def)
  qed
qed

lemma rb_core_discard:
  "rb_core k (rb_discard v r) = rb_core k r" "push_ok (rb_discard v r) w p = push_ok r w p"
  "pop_ok (rb_discard v r) q = pop_ok r q" "tail (rb_discard v r) = tail r"
  subgoal by (simp add: rb_core_def rb_discard_def)
  subgoal by (cases p) (simp_all add: rb_discard_def)
  subgoal by (cases q) (simp_all add: rb_discard_def)
  subgoal by (simp add: rb_discard_def)
  done

lemma rb_ok_discard: "rb_ok (rb_discard v r) pc = rb_ok r pc"
  by (cases pc) (simp_all add: rb_core_discard)

text \<open>What a step of \<open>push\<close> and of \<open>pop\<close> does to the ring and to the assertions.\<close>

lemma rb_keeps_refl: "rb_keeps i r r"
  by (simp add: rb_keeps_def)

lemma rb_keeps_discard: "rb_keeps i r (rb_discard v r)"
  by (simp add: rb_keeps_def rb_ok_discard)

lemma rb_core_head_room:
  assumes "rb_core k r" and "unat i \<le> unat (tail r)" and "\<not> rb_size r \<le> unat (head r - i)"
  shows "unat (head r) < unat (tail r) + rb_size r"
proof -
  from assms(1,2) have "unat i \<le> unat (head r)" by (simp add: rb_core_def)
  then have "unat (head r - i) = unat (head r) - unat i"
    by (simp add: unat_sub word_le_nat_alt)
  with assms(2,3) show ?thesis by linarith
qed

lemma rb_core_not_empty:
  assumes "rb_core k r" and "unat i \<le> unat (tail r)" and "head r \<noteq> i"
  shows "unat i < unat (head r)"
  using assms by (metis rb_core_def le_trans le_neq_implies_less word_unat_eq_iff)

definition push_effect ::
  "nat \<Rightarrow> 'a \<Rightarrow> 'a ring \<Rightarrow> push_pc \<Rightarrow> 'a ring \<Rightarrow> (push_pc, 'a + unit) ctl \<Rightarrow> bool" where
  "push_effect k v r p r' c \<longleftrightarrow>
     rb_core k r' \<and> rb_keeps (push_pending p) r r' \<and>
     (\<forall>p'. c = Next p' \<longrightarrow> push_ok r' v p' \<and>
       (push_pending p' = None \<or> push_pending p' = Some (unat (head r))))"

definition pop_effect ::
  "nat \<Rightarrow> 'a ring \<Rightarrow> 'a ring \<Rightarrow> ('a pop_pc, 'a slot option) ctl \<Rightarrow> bool" where
  "pop_effect k r r' c \<longleftrightarrow>
     rb_core k r' \<and> rb_keeps None r r' \<and> (\<forall>p'. c = Next p' \<longrightarrow> pop_ok r' p')"

lemma push_step_effect:
  assumes "rb_core k r" and "push_ok r v p" and "length (hist_pushed r') < 2 ^ 64"
    and "rb_push_step checks weak v r p = (r', c) \<or> rb_try_push_step checks weak v r p = (r', c)"
  shows "push_effect k v r p r' c"
proof (cases p)
  case PU_tail
  with assms show ?thesis by (auto simp: push_effect_def rb_keeps_refl)
next
  case (PU_head i)
  with assms rb_core_head_room [OF assms(1), of i] show ?thesis
    by (auto simp: push_effect_def rb_keeps_refl split: if_splits)
next
  case (PU_cas h)
  show ?thesis
  proof (cases "r' = rb_reserve v h r \<and> h = head r")
    case True
    with assms(3) have "length (hist_pushed r) + 1 < 2 ^ 64" by (simp add: rb_reserve_def)
    from rb_core_reserve [OF assms(1) _ this, of v] True assms(2,4) PU_cas show ?thesis
      by (auto simp: push_effect_def split: if_splits)
  next
    case False
    with assms PU_cas show ?thesis
      by (auto simp: push_effect_def rb_keeps_refl split: if_splits)
  qed
next
  case (PU_write h)
  with assms rb_core_write [OF assms(1), of v h] show ?thesis
    by (auto simp: push_effect_def)
qed

lemma pop_step_effect:
  assumes "rb_core k r" and "pop_ok r p"
    and "rb_pop_step weak r p = (r', c) \<or> rb_try_pop_step checks weak r p = (r', c)"
  shows "pop_effect k r r' c"
proof (cases p)
  case PO_tail
  with assms show ?thesis by (auto simp: pop_effect_def rb_keeps_refl)
next
  case (PO_head i)
  with assms rb_core_not_empty [OF assms(1), of i] show ?thesis
    by (auto simp: pop_effect_def rb_keeps_refl split: if_splits)
next
  case (PO_read i)
  from assms(1) have "idx_mask (rb_size r) i = unat i mod rb_size r"
    by (simp add: rb_core_def idx_mask_pow2 idx_mod_def)
  with assms rb_core_note_read [OF assms(1), of i] PO_read show ?thesis
    by (auto simp: pop_effect_def idx_mod_def simp del: pop_ok.simps)
next
  case (PO_cas i x)
  with assms rb_core_advance [OF assms(1), of x] show ?thesis
    by (auto simp: pop_effect_def rb_core_discard rb_keeps_discard rb_keeps_refl split: if_splits)
qed

text \<open>The invariant of the system, and that a step of any thread keeps it.\<close>

definition rb_inv :: "nat \<Rightarrow> ('a ring, 'a rb_thread) sys \<Rightarrow> bool" where
  "rb_inv k s \<longleftrightarrow> length (hist_pushed (glob s)) < 2 ^ 64 \<longrightarrow>
     rb_core k (glob s) \<and> each (\<lambda>t l. rb_ok (glob s) (rb_pc l)) (locs s) \<and>
     (\<forall>t < length (locs s). \<forall>u < length (locs s). \<forall>i.
        rb_pending (rb_pc (locs s ! t)) = Some i \<longrightarrow> rb_pending (rb_pc (locs s ! u)) = Some i \<longrightarrow> t = u)"

definition rb_init :: "nat \<Rightarrow> ('a ring, 'a rb_thread) sys \<Rightarrow> bool" where
  "rb_init k s \<longleftrightarrow> rb_new (2 ^ k) = Some (glob s) \<and> (\<exists>n. locs s = replicate n rb_idle)"

definition rb_effect :: "nat \<Rightarrow> 'a ring \<Rightarrow> 'a rb_pc \<Rightarrow> 'a ring \<Rightarrow> 'a rb_pc \<Rightarrow> bool" where
  "rb_effect k r pc r' pc' \<longleftrightarrow>
     rb_core k r' \<and> rb_ok r' pc' \<and> rb_keeps (rb_pending pc) r r' \<and>
     (rb_pending pc' = None \<or> rb_pending pc' = Some (unat (head r)))"

lemma rb_prog_effect:
  assumes "rb_core k r" and "rb_ok r (rb_pc l)" and "length (hist_pushed r') < 2 ^ 64"
    and "rb_prog checks e t r l = Some (r', l')"
  shows "rb_effect k r (rb_pc l) r' (rb_pc l')"
proof (cases "rb_pc l")
  case Rb_idle
  with assms show ?thesis
    by (cases "call e") (auto simp: rb_prog_def rb_effect_def rb_keeps_refl)
next
  case (Rb_push v p)
  obtain r1 c where step: "rb_push_step checks (weak_fails e) v r p = (r1, c)" by fastforce
  with assms(4) Rb_push have "r' = r1" by (cases c) (auto simp: rb_prog_def)
  with step assms Rb_push have "push_effect k v r p r1 c"
    by (intro push_step_effect) auto
  with step assms(4) Rb_push show ?thesis
    by (cases c) (auto simp: rb_prog_def rb_effect_def push_effect_def)
next
  case (Rb_try_push v p)
  obtain r1 c where step: "rb_try_push_step checks (weak_fails e) v r p = (r1, c)" by fastforce
  with assms(4) Rb_try_push have "r' = r1" by (cases c) (auto simp: rb_prog_def)
  with step assms Rb_try_push have "push_effect k v r p r1 c"
    by (intro push_step_effect) auto
  with step assms(4) Rb_try_push show ?thesis
    by (cases c) (auto simp: rb_prog_def rb_effect_def push_effect_def)
next
  case (Rb_pop p)
  obtain r1 c where step: "rb_pop_step (weak_fails e) r p = (r1, c)" by fastforce
  with assms Rb_pop have "pop_effect k r r1 c" by (intro pop_step_effect) auto
  with step assms(4) Rb_pop show ?thesis
    by (cases c) (auto simp: rb_prog_def rb_effect_def pop_effect_def)
next
  case (Rb_try_pop p)
  obtain r1 c where step: "rb_try_pop_step checks (weak_fails e) r p = (r1, c)" by fastforce
  with assms Rb_try_pop have "pop_effect k r r1 c" by (intro pop_step_effect) auto
  with step assms(4) Rb_try_pop show ?thesis
    by (cases c) (auto simp: rb_prog_def rb_effect_def pop_effect_def)
next
  case Rb_dead
  with assms(4) show ?thesis by (simp add: rb_prog_def)
qed

lemma push_step_grows:
  "fst (rb_push_step checks weak v r p) = r' \<or> fst (rb_try_push_step checks weak v r p) = r' \<Longrightarrow>
    length (hist_pushed r) \<le> length (hist_pushed r')"
  by (cases p) (auto simp: rb_access_defs split: if_splits)

lemma pop_step_grows:
  "fst (rb_pop_step weak r p) = r' \<or> fst (rb_try_pop_step checks weak r p) = r' \<Longrightarrow>
    length (hist_pushed r) \<le> length (hist_pushed r')"
  by (cases p) (auto simp: rb_access_defs split: if_splits)

lemma rb_resume_glob: "rb_resume c k l x = Some (r', l') \<Longrightarrow> fst x = r'"
  by (cases x; cases "snd x") auto

lemma rb_prog_grows:
  "rb_prog checks e t r l = Some (r', l') \<Longrightarrow> length (hist_pushed r) \<le> length (hist_pushed r')"
  by (auto simp: rb_prog_def split: rb_pc.splits
      dest!: rb_resume_glob intro: push_step_grows pop_step_grows)

lemma rb_pending_bound: "rb_ok r pc \<Longrightarrow> rb_pending pc = Some i \<Longrightarrow> i < unat (head r)"
  by (cases pc rule: rb_pending.cases) (auto elim: push_pending.elims)

lemma rb_inv_step:
  assumes inv: "rb_inv k \<lparr>glob = g, locs = ls\<rparr>" and t: "t < length ls"
    and step: "rb_prog checks e t g (ls ! t) = Some (g', l')"
  shows "rb_inv k \<lparr>glob = g', locs = ls[t := l']\<rparr>"
proof (cases "length (hist_pushed g') < 2 ^ 64")
  case True
  with rb_prog_grows [OF step] have "length (hist_pushed g) < 2 ^ 64" by linarith
  with inv have core: "rb_core k g" and ok: "each (\<lambda>t l. rb_ok g (rb_pc l)) ls"
    and uniq: "\<And>u v i. u < length ls \<Longrightarrow> v < length ls \<Longrightarrow> rb_pending (rb_pc (ls ! u)) = Some i \<Longrightarrow>
      rb_pending (rb_pc (ls ! v)) = Some i \<Longrightarrow> u = v"
    unfolding rb_inv_def by auto
  from rb_prog_effect [OF core eachD [OF ok t] True step]
  have eff: "rb_core k g'" "rb_ok g' (rb_pc l')" "rb_keeps (rb_pending (rb_pc (ls ! t))) g g'"
    and new: "rb_pending (rb_pc l') = None \<or> rb_pending (rb_pc l') = Some (unat (head g))"
    by (simp_all add: rb_effect_def)
  have old: "i < unat (head g)" if "u < length ls" "rb_pending (rb_pc (ls ! u)) = Some i" for u i
    using rb_pending_bound eachD [OF ok that(1)] that(2) by blast
  have "each (\<lambda>u l. rb_ok g' (rb_pc l)) (ls[t := l'])"
  proof (rule each_update [OF ok t])
    show "rb_ok g' (rb_pc l')" by (rule eff)
  next
    fix u
    assume u: "u < length ls" "u \<noteq> t" "rb_ok g (rb_pc (ls ! u))"
    with uniq [OF t u(1)] have "rb_pending (rb_pc (ls ! t)) = None \<or>
      rb_pending (rb_pc (ls ! u)) \<noteq> rb_pending (rb_pc (ls ! t))" by auto
    with eff(3) u(3) show "rb_ok g' (rb_pc (ls ! u))" unfolding rb_keeps_def by blast
  qed
  moreover have "u = v" if "u < length ls" "v < length ls"
    "rb_pending (rb_pc (ls[t := l'] ! u)) = Some i" "rb_pending (rb_pc (ls[t := l'] ! v)) = Some i"
    for u v i
    using that uniq [of u v i] new old [of u i] old [of v i] t
    by (cases "u = t"; cases "v = t") auto
  ultimately show ?thesis using eff(1) unfolding rb_inv_def by auto
qed (simp add: rb_inv_def)

lemma rb_core_empty: "k < 64 \<Longrightarrow> rb_core k (rb_empty (2 ^ k))"
  by (simp add: rb_core_def rb_empty_def)

lemma rb_inv_init: "k < 64 \<Longrightarrow> rb_init k s \<Longrightarrow> rb_inv k s"
proof -
  assume "k < 64" and "rb_init k s"
  then have "glob s = rb_empty (2 ^ k)" and "\<exists>n. locs s = replicate n rb_idle"
    by (auto simp: rb_init_def rb_new_def split: if_splits)
  with rb_core_empty [OF \<open>k < 64\<close>] show ?thesis
    by (auto simp: rb_inv_def each_replicate rb_idle_def)
qed

interpretation rb_sys: invariant_system "rb_prog checks" "\<lambda>s. k < 64 \<and> rb_init k s" "rb_inv k"
  for checks k
  by unfold_locales (use rb_inv_init rb_inv_step in blast)+

section \<open>Operations that never wait\<close>

text \<open>\<open>try_push\<close> and \<open>try_pop\<close> make one attempt of at most four steps.\<close>

fun push_steps_left :: "push_pc \<Rightarrow> nat" where
  "push_steps_left PU_tail = 4"
| "push_steps_left (PU_head _) = 3"
| "push_steps_left (PU_cas _) = 2"
| "push_steps_left (PU_write _) = 1"

fun pop_steps_left :: "'a pop_pc \<Rightarrow> nat" where
  "pop_steps_left PO_tail = 4"
| "pop_steps_left (PO_head _) = 3"
| "pop_steps_left (PO_read _) = 2"
| "pop_steps_left (PO_cas _ _) = 1"

lemma push_steps_left_bounds [simp]: "0 < push_steps_left p" "push_steps_left p \<le> 4"
  by (cases p, simp_all)+

lemma pop_steps_left_bounds [simp]: "0 < pop_steps_left p" "pop_steps_left p \<le> 4"
  by (cases p, simp_all)+

lemma try_push_advances:
  "rb_try_push_step checks weak v r p = (r', Next p') \<Longrightarrow> push_steps_left p' < push_steps_left p"
  by (cases p) (auto split: if_splits)

lemma try_pop_advances:
  "rb_try_pop_step checks weak r p = (r', Next p') \<Longrightarrow> pop_steps_left p' < pop_steps_left p"
  by (cases p) (auto split: if_splits)

fun rb_steps_left :: "'a rb_pc \<Rightarrow> nat" where
  "rb_steps_left (Rb_try_push v p) = push_steps_left p"
| "rb_steps_left (Rb_try_pop p) = pop_steps_left p"
| "rb_steps_left _ = 0"

definition rb_home :: "'a rb_thread \<Rightarrow> bool" where
  "rb_home l \<longleftrightarrow> rb_pc l \<in> {Rb_idle, Rb_dead}"

lemma rb_resume_Some: "rb_resume c k l x \<noteq> None"
  by (cases "(c, k, l, x)" rule: rb_resume.cases) simp_all

lemma rb_resume_home:
  "rb_resume c k l x = Some (g', l') \<Longrightarrow>
    rb_home l' \<or> (\<exists>r p. x = (r, Next p) \<and> rb_pc l' = c p)"
  by (cases "(c, k, l, x)" rule: rb_resume.cases) (auto simp: rb_home_def)

lemma rb_enabled: "0 < rb_steps_left (rb_pc l) \<Longrightarrow> rb_prog checks e t g l \<noteq> None"
  by (cases "rb_pc l") (simp_all add: rb_prog_def rb_resume_Some)

lemma rb_advances:
  assumes "0 < rb_steps_left (rb_pc l)" and "rb_prog checks e t g l = Some (g', l')"
  shows "rb_home l' \<or> 0 < rb_steps_left (rb_pc l') \<and> rb_steps_left (rb_pc l') < rb_steps_left (rb_pc l)"
proof (cases "rb_pc l")
  case (Rb_try_push v p)
  with assms(2) have "rb_resume (Rb_try_push v) Push_result l
      (rb_try_push_step checks (weak_fails e) v g p) = Some (g', l')" by (simp add: rb_prog_def)
  from rb_resume_home [OF this] Rb_try_push show ?thesis by (auto dest: try_push_advances)
next
  case (Rb_try_pop p)
  with assms(2) have "rb_resume Rb_try_pop Pop_result l
      (rb_try_pop_step checks (weak_fails e) g p) = Some (g', l')" by (simp add: rb_prog_def)
  from rb_resume_home [OF this] Rb_try_pop show ?thesis by (auto dest: try_pop_advances)
qed (use assms(1) in simp_all)

interpretation rb_free: wait_free "rb_prog checks" "\<lambda>l. rb_steps_left (rb_pc l)" rb_home "\<lambda>_. False"
  for checks :: bool
  by unfold_locales (use rb_enabled rb_advances in blast)+

lemma rb_try_wait_free:
  "t < length (locs s) \<Longrightarrow> rb_pc (locs s ! t) \<in> (\<Union>v. range (Rb_try_push v)) \<union> range Rb_try_pop \<Longrightarrow>
    returns_within (rb_prog checks) rb_home (\<lambda>_. False) 4 t s"
  by (intro rb_free.returns) auto

section \<open>Properties\<close>

text \<open>
  C6: With any number of threads pushing and popping concurrently (blocking-free
  or \<open>try_\<close> variants, compare-exchange failures included), as long as fewer than 2^64 values
  were pushed: never more than N values are reserved and not yet handed out, and unless some
  read overtook the write of its slot, the values handed out are exactly the first values
  pushed, in the order of their reservations, each exactly once.\<close>

theorem rb_concurrent_fifo:
  assumes "reachable (rb_prog checks) (\<lambda>s. k < 64 \<and> rb_init k s) s"
    and "length (hist_pushed (glob s)) < 2 ^ 64"
  shows "length (hist_popped (glob s)) \<le> length (hist_pushed (glob s)) \<and>
    length (hist_pushed (glob s)) \<le> length (hist_popped (glob s)) + 2 ^ k \<and>
    (hist_raced (glob s) \<or>
     hist_popped (glob s) = map Init (take (length (hist_popped (glob s))) (hist_pushed (glob s))))"
proof -
  from rb_sys.reachable_inv [OF assms(1)] assms(2) have core: "rb_core k (glob s)"
    by (simp add: rb_inv_def)
  then have "hist_popped (glob s) = map Init (take (length (hist_popped (glob s))) (hist_pushed (glob s)))"
    if "\<not> hist_raced (glob s)"
    using that by (intro nth_equalityI) (auto simp: rb_core_def)
  with core show ?thesis by (auto simp: rb_core_def)
qed

text \<open>
  C38: Without other threads and without a spurious failure of an exchange, the buffer is a bounded first-in
  first-out queue: pushing a list with \<open>push\<close> appends what fits and gives the rest back, and \<open>n\<close> calls of
  \<open>pop\<close> then return the oldest elements first.  In a build without overflow checks this holds whatever the
  indices (they may have wrapped around).  In a build with overflow checks it holds as long as the head is not
  below the tail and stays below 2^64; \<open>push\<close> panics exactly when the
  head is below the tail, or when there is room and the head is \<open>usize::MAX\<close>.\<close>

theorem rb_fifo:
  assumes "rb_wf r"
  shows "((checks \<longrightarrow> unat (tail r) \<le> unat (head r) \<and> unat (head r) + length xs < 2 ^ 64) \<longrightarrow>
      (\<exists>r' r''. rb.enq_list checks xs r = Some (r', drop (rb_size r - length (rb_contents r)) xs) \<and>
        rb.deq_list n r' = Some (r'', take n (rb_contents r @ take (rb_size r - length (rb_contents r)) xs)) \<and>
        rb_wf r'' \<and> rb_size r'' = rb_size r)) \<and>
    (rb_push_alone checks v r = Panics r \<longleftrightarrow>
      checks \<and> (head r < tail r \<or> head r = USIZE_MAX \<and> length (rb_contents r) < rb_size r))"
proof (intro conjI impI)
  assume "checks \<longrightarrow> unat (tail r) \<le> unat (head r) \<and> unat (head r) + length xs < 2 ^ 64"
  with assms have "rb_ready checks (length xs + 0) r" by (simp add: rb_ready_def)
  from rb.enq_list_fills [OF this] obtain r' where r':
    "rb.enq_list checks xs r = Some (r', drop (rb_size r - length (rb_contents r)) xs)" "rb_ready checks 0 r'"
    "rb_contents r' = rb_contents r @ take (rb_size r - length (rb_contents r)) xs"
    "rb_size r' = rb_size r" by blast
  from rb.deq_list_takes [OF r'(2), of n] r'
  show "\<exists>r' r''. rb.enq_list checks xs r = Some (r', drop (rb_size r - length (rb_contents r)) xs) \<and>
      rb.deq_list n r' = Some (r'', take n (rb_contents r @ take (rb_size r - length (rb_contents r)) xs)) \<and>
      rb_wf r'' \<and> rb_size r'' = rb_size r"
    by (auto simp: rb_ready_def)
qed (auto simp: rb_push_alone push_overflows_def rb_length_contents [OF assms])

text \<open>
  Dropping the buffer drops exactly the values it still holds, in order,
  when the head index has not wrapped around below the tail; after it has, the range
  \<open>tail..head\<close> is empty and the values are leaked.\<close>

theorem rb_drop_contents:
  assumes "rb_wf r"
  shows "rb_drop r = (if tail r \<le> head r then map Init (rb_contents r) else [])"
proof (cases "tail r \<le> head r")
  case True
  then have le: "unat (tail r) \<le> unat (head r)" by (simp add: word_le_nat_alt)
  from assms obtain k where k: "k < 64" "rb_size r = 2 ^ k" by (auto simp: rb_wf_def)
  have idx: "idx_mask (rb_size r) (of_nat i) = i mod rb_size r" if "i < unat (head r)" for i
  proof -
    have "i < 2 ^ 64" using that unsigned_less [where 'a = nat, of "head r"] by simp
    then show ?thesis by (simp add: k idx_mask_pow2 idx_mod_def unat_of_nat_usize)
  qed
  have len: "rb_length r = unat (head r) - unat (tail r)"
    using True by (simp add: rb_length_def unat_sub)
  have "rb_drop r = rb_slots r"
  proof (rule nth_equalityI)
    show "length (rb_drop r) = length (rb_slots r)" by (simp add: rb_drop_def rb_slots_def len)
  next
    fix i
    assume "i < length (rb_drop r)"
    then show "rb_drop r ! i = rb_slots r ! i"
      using idx [of "unat (tail r) + i"] by (simp add: rb_drop_def rb_slots_def len rb_slot_def)
  qed
  with True rb_contents_slots [OF assms] show ?thesis by simp
next
  case False
  then have "unat (head r) \<le> unat (tail r)" by (simp add: word_le_nat_alt)
  with False show ?thesis by (simp add: rb_drop_def)
qed

lemmas rb_run_eval = sys_step_def rb_prog_def quiet_def rb_idle_def rb_empty_def rb_access_defs
  sub_overflows_def inc_overflows_def idx_mod_def idx_mask_def replicate_numeral

lemmas rb_alone_eval = rb_enq_def rb_push_alone_def rb_deq_def rb_pop_alone_def solo_numeral

text \<open>
  C40: The two ways in which the buffer maps an index to a slot, \<open>i % N\<close> in \<open>push\<close> and
  \<open>i & (N - 1)\<close> in \<open>pop\<close>, agree on all indices exactly when the size is a power of two,
  which is what the message of the assertion in \<open>new\<close> asks for; the assertion accepts any even size.\<close>

theorem rb_index_maps_agree:
  assumes "0 < n" and "n < 2 ^ 64"
  shows "((\<forall>i. idx_mod n i = idx_mask n i) \<longleftrightarrow> (\<exists>k. n = 2 ^ k)) \<and>
    (rb_new n = (None :: 'a ring option) \<longleftrightarrow> odd n)"
proof -
  have "\<exists>k. n = 2 ^ k" if "\<forall>i. idx_mod n i = idx_mask n i"
  proof (rule and_pred_0_power [OF assms(1)])
    have "idx_mask n (of_nat n) = idx_mod n (of_nat n)" using that by simp
    then show "n AND (n - 1) = 0"
      using assms by (simp add: idx_mask_nat idx_mod_def unat_of_nat_usize)
  qed
  moreover have "idx_mod n i = idx_mask n i" if "n = 2 ^ k" for i k
  proof -
    from that assms(2) have "(2 :: nat) ^ k < 2 ^ 64" by simp
    then have "k < 64" by (rule power_less_imp_less_exp [rotated]) simp
    with that show ?thesis by (simp add: idx_mask_pow2)
  qed
  ultimately show ?thesis by (auto simp: rb_new_def)
qed

text \<open>
  The assertion of \<open>new\<close> accepts every even size.  With six slots,
  \<open>push\<close> maps an index to a slot by remainder and \<open>pop\<close> by masking with 5: the third value
  pushed is lost, and the first one is returned a second time in its place.\<close>

theorem rb_non_power_of_two:
  "rb_new 6 = Some (rb_empty 6) \<and>
   (\<exists>r r'. rb.enq_list checks [a, b, c] (rb_empty 6) = Some (r, []) \<and>
     rb.deq_list (Suc (Suc (Suc 0))) r = Some (r', [a, b, a]))"
  by (simp add: rb_new_def rb_alone_eval rb_run_eval)

text \<open>Two threads on a buffer of two slots; the first pushes a value and stops before writing it.\<close>

definition rb_start :: "('a ring, 'a rb_thread) sys" where
  "rb_start = \<lparr>glob = rb_empty 2, locs = [rb_idle, rb_idle]\<rparr>"

definition rb_overtaken :: "'a \<Rightarrow> ('a ring, 'a rb_thread) sys" where
  "rb_overtaken v =
     \<lparr>glob = (rb_empty 2)\<lparr>head := 1, tail := 1, hist_pushed := [v], hist_popped := [Uninit],
        hist_raced := True\<rparr>,
      locs = [\<lparr>rb_pc = Rb_push v (PU_write 0), rb_last = None\<rparr>,
        \<lparr>rb_pc = Rb_idle, rb_last = Some (Pop_result (Some Uninit))\<rparr>]\<rparr>"

lemma rb_start_reachable: "reachable (rb_prog checks) (\<lambda>s. 1 < (64 :: nat) \<and> rb_init 1 s) rb_start"
proof (rule reachable_init)
  have "[rb_idle, rb_idle] = replicate 2 rb_idle" by (simp add: replicate_numeral)
  then show "1 < (64 :: nat) \<and> rb_init 1 rb_start"
    unfolding rb_init_def rb_start_def rb_new_def by fastforce
qed

lemma rb_overtaken_reachable:
  "reachable (rb_prog checks) (\<lambda>s. 1 < (64 :: nat) \<and> rb_init 1 s) (rb_overtaken v)"
  by (rule run_reachable [OF rb_start_reachable, where as =
      "replicate 4 (0, quiet (Rb_op_push v)) @ replicate 5 (1, quiet Rb_op_pop)"])
    (simp add: rb_run_eval rb_start_def rb_overtaken_def)

text \<open>
  \<open>push\<close> advances the head before it writes the slot, so a
  concurrent \<open>pop\<close> can return a slot that was never initialised (undefined behaviour in
  the source), and the value being pushed is lost.\<close>

theorem rb_read_before_write:
  "\<exists>s :: ('a ring, 'a rb_thread) sys.
     reachable (rb_prog checks) (\<lambda>s. 1 < (64 :: nat) \<and> rb_init 1 s) s \<and>
     rb_last (locs s ! 1) = Some (Pop_result (Some Uninit))"
  by (rule exI [of _ "rb_overtaken undefined"], intro conjI, rule rb_overtaken_reachable)
    (simp add: rb_overtaken_def)

text \<open>One thread pushes a value; the other pops it, its first compare-exchange failing spuriously.\<close>

definition rb_retried :: "'a \<Rightarrow> ('a ring, 'a rb_thread) sys" where
  "rb_retried v =
     \<lparr>glob = (rb_empty 2)\<lparr>buffer := [Init v, Uninit], head := 1, tail := 1, hist_pushed := [v],
        hist_written := {0}, hist_popped := [Init v], hist_dropped := [Init v]\<rparr>,
      locs = [\<lparr>rb_pc = Rb_idle, rb_last = Some (Push_result (Inr ()))\<rparr>,
        \<lparr>rb_pc = Rb_idle, rb_last = Some (Pop_result (Some (Init v)))\<rparr>]\<rparr>"

lemma rb_retried_reachable:
  "reachable (rb_prog checks) (\<lambda>s. 1 < (64 :: nat) \<and> rb_init 1 s) (rb_retried v)"
  by (rule run_reachable [OF rb_start_reachable, where as =
      "replicate 5 (0, quiet (Rb_op_push v)) @ replicate 4 (1, quiet Rb_op_pop) @
       (1, (quiet Rb_op_pop)\<lparr>weak_fails := True\<rparr>) # replicate 3 (1, quiet Rb_op_pop)"])
    (simp add: rb_run_eval rb_start_def rb_retried_def)

text \<open>
  \<open>pop\<close> takes a bitwise copy of the element before its
  compare-exchange; when that fails (here spuriously, with a single consumer) the copy is
  dropped while the element stays in the buffer and is handed out by the next round: the
  same value is both dropped and returned.\<close>

theorem rb_pop_double_drop:
  "\<exists>s. reachable (rb_prog checks) (\<lambda>s. 1 < (64 :: nat) \<and> rb_init 1 s) s \<and>
     rb_last (locs s ! 1) = Some (Pop_result (Some (Init v))) \<and>
     hist_dropped (glob s) = [Init v] \<and> hist_pushed (glob s) = [v]"
  by (rule exI [of _ "rb_retried v"], intro conjI, rule rb_retried_reachable)
    (simp_all add: rb_retried_def)

text \<open>Concrete instances of the properties with hypotheses.\<close>

lemma rb_index_maps_agree_witness:
  "(\<forall>i. idx_mod 8 i = idx_mask 8 i) \<and> (rb_new 6 :: nat ring option) \<noteq> None"
proof -
  have "\<exists>k. 8 = (2 :: nat) ^ k" by (rule exI [of _ 3]) simp
  then show ?thesis
    using rb_index_maps_agree [of 8] rb_index_maps_agree [of 6, where 'a = nat] by auto
qed

lemma rb_concurrent_fifo_witness:
  "length (hist_popped (glob (rb_retried (7 :: nat)))) \<le> length (hist_pushed (glob (rb_retried (7 :: nat)))) \<and>
   length (hist_pushed (glob (rb_retried (7 :: nat)))) \<le>
     length (hist_popped (glob (rb_retried (7 :: nat)))) + 2 ^ 1 \<and>
   (hist_raced (glob (rb_retried (7 :: nat))) \<or>
    hist_popped (glob (rb_retried (7 :: nat))) =
      map Init (take (length (hist_popped (glob (rb_retried (7 :: nat)))))
        (hist_pushed (glob (rb_retried (7 :: nat))))))"
  by (rule rb_concurrent_fifo [OF rb_retried_reachable]) (simp add: rb_retried_def)

lemma rb_empty_2:
  "rb_wf (rb_empty 2 :: nat ring)" "rb_contents (rb_empty 2 :: nat ring) = []"
  "rb_size (rb_empty 2 :: nat ring) = 2" "rb_length (rb_empty 2 :: nat ring) = 0"
  "head (rb_empty 2 :: nat ring) = 0" "tail (rb_empty 2 :: nat ring) = 0"
  using rb_empty_wf [of 1, where 'a = nat] by (simp_all add: rb_empty_def rb_length_def)

text \<open>A build with overflow checks; and a buffer whose head has wrapped around, with one value in it.\<close>

definition rb_wrapped :: "nat ring" where
  "rb_wrapped = (rb_empty 2)\<lparr>buffer := [Uninit, Init 5], head := 0, tail := USIZE_MAX\<rparr>"

lemma rb_wrapped_indices: "head rb_wrapped < tail rb_wrapped" "tail rb_wrapped = USIZE_MAX"
  by (simp_all add: rb_wrapped_def word_less_nat_alt unat_USIZE_MAX)

lemma rb_wrapped_wf: "rb_wf rb_wrapped" "rb_contents rb_wrapped = [5]" "rb_size rb_wrapped = 2"
proof -
  have "18446744073709551615 mod 2 = (1 :: nat)" by simp
  then have "rb_slots rb_wrapped = [Init 5]"
    by (simp add: rb_slots_def rb_length_def rb_slot_def rb_wrapped_def unat_USIZE_MAX numeral_2_eq_2)
  moreover have "rb_length rb_wrapped = 1" by (simp add: rb_length_def rb_wrapped_def)
  moreover show "rb_size rb_wrapped = 2" by (simp add: rb_wrapped_def)
  moreover have "2 = (2 :: nat) ^ 1" by simp
  ultimately show "rb_wf rb_wrapped" "rb_contents rb_wrapped = [5]"
    unfolding rb_wf_def rb_contents_def by (auto intro!: exI [of _ 1])
qed

lemma rb_fifo_witness:
  "(\<exists>r' r''. rb.enq_list True [1, 2, 3 :: nat] (rb_empty 2) = Some (r', [3]) \<and>
      rb.deq_list 2 r' = Some (r'', [1, 2])) \<and>
   (\<exists>r' r''. rb.enq_list False [6] rb_wrapped = Some (r', []) \<and> rb.deq_list 2 r' = Some (r'', [5, 6])) \<and>
   rb_push_alone True 6 rb_wrapped = Panics rb_wrapped"
proof (intro conjI)
  show "\<exists>r' r''. rb.enq_list True [1, 2, 3 :: nat] (rb_empty 2) = Some (r', [3]) \<and>
      rb.deq_list 2 r' = Some (r'', [1, 2])"
    using rb_fifo [OF rb_empty_2(1), of True "[1, 2, 3]" 2 0]
    by (auto simp: rb_empty_2 simp del: rb.enq_list.simps rb.deq_list.simps)
  show "\<exists>r' r''. rb.enq_list False [6] rb_wrapped = Some (r', []) \<and> rb.deq_list 2 r' = Some (r'', [5, 6])"
    using rb_fifo [OF rb_wrapped_wf(1), of False "[6]" 2 0]
    by (auto simp: rb_wrapped_wf simp del: rb.enq_list.simps rb.deq_list.simps)
  show "rb_push_alone True 6 rb_wrapped = Panics rb_wrapped"
    using rb_fifo [OF rb_wrapped_wf(1), of True "[]" 0 6] rb_wrapped_indices by blast
qed

lemma rb_pushed_7:
  "rb_wf (rb_pushed (7 :: nat) (rb_empty 2))" "rb_contents (rb_pushed (7 :: nat) (rb_empty 2)) = [7]"
  using rb_wf_pushed [OF rb_empty_2(1), of 7] by (simp_all add: rb_empty_2)

lemma rb_drop_contents_witness:
  "rb_drop (rb_pushed (7 :: nat) (rb_empty 2)) = [Init 7]"
proof -
  have "tail (rb_pushed (7 :: nat) (rb_empty 2)) \<le> head (rb_pushed (7 :: nat) (rb_empty 2))"
    by (simp add: rb_pushed_def rb_access_defs rb_empty_def)
  then show ?thesis by (simp add: rb_drop_contents rb_pushed_7)
qed

end
