(* ===== verification/Channel.thy ===== *)
theory Channel
  imports RingBuffer "HOL-Library.Multiset"
begin

text \<open>
  The channel of \<open>src/channel.rs\<close>: any number of senders and one receiver over a ring buffer.
  The step functions of the ring buffer are embedded in those of the channel.  The handles
  are history variables: how many \<open>Sender\<close>s exist, how many calls borrow one, and whether the
  \<open>Receiver\<close>, which is not \<open>Sync\<close>, is free, borrowed by a call or dropped.  Two more record the
  messages that were returned to the receiver and those whose senders got \<open>Ok\<close>.  Rust's ownership
  rules are the guards of the operations of a client thread.
\<close>

section \<open>State\<close>

datatype receiver_handle = Rcv_free | Rcv_borrowed | Rcv_dropped

record 'a channel =
  ch_data :: "'a ring"
  senders_count :: usize
  sender_wait_num :: "u32 futex"
  receiver_state :: "u32 futex"
  ch_senders :: nat
  ch_leaked :: nat
  ch_borrows :: nat
  ch_receiver :: receiver_handle
  ch_received :: "'a slot list"
  ch_accepted :: "'a list"

datatype 'a send_error = Send_Disconnected 'a
datatype 'a try_send_error = BufferFull 'a | Try_send_Disconnected 'a
datatype receive_error = Receive_Disconnected
datatype try_receive_error = BufferEmpty | Try_receive_Disconnected

definition MAX_SENDER_COUNT :: usize where
  "MAX_SENDER_COUNT = USIZE_MAX div 2"

text \<open>\<open>Channel::new\<close> creates no handle yet; \<open>channel\<close> overwrites the old channel, whose buffer
  is dropped, and hands out one sender and the receiver.\<close>

definition ch_new :: "nat \<Rightarrow> 'a channel option" where
  "ch_new n =
     (case rb_new n of
        None \<Rightarrow> None
      | Some r \<Rightarrow> Some \<lparr>ch_data = r, senders_count = 1, sender_wait_num = futex_new 0,
          receiver_state = futex_new 1, ch_senders = 0, ch_leaked = 1, ch_borrows = 0,
          ch_receiver = Rcv_dropped, ch_received = [], ch_accepted = []\<rparr>)"

definition ch_channel :: "nat \<Rightarrow> 'a channel \<Rightarrow> ('a channel \<times> 'a slot list) option" where
  "ch_channel n g =
     (case ch_new n of
        None \<Rightarrow> None
      | Some g' \<Rightarrow> Some (g'\<lparr>ch_senders := 1, ch_leaked := 0, ch_receiver := Rcv_free\<rparr>,
          rb_drop (ch_data g)))"

abbreviation ch_set_state :: "u32 \<Rightarrow> 'a channel \<Rightarrow> 'a channel" where
  "ch_set_state v g \<equiv> g\<lparr>receiver_state := (receiver_state g)\<lparr>val := v\<rparr>\<rparr>"

section \<open>Sending\<close>

datatype send_pc =
    SE_state | SE_push push_pc | SE_load | SE_cas | SE_wake | SE_load_num | SE_wait u32 | SE_blocked

text \<open>The loop of \<open>send\<close> carries its message from one round to the next.\<close>

fun ch_send_step ::
  "futex_api \<Rightarrow> bool \<Rightarrow> 'op env \<Rightarrow> nat \<Rightarrow> 'a channel \<Rightarrow> 'a \<times> send_pc \<Rightarrow>
     ('a channel \<times> ('a \<times> send_pc, 'a send_error + unit) ctl) option" where
  "ch_send_step F checks e t g (message, SE_state) =
     Some (g, if val (receiver_state g) = 0 then Ret (Inl (Send_Disconnected message))
              else Next (message, SE_push PU_tail))"
| "ch_send_step F checks e t g (message, SE_push p) =
     (case rb_push_step checks (weak_fails e) message (ch_data g) p of
        (r, c) \<Rightarrow> Some (g\<lparr>ch_data := r\<rparr>,
          case c of
            Next p' \<Rightarrow> Next (message, SE_push p')
          | Ret (Inr _) \<Rightarrow> Next (message, SE_load)
          | Ret (Inl m) \<Rightarrow> Next (m, SE_load_num)
          | Panic \<Rightarrow> Panic))"
| "ch_send_step F checks e t g (message, SE_load) =
     Some (g, if val (receiver_state g) \<noteq> 1 then Next (message, SE_cas) else Ret (Inr ()))"
| "ch_send_step F checks e t g (message, SE_cas) =
     (if val (receiver_state g) = 2 then Some (ch_set_state 1 g, Next (message, SE_wake))
      else Some (g, Ret (Inr ())))"
| "ch_send_step F checks e t g (message, SE_wake) =
     Some (g\<lparr>receiver_state := futex_wake_one F e (receiver_state g)\<rparr>, Ret (Inr ()))"
| "ch_send_step F checks e t g (message, SE_load_num) =
     Some (g, Next (message, SE_wait (val (sender_wait_num g))))"
| "ch_send_step F checks e t g (message, SE_wait n) =
     (case futex_wait F e t n (sender_wait_num g) of
        (True, f) \<Rightarrow> Some (g\<lparr>sender_wait_num := f\<rparr>, Next (message, SE_blocked))
      | (False, _) \<Rightarrow> Some (g, Next (message, SE_state)))"
| "ch_send_step F checks e t g (message, SE_blocked) =
     (case futex_return F e t (sender_wait_num g) of
        None \<Rightarrow> None
      | Some f \<Rightarrow> Some (g\<lparr>sender_wait_num := f\<rparr>, Next (message, SE_state)))"

datatype try_send_pc = TS_state | TS_push push_pc | TS_load | TS_cas | TS_wake

fun ch_try_send_step ::
  "futex_api \<Rightarrow> bool \<Rightarrow> 'op env \<Rightarrow> 'a \<Rightarrow> 'a channel \<Rightarrow> try_send_pc \<Rightarrow>
     'a channel \<times> (try_send_pc, 'a try_send_error + unit) ctl" where
  "ch_try_send_step F checks e message g TS_state =
     (g, if val (receiver_state g) = 0 then Ret (Inl (Try_send_Disconnected message))
         else Next (TS_push PU_tail))"
| "ch_try_send_step F checks e message g (TS_push p) =
     (case rb_try_push_step checks (weak_fails e) message (ch_data g) p of
        (r, c) \<Rightarrow> (g\<lparr>ch_data := r\<rparr>,
          case c of
            Next p' \<Rightarrow> Next (TS_push p')
          | Ret (Inr _) \<Rightarrow> Next TS_load
          | Ret (Inl m) \<Rightarrow> Ret (Inl (BufferFull m))
          | Panic \<Rightarrow> Panic))"
| "ch_try_send_step F checks e message g TS_load =
     (g, if val (receiver_state g) \<noteq> 1 then Next TS_cas else Ret (Inr ()))"
| "ch_try_send_step F checks e message g TS_cas =
     (if val (receiver_state g) = 2 then (ch_set_state 1 g, Next TS_wake) else (g, Ret (Inr ())))"
| "ch_try_send_step F checks e message g TS_wake =
     (g\<lparr>receiver_state := futex_wake_one F e (receiver_state g)\<rparr>, Ret (Inr ()))"

text \<open>Both \<open>clone\<close>s of a sender: the assertion on the old count comes after the increment.\<close>

definition ch_clone :: "'a channel \<Rightarrow> 'a channel \<times> (unit, unit) ctl" where
  "ch_clone g =
     (if senders_count g \<le> MAX_SENDER_COUNT
      then (g\<lparr>senders_count := senders_count g + 1, ch_senders := ch_senders g + 1\<rparr>, Ret ())
      else (g\<lparr>senders_count := senders_count g + 1, ch_leaked := ch_leaked g + 1\<rparr>, Panic))"

definition ch_sender_drop :: "'a channel \<Rightarrow> 'a channel" where
  "ch_sender_drop g = g\<lparr>senders_count := senders_count g - 1, ch_senders := ch_senders g - 1\<rparr>"

section \<open>Receiving\<close>

datatype 'a recv_pc =
    RE_count | RE_last "'a pop_pc" | RE_pop "'a pop_pc" | RE_bump "'a slot" | RE_wake "'a slot"
  | RE_store | RE_wait | RE_blocked

fun ch_recv_step ::
  "futex_api \<Rightarrow> bool \<Rightarrow> 'op env \<Rightarrow> nat \<Rightarrow> 'a channel \<Rightarrow> 'a recv_pc \<Rightarrow>
     ('a channel \<times> ('a recv_pc, receive_error + 'a slot) ctl) option" where
  "ch_recv_step F checks e t g RE_count =
     Some (g, Next (if senders_count g = 0 then RE_last PO_tail else RE_pop PO_tail))"
| "ch_recv_step F checks e t g (RE_last p) =
     (case rb_try_pop_step checks (weak_fails e) (ch_data g) p of
        (r, c) \<Rightarrow> Some (g\<lparr>ch_data := r\<rparr>,
          case c of
            Next p' \<Rightarrow> Next (RE_last p')
          | Ret (Some message) \<Rightarrow> Ret (Inr message)
          | Ret None \<Rightarrow> Ret (Inl Receive_Disconnected)
          | Panic \<Rightarrow> Panic))"
| "ch_recv_step F checks e t g (RE_pop p) =
     (case rb_pop_step (weak_fails e) (ch_data g) p of
        (r, c) \<Rightarrow> Some (g\<lparr>ch_data := r\<rparr>,
          case c of
            Next p' \<Rightarrow> Next (RE_pop p')
          | Ret (Some message) \<Rightarrow> Next (RE_bump message)
          | Ret None \<Rightarrow> Next RE_store
          | Panic \<Rightarrow> Panic))"
| "ch_recv_step F checks e t g (RE_bump message) =
     Some (g\<lparr>sender_wait_num := (sender_wait_num g)\<lparr>val := val (sender_wait_num g) + 1\<rparr>\<rparr>,
       Next (RE_wake message))"
| "ch_recv_step F checks e t g (RE_wake message) =
     Some (g\<lparr>sender_wait_num := futex_wake_one F e (sender_wait_num g)\<rparr>, Ret (Inr message))"
| "ch_recv_step F checks e t g RE_store = Some (ch_set_state 2 g, Next RE_wait)"
| "ch_recv_step F checks e t g RE_wait =
     (case futex_wait F e t 2 (receiver_state g) of
        (True, f) \<Rightarrow> Some (g\<lparr>receiver_state := f\<rparr>, Next RE_blocked)
      | (False, _) \<Rightarrow> Some (g, Next RE_count))"
| "ch_recv_step F checks e t g RE_blocked =
     (case futex_return F e t (receiver_state g) of
        None \<Rightarrow> None
      | Some f \<Rightarrow> Some (g\<lparr>receiver_state := f\<rparr>, Next RE_count))"

datatype 'a try_recv_pc = RT_pop "'a pop_pc" | RT_count

fun ch_try_recv_step ::
  "bool \<Rightarrow> bool \<Rightarrow> 'a channel \<Rightarrow> 'a try_recv_pc \<Rightarrow>
     'a channel \<times> ('a try_recv_pc, try_receive_error + 'a slot) ctl" where
  "ch_try_recv_step checks weak g (RT_pop p) =
     (case rb_try_pop_step checks weak (ch_data g) p of
        (r, c) \<Rightarrow> (g\<lparr>ch_data := r\<rparr>,
          case c of
            Next p' \<Rightarrow> Next (RT_pop p')
          | Ret (Some message) \<Rightarrow> Ret (Inr message)
          | Ret None \<Rightarrow> Next RT_count
          | Panic \<Rightarrow> Panic))"
| "ch_try_recv_step checks weak g RT_count =
     (g, Ret (Inl (if senders_count g = 0 then Try_receive_Disconnected else BufferEmpty)))"

definition ch_receiver_drop :: "'a channel \<Rightarrow> 'a channel" where
  "ch_receiver_drop g = (ch_set_state 0 g)\<lparr>ch_receiver := Rcv_dropped\<rparr>"

section \<open>Client threads\<close>

datatype 'a ch_op =
    Ch_op_send 'a | Ch_op_try_send 'a | Ch_op_clone | Ch_op_drop_sender
  | Ch_op_recv | Ch_op_try_recv | Ch_op_drop_receiver

datatype 'a ch_pc =
    Ch_idle | Ch_send "'a \<times> send_pc" | Ch_try_send 'a try_send_pc | Ch_recv "'a recv_pc"
  | Ch_try_recv "'a try_recv_pc" | Ch_dead

datatype 'a ch_result =
    Send_result "'a send_error + unit" | Try_send_result "'a try_send_error + unit"
  | Recv_result "receive_error + 'a slot" | Try_recv_result "try_receive_error + 'a slot"

record 'a ch_thread =
  ch_pc :: "'a ch_pc"
  ch_last :: "'a ch_result option"

definition ch_idle :: "'a ch_thread" where
  "ch_idle = \<lparr>ch_pc = Ch_idle, ch_last = None\<rparr>"

text \<open>
  A call borrows its handle until it returns or panics.  A sender may be used by several
  threads at once; it is dropped only when the calls in progress can all be using another one.
\<close>

definition ch_borrow_sender :: "'a channel \<Rightarrow> 'a channel" where
  "ch_borrow_sender g = g\<lparr>ch_borrows := ch_borrows g + 1\<rparr>"

definition ch_return_sender :: "'a list \<Rightarrow> 'a channel \<Rightarrow> 'a channel" where
  "ch_return_sender ms g = g\<lparr>ch_borrows := ch_borrows g - 1, ch_accepted := ch_accepted g @ ms\<rparr>"

definition ch_return_receiver :: "'a slot list \<Rightarrow> 'a channel \<Rightarrow> 'a channel" where
  "ch_return_receiver ms g = g\<lparr>ch_receiver := Rcv_free, ch_received := ch_received g @ ms\<rparr>"

fun ch_call :: "'a ch_op \<Rightarrow> 'a channel \<Rightarrow> 'a ch_thread \<Rightarrow> ('a channel \<times> 'a ch_thread) option" where
  "ch_call (Ch_op_send v) g l =
     (if ch_senders g = 0 then None
      else Some (ch_borrow_sender g, l\<lparr>ch_pc := Ch_send (v, SE_state)\<rparr>))"
| "ch_call (Ch_op_try_send v) g l =
     (if ch_senders g = 0 then None
      else Some (ch_borrow_sender g, l\<lparr>ch_pc := Ch_try_send v TS_state\<rparr>))"
| "ch_call Ch_op_clone g l =
     (if ch_senders g = 0 then None
      else Some (fst (ch_clone g), if snd (ch_clone g) = Panic then l\<lparr>ch_pc := Ch_dead\<rparr> else l))"
| "ch_call Ch_op_drop_sender g l =
     (if 1 < ch_senders g \<or> ch_senders g = 1 \<and> ch_borrows g = 0 then Some (ch_sender_drop g, l)
      else None)"
| "ch_call Ch_op_recv g l =
     (if ch_receiver g = Rcv_free
      then Some (g\<lparr>ch_receiver := Rcv_borrowed\<rparr>, l\<lparr>ch_pc := Ch_recv RE_count\<rparr>) else None)"
| "ch_call Ch_op_try_recv g l =
     (if ch_receiver g = Rcv_free
      then Some (g\<lparr>ch_receiver := Rcv_borrowed\<rparr>, l\<lparr>ch_pc := Ch_try_recv (RT_pop PO_tail)\<rparr>)
      else None)"
| "ch_call Ch_op_drop_receiver g l =
     (if ch_receiver g = Rcv_free then Some (ch_receiver_drop g, l) else None)"

fun message_of :: "'e + 'm \<Rightarrow> 'm list" where
  "message_of (Inr m) = [m]"
| "message_of (Inl _) = []"

fun accepted :: "'m \<Rightarrow> 'e + unit \<Rightarrow> 'm list" where
  "accepted m (Inr _) = [m]"
| "accepted m (Inl _) = []"

definition ch_prog :: "futex_api \<Rightarrow> bool \<Rightarrow> ('a ch_op, 'a channel, 'a ch_thread) program" where
  "ch_prog F checks e t g l =
     (case ch_pc l of
        Ch_idle \<Rightarrow> ch_call (call e) g l
      | Ch_send p \<Rightarrow>
          (case ch_send_step F checks e t g p of
             None \<Rightarrow> None
           | Some (g', Next p') \<Rightarrow> Some (g', l\<lparr>ch_pc := Ch_send p'\<rparr>)
           | Some (g', Ret r) \<Rightarrow>
               Some (ch_return_sender (accepted (fst p) r) g',
                 \<lparr>ch_pc = Ch_idle, ch_last = Some (Send_result r)\<rparr>)
           | Some (g', Panic) \<Rightarrow> Some (ch_return_sender [] g', l\<lparr>ch_pc := Ch_dead\<rparr>))
      | Ch_try_send v p \<Rightarrow>
          (case ch_try_send_step F checks e v g p of
             (g', Next p') \<Rightarrow> Some (g', l\<lparr>ch_pc := Ch_try_send v p'\<rparr>)
           | (g', Ret r) \<Rightarrow>
               Some (ch_return_sender (accepted v r) g',
                 \<lparr>ch_pc = Ch_idle, ch_last = Some (Try_send_result r)\<rparr>)
           | (g', Panic) \<Rightarrow> Some (ch_return_sender [] g', l\<lparr>ch_pc := Ch_dead\<rparr>))
      | Ch_recv p \<Rightarrow>
          (case ch_recv_step F checks e t g p of
             None \<Rightarrow> None
           | Some (g', Next p') \<Rightarrow> Some (g', l\<lparr>ch_pc := Ch_recv p'\<rparr>)
           | Some (g', Ret r) \<Rightarrow>
               Some (ch_return_receiver (message_of r) g', \<lparr>ch_pc = Ch_idle, ch_last = Some (Recv_result r)\<rparr>)
           | Some (g', Panic) \<Rightarrow> Some (ch_return_receiver [] g', l\<lparr>ch_pc := Ch_dead\<rparr>))
      | Ch_try_recv p \<Rightarrow>
          (case ch_try_recv_step checks (weak_fails e) g p of
             (g', Next p') \<Rightarrow> Some (g', l\<lparr>ch_pc := Ch_try_recv p'\<rparr>)
           | (g', Ret r) \<Rightarrow>
               Some (ch_return_receiver (message_of r) g', \<lparr>ch_pc = Ch_idle, ch_last = Some (Try_recv_result r)\<rparr>)
           | (g', Panic) \<Rightarrow> Some (ch_return_receiver [] g', l\<lparr>ch_pc := Ch_dead\<rparr>))
      | Ch_dead \<Rightarrow> None)"

definition ch_start :: "nat \<Rightarrow> ('a channel, 'a ch_thread) sys \<Rightarrow> bool" where
  "ch_start k s \<longleftrightarrow>
     (\<exists>g ms. ch_channel (2 ^ k) g = Some (glob s, ms)) \<and> (\<exists>n. locs s = replicate n ch_idle)"

section \<open>The ring buffer inside the channel\<close>

text \<open>
  What a thread of the channel does in the ring buffer, and the states a thread can enter
  without a step of the ring buffer.
\<close>

fun ch_view :: "'a ch_pc \<Rightarrow> 'a rb_pc" where
  "ch_view (Ch_send (v, SE_push p)) = Rb_push v p"
| "ch_view (Ch_try_send v (TS_push p)) = Rb_try_push v p"
| "ch_view (Ch_recv (RE_last p)) = Rb_try_pop p"
| "ch_view (Ch_recv (RE_pop p)) = Rb_pop p"
| "ch_view (Ch_try_recv (RT_pop p)) = Rb_try_pop p"
| "ch_view Ch_dead = Rb_dead"
| "ch_view _ = Rb_idle"

fun rb_outside :: "'a rb_pc \<Rightarrow> bool" where
  "rb_outside (Rb_push v p) = (p = PU_tail)"
| "rb_outside (Rb_try_push v p) = (p = PU_tail)"
| "rb_outside (Rb_pop p) = (p = PO_tail)"
| "rb_outside (Rb_try_pop p) = (p = PO_tail)"
| "rb_outside _ = True"

definition ch_ring_thread :: "'a ch_thread \<Rightarrow> 'a rb_thread" where
  "ch_ring_thread l = \<lparr>rb_pc = ch_view (ch_pc l), rb_last = None\<rparr>"

definition ch_ring :: "('a channel, 'a ch_thread) sys \<Rightarrow> ('a ring, 'a rb_thread) sys" where
  "ch_ring s = \<lparr>glob = ch_data (glob s), locs = map ch_ring_thread (locs s)\<rparr>"

definition ch_ring_env :: "bool \<Rightarrow> 'a rb_op env" where
  "ch_ring_env weak = (quiet Rb_op_pop)\<lparr>weak_fails := weak\<rparr>"

definition ch_simulates :: "bool \<Rightarrow> bool \<Rightarrow> 'a ring \<Rightarrow> 'a rb_thread \<Rightarrow> 'a ring \<Rightarrow> 'a rb_thread \<Rightarrow> bool" where
  "ch_simulates checks weak r l r' l' \<longleftrightarrow>
     r' = r \<and> rb_outside (rb_pc l') \<or>
     (\<exists>l''. rb_prog checks (ch_ring_env weak) 0 r l = Some (r', l'') \<and> rb_pc l'' = rb_pc l')"

named_theorems ch_eval

lemmas [ch_eval] = ch_prog_def ch_return_sender_def ch_return_receiver_def ch_borrow_sender_def
  ch_clone_def ch_sender_drop_def ch_receiver_drop_def

lemmas ch_splits = prod.splits ctl.splits sum.splits option.splits if_splits bool.splits

lemma ch_prog_simulates:
  assumes "ch_prog F checks e t g l = Some (g', l')"
  shows "ch_simulates checks (weak_fails e) (ch_data g) (ch_ring_thread l) (ch_data g') (ch_ring_thread l')"
proof (cases "ch_pc l")
  case Ch_idle
  with assms show ?thesis
    by (cases "call e") (auto simp: ch_eval ch_simulates_def ch_ring_thread_def split: ch_splits)
next
  case (Ch_send q)
  obtain v p where "q = (v, p)" by fastforce
  with Ch_send assms show ?thesis
    by (cases p) (auto simp: ch_eval ch_simulates_def ch_ring_thread_def rb_prog_def ch_ring_env_def
      split: ch_splits)
next
  case (Ch_try_send v p)
  with assms show ?thesis
    by (cases p) (auto simp: ch_eval ch_simulates_def ch_ring_thread_def rb_prog_def ch_ring_env_def
      split: ch_splits)
next
  case (Ch_recv p)
  with assms show ?thesis
    by (cases p) (auto simp: ch_eval ch_simulates_def ch_ring_thread_def rb_prog_def ch_ring_env_def
      split: ch_splits)
next
  case (Ch_try_recv p)
  with assms show ?thesis
    by (cases p) (auto simp: ch_eval ch_simulates_def ch_ring_thread_def rb_prog_def ch_ring_env_def
      split: ch_splits)
next
  case Ch_dead
  with assms show ?thesis by (simp add: ch_eval)
qed

lemma rb_inv_cong:
  assumes "map rb_pc ls = map rb_pc ls'" and "rb_inv k \<lparr>glob = g, locs = ls\<rparr>"
  shows "rb_inv k \<lparr>glob = g, locs = ls'\<rparr>"
proof -
  have "length ls = length ls'" using assms(1) by (rule map_eq_imp_length_eq)
  moreover have "rb_pc (ls ! t) = rb_pc (ls' ! t)" if "t < length ls" for t
    using that calculation arg_cong [OF assms(1), of "\<lambda>xs. xs ! t"] by simp
  ultimately show ?thesis using assms(2) unfolding rb_inv_def each_def by simp
qed

lemma rb_outside_ok: "rb_outside pc \<Longrightarrow> rb_ok r pc \<and> rb_pending pc = None"
  by (cases pc) auto

lemma rb_inv_outside:
  assumes "rb_inv k \<lparr>glob = g, locs = ls\<rparr>" and "rb_outside (rb_pc l')" and "t < length ls"
  shows "rb_inv k \<lparr>glob = g, locs = ls[t := l']\<rparr>"
  using assms rb_outside_ok [OF assms(2)]
  unfolding rb_inv_def each_def by (auto simp: nth_list_update)

lemma ch_ring_step:
  assumes inv: "rb_inv k (ch_ring \<lparr>glob = g, locs = ls\<rparr>)" and t: "t < length ls"
    and step: "ch_prog F checks e t g (ls ! t) = Some (g', l')"
  shows "rb_inv k (ch_ring \<lparr>glob = g', locs = ls[t := l']\<rparr>)"
proof -
  let ?ls = "map ch_ring_thread ls"
  have inv': "rb_inv k \<lparr>glob = ch_data g, locs = ?ls\<rparr>" using inv by (simp add: ch_ring_def)
  have tl: "t < length ?ls" "?ls ! t = ch_ring_thread (ls ! t)" using t by auto
  from ch_prog_simulates [OF step] consider
    "ch_data g' = ch_data g" "rb_outside (rb_pc (ch_ring_thread l'))"
  | l'' where "rb_prog checks (ch_ring_env (weak_fails e)) 0 (ch_data g) (?ls ! t) = Some (ch_data g', l'')"
      "rb_pc l'' = rb_pc (ch_ring_thread l')"
    unfolding ch_simulates_def tl by blast
  then have "rb_inv k \<lparr>glob = ch_data g', locs = ?ls[t := ch_ring_thread l']\<rparr>"
  proof cases
    case 1
    with rb_inv_outside [OF inv' 1(2) tl(1)] show ?thesis by simp
  next
    case 2
    then have "rb_prog checks (ch_ring_env (weak_fails e)) t (ch_data g) (?ls ! t) = Some (ch_data g', l'')"
      by (simp add: rb_prog_def)
    from rb_inv_step [OF inv' tl(1) this] show ?thesis
      by (rule rb_inv_cong [rotated]) (simp add: map_update 2(2))
  qed
  then show ?thesis by (simp add: ch_ring_def map_update)
qed

section \<open>Invariant\<close>

text \<open>The calls in progress that use a sender and those that use the receiver.\<close>

fun ch_sending :: "'a ch_pc \<Rightarrow> bool" where
  "ch_sending (Ch_send _) = True"
| "ch_sending (Ch_try_send _ _) = True"
| "ch_sending _ = False"

fun ch_receiving :: "'a ch_pc \<Rightarrow> bool" where
  "ch_receiving (Ch_recv _) = True"
| "ch_receiving (Ch_try_recv _) = True"
| "ch_receiving _ = False"

text \<open>A message taken out of the buffer by a call that has not returned.\<close>

fun ch_in_hand :: "'a ch_pc \<Rightarrow> 'a slot list" where
  "ch_in_hand (Ch_recv (RE_bump m)) = [m]"
| "ch_in_hand (Ch_recv (RE_wake m)) = [m]"
| "ch_in_hand _ = []"

text \<open>A thread about to wake the receiver.\<close>

fun ch_waking :: "'a ch_pc \<Rightarrow> bool" where
  "ch_waking (Ch_send (_, SE_wake)) = True"
| "ch_waking (Ch_try_send _ TS_wake) = True"
| "ch_waking _ = False"

text \<open>
  The handles: the sender count is right, calls borrow existing handles, and the receiver
  state is 0 exactly when the receiver has been dropped.
\<close>

definition ch_handles_ok :: "'a channel \<Rightarrow> bool" where
  "ch_handles_ok g \<longleftrightarrow>
     senders_count g = of_nat (ch_senders g + ch_leaked g) \<and>
     (ch_senders g = 0 \<longrightarrow> ch_borrows g = 0) \<and>
     val (receiver_state g) \<in> {0, 1, 2} \<and>
     (val (receiver_state g) = 0 \<longleftrightarrow> ch_receiver g = Rcv_dropped)"

abbreviation rcv_busy :: "'a channel \<Rightarrow> nat" where
  "rcv_busy g \<equiv> of_bool (ch_receiver g = Rcv_borrowed)"

definition ch_counts :: "'a channel \<Rightarrow> 'a ch_pc \<Rightarrow> 'a channel \<Rightarrow> 'a ch_pc \<Rightarrow> bool" where
  "ch_counts g p g' p' \<longleftrightarrow>
     ch_borrows g' + of_bool (ch_sending p) = ch_borrows g + of_bool (ch_sending p') \<and>
     rcv_busy g' + of_bool (ch_receiving p) = rcv_busy g + of_bool (ch_receiving p')"

text \<open>The messages received, those in hand and those popped.\<close>

definition ch_order_ok :: "'a channel \<Rightarrow> 'a ch_pc \<Rightarrow> bool" where
  "ch_order_ok g p \<longleftrightarrow>
     (ch_receiving p \<longrightarrow> hist_popped (ch_data g) = ch_received g @ ch_in_hand p)"

definition ch_order_free :: "'a channel \<Rightarrow> bool" where
  "ch_order_free g \<longleftrightarrow>
     (ch_receiver g \<noteq> Rcv_borrowed \<longrightarrow> hist_popped (ch_data g) = ch_received g)"

lemma rb_step_popped:
  "rb_push_step checks weak v r p = (r', c) \<Longrightarrow> hist_popped r' = hist_popped r"
  "rb_try_push_step checks weak v r p = (r', c) \<Longrightarrow> hist_popped r' = hist_popped r"
  "rb_pop_step weak r q = (r', d) \<Longrightarrow> hist_popped r' = hist_popped r @
     (case d of Ret (Some m) \<Rightarrow> [m] | _ \<Rightarrow> [])"
  "rb_try_pop_step checks weak r q = (r', d) \<Longrightarrow> hist_popped r' = hist_popped r @
     (case d of Ret (Some m) \<Rightarrow> [m] | _ \<Rightarrow> [])"
  subgoal by (cases p) (auto simp: rb_access_defs split: if_splits)
  subgoal by (cases p) (auto simp: rb_access_defs split: if_splits)
  subgoal by (cases q) (auto simp: rb_access_defs split: if_splits)
  subgoal by (cases q) (auto simp: rb_access_defs split: if_splits)
  done

text \<open>What the bodies of the functions leave alone.\<close>

definition ch_frame :: "'a channel \<Rightarrow> 'a channel \<Rightarrow> bool" where
  "ch_frame g g' \<longleftrightarrow>
     senders_count g' = senders_count g \<and> ch_senders g' = ch_senders g \<and>
     ch_leaked g' = ch_leaked g \<and> ch_borrows g' = ch_borrows g \<and>
     ch_receiver g' = ch_receiver g \<and> ch_received g' = ch_received g"

abbreviation ch_state :: "'a channel \<Rightarrow> u32" where
  "ch_state g \<equiv> val (receiver_state g)"

abbreviation ch_popped :: "'a channel \<Rightarrow> 'a slot list" where
  "ch_popped g \<equiv> hist_popped (ch_data g)"

lemma ch_send_frame:
  assumes "ch_send_step F checks e t g (v, p) = Some (g', c)"
  shows "ch_frame g g' \<and> ch_popped g' = ch_popped g \<and>
    (ch_state g' = ch_state g \<or> ch_state g = 2 \<and> ch_state g' = 1)"
  using assms
  by (cases p) (auto simp: ch_frame_def dest: rb_step_popped futex_wait_val futex_return_val split: ch_splits)

lemma ch_try_send_frame:
  assumes "ch_try_send_step F checks e v g p = (g', c)"
  shows "ch_frame g g' \<and> ch_popped g' = ch_popped g \<and>
    (ch_state g' = ch_state g \<or> ch_state g = 2 \<and> ch_state g' = 1)"
  using assms
  by (cases p) (auto simp: ch_frame_def dest: rb_step_popped split: ch_splits)

text \<open>The messages a step of \<open>recv\<close> leaves in hand or returns.\<close>

fun ctl_in_hand :: "('p \<Rightarrow> 'a slot list) \<Rightarrow> ('p, 'e + 'a slot) ctl \<Rightarrow> 'a slot list" where
  "ctl_in_hand f (Next p) = f p"
| "ctl_in_hand f (Ret r) = message_of r"
| "ctl_in_hand f Panic = []"

lemma ch_recv_frame:
  assumes "ch_recv_step F checks e t g p = Some (g', c)"
  shows "ch_frame g g' \<and> (ch_state g' = ch_state g \<or> ch_state g' = 2) \<and>
    (\<forall>ms. ch_popped g = ms @ ch_in_hand (Ch_recv p) \<longrightarrow>
      ch_popped g' = ms @ ctl_in_hand (\<lambda>p. ch_in_hand (Ch_recv p)) c)"
  using assms
  by (cases p) (auto simp: ch_frame_def dest!: rb_step_popped dest: futex_wait_val futex_return_val
      split: ch_splits)

lemma ch_try_recv_frame:
  assumes "ch_try_recv_step checks weak g p = (g', c)"
  shows "ch_frame g g' \<and> ch_state g' = ch_state g \<and>
    (\<forall>ms. ch_popped g = ms \<longrightarrow> ch_popped g' = ms @ ctl_in_hand (\<lambda>_. []) c)"
  using assms
  by (cases p) (auto simp: ch_frame_def dest!: rb_step_popped split: ch_splits)

lemma ch_handles_frame:
  assumes "ch_handles_ok g" and "ch_frame g g'"
    and "ch_state g' = ch_state g \<or> ch_state g = 2 \<and> ch_state g' = 1 \<or>
      ch_receiver g = Rcv_borrowed \<and> ch_state g' = 2"
  shows "ch_handles_ok g'"
proof -
  have st: "ch_state g' \<in> {0, 1, 2}" using assms by (auto simp: ch_handles_ok_def)
  have "ch_state g' = 0 \<longleftrightarrow> ch_receiver g' = Rcv_dropped"
    using assms by (auto simp: ch_handles_ok_def ch_frame_def)
  with st assms(1,2) show ?thesis by (auto simp: ch_handles_ok_def ch_frame_def)
qed

lemma ch_handles_return:
  "ch_handles_ok g \<Longrightarrow> ch_handles_ok (ch_return_sender vs g)"
  "ch_handles_ok g \<Longrightarrow> ch_receiver g = Rcv_borrowed \<Longrightarrow> ch_handles_ok (ch_return_receiver ms g)"
  by (auto simp: ch_handles_ok_def ch_return_sender_def ch_return_receiver_def)

text \<open>The effect of a step of a thread on the handles and the messages.\<close>

definition ch_pre :: "'a channel \<Rightarrow> 'a ch_pc \<Rightarrow> bool" where
  "ch_pre g p \<longleftrightarrow> ch_handles_ok g \<and> ch_order_ok g p \<and> ch_order_free g \<and>
     (ch_sending p \<longrightarrow> 0 < ch_borrows g) \<and> (ch_receiving p \<longrightarrow> ch_receiver g = Rcv_borrowed)"

definition ch_effect :: "'a channel \<Rightarrow> 'a ch_pc \<Rightarrow> 'a channel \<Rightarrow> 'a ch_pc \<Rightarrow> bool" where
  "ch_effect g p g' p' \<longleftrightarrow>
     ch_handles_ok g' \<and> ch_counts g p g' p' \<and> ch_order_ok g' p' \<and> ch_order_free g' \<and>
     (\<not> ch_receiving p \<longrightarrow> \<not> ch_receiving p' \<longrightarrow>
       ch_popped g' = ch_popped g \<and> ch_received g' = ch_received g) \<and>
     (ch_receiver g = Rcv_dropped \<longrightarrow> ch_receiver g' = Rcv_dropped) \<and>
     (ch_senders g = 0 \<longrightarrow> ch_senders g' = 0)"

lemma ch_call_handles:
  assumes "ch_handles_ok g" and "ch_call op g l = Some (g', l')"
  shows "ch_handles_ok g'"
proof (cases op)
  case Ch_op_drop_sender
  with assms have "0 < ch_senders g" and g': "g' = ch_sender_drop g"
    and "ch_senders g = 1 \<longrightarrow> ch_borrows g = 0" by (auto split: if_splits)
  then show ?thesis using assms(1)
    by (auto simp: ch_handles_ok_def ch_sender_drop_def of_nat_diff Suc_leI add.commute)
qed (use assms in \<open>auto simp: ch_handles_ok_def ch_eval split: if_splits\<close>)

lemma ch_call_effect:
  assumes "ch_pre g Ch_idle" and "ch_call op g l = Some (g', l')" and "ch_pc l = Ch_idle"
  shows "ch_effect g Ch_idle g' (ch_pc l')"
proof -
  have "ch_handles_ok g'" using assms(1,2) ch_call_handles by (auto simp: ch_pre_def)
  moreover have "ch_counts g Ch_idle g' (ch_pc l')"
    using assms(2,3) by (cases op) (auto simp: ch_eval ch_counts_def split: if_splits)
  moreover have "ch_popped g' = ch_popped g \<and> ch_received g' = ch_received g"
    using assms(2) by (cases op) (auto simp: ch_eval split: if_splits)
  moreover have "ch_receiver g = Rcv_dropped \<Longrightarrow> ch_receiver g' = Rcv_dropped"
    and "ch_senders g = 0 \<Longrightarrow> ch_senders g' = 0"
    using assms(2) by (cases op; auto simp: ch_eval split: if_splits)+
  moreover have "ch_in_hand (ch_pc l') = []" and
    "ch_receiving (ch_pc l') \<or> ch_receiver g' \<noteq> Rcv_borrowed \<Longrightarrow> ch_receiver g \<noteq> Rcv_borrowed"
    using assms(2,3) by (cases op; auto simp: ch_eval split: if_splits)+
  ultimately show ?thesis
    using assms(1) unfolding ch_effect_def ch_pre_def ch_order_ok_def ch_order_free_def by auto
qed

lemma ch_sending_effect:
  assumes "ch_pre g p" and "ch_frame g g1" and "ch_popped g1 = ch_popped g"
    and "ch_state g1 = ch_state g \<or> ch_state g = 2 \<and> ch_state g1 = 1"
    and "ch_sending p" and "\<not> ch_receiving p" and "\<not> ch_receiving p'"
    and "if ch_sending p' then g' = g1 else g' = ch_return_sender vs g1"
  shows "ch_effect g p g' p'"
proof -
  have "ch_handles_ok g1" using assms ch_handles_frame by (auto simp: ch_pre_def)
  then have "ch_handles_ok g'" using assms(8) by (simp add: ch_handles_return split: if_splits)
  then show ?thesis using assms
    by (auto simp: ch_effect_def ch_pre_def ch_counts_def ch_order_ok_def ch_order_free_def
        ch_frame_def ch_return_sender_def split: if_splits)
qed

lemma ch_receiving_effect:
  assumes "ch_pre g p" and "ch_frame g g1"
    and "ch_state g1 = ch_state g \<or> ch_state g1 = 2" and "ch_popped g1 = ch_received g @ ms"
    and "ch_receiving p" and "\<not> ch_sending p" and "\<not> ch_sending p'"
    and "if ch_receiving p' then g' = g1 \<and> ms = ch_in_hand p' else g' = ch_return_receiver ms g1"
  shows "ch_effect g p g' p'"
proof -
  have borrowed: "ch_receiver g = Rcv_borrowed" using assms by (simp add: ch_pre_def)
  then have "ch_handles_ok g1" using assms ch_handles_frame by (auto simp: ch_pre_def)
  then have "ch_handles_ok g'" using assms(2,8) borrowed
    by (auto simp: ch_handles_return ch_frame_def split: if_splits)
  then show ?thesis using assms borrowed
    by (auto simp: ch_effect_def ch_pre_def ch_counts_def ch_order_ok_def ch_order_free_def
        ch_frame_def ch_return_receiver_def split: if_splits)
qed

lemma ch_prog_effect:
  assumes pre: "ch_pre g (ch_pc l)" and step: "ch_prog F checks e t g l = Some (g', l')"
  shows "ch_effect g (ch_pc l) g' (ch_pc l')"
proof (cases "ch_pc l")
  case Ch_idle
  with assms ch_call_effect show ?thesis by (simp add: ch_prog_def)
next
  case (Ch_send q)
  obtain v p where q: "q = (v, p)" by fastforce
  with step Ch_send obtain g1 c where s: "ch_send_step F checks e t g (v, p) = Some (g1, c)"
    by (auto simp: ch_prog_def split: option.splits)
  from ch_send_frame [OF s] show ?thesis
    by (intro ch_sending_effect [OF pre, of g1, where vs = "case c of Ret r \<Rightarrow> accepted v r | _ \<Rightarrow> []"])
      (use step Ch_send q s in \<open>auto simp: ch_prog_def split: ctl.splits\<close>)
next
  case (Ch_try_send v p)
  obtain g1 c where s: "ch_try_send_step F checks e v g p = (g1, c)" by fastforce
  from ch_try_send_frame [OF s] show ?thesis
    by (intro ch_sending_effect [OF pre, of g1, where vs = "case c of Ret r \<Rightarrow> accepted v r | _ \<Rightarrow> []"])
      (use step Ch_try_send s in \<open>auto simp: ch_prog_def split: ctl.splits\<close>)
next
  case (Ch_recv p)
  with step obtain g1 c where s: "ch_recv_step F checks e t g p = Some (g1, c)"
    by (auto simp: ch_prog_def split: option.splits)
  have "ch_popped g = ch_received g @ ch_in_hand (Ch_recv p)"
    using pre Ch_recv by (simp add: ch_pre_def ch_order_ok_def)
  with ch_recv_frame [OF s] show ?thesis
    by (intro ch_receiving_effect [OF pre, of g1 "ctl_in_hand (\<lambda>p. ch_in_hand (Ch_recv p)) c"])
      (use step Ch_recv s in \<open>auto simp: ch_prog_def split: ctl.splits\<close>)
next
  case (Ch_try_recv p)
  obtain g1 c where s: "ch_try_recv_step checks (weak_fails e) g p = (g1, c)" by fastforce
  have "ch_popped g = ch_received g"
    using pre Ch_try_recv by (simp add: ch_pre_def ch_order_ok_def)
  with ch_try_recv_frame [OF s] show ?thesis
    by (intro ch_receiving_effect [OF pre, of g1 "ctl_in_hand (\<lambda>_. []) c"])
      (use step Ch_try_recv s in \<open>auto simp: ch_prog_def split: ctl.splits\<close>)
next
  case Ch_dead
  with step show ?thesis by (simp add: ch_prog_def)
qed

text \<open>What a step of thread \<open>t\<close> does to the futex of the receiver.\<close>

inductive ch_wake_move ::
  "futex_api \<Rightarrow> nat \<Rightarrow> receiver_handle \<Rightarrow> u32 futex \<Rightarrow> 'a ch_pc \<Rightarrow> u32 futex \<Rightarrow> 'a ch_pc \<Rightarrow> bool"
  for F t h where
  same: "\<not> ch_waking p \<Longrightarrow> p \<noteq> Ch_recv RE_blocked \<Longrightarrow> p' \<noteq> Ch_recv RE_blocked \<Longrightarrow>
    ch_wake_move F t h f p f p'"
| announce: "val f = 2 \<Longrightarrow> \<not> ch_receiving p \<Longrightarrow> ch_waking p' \<Longrightarrow>
    ch_wake_move F t h f p (f\<lparr>val := 1\<rparr>) p'"
| wake: "\<not> ch_receiving p \<Longrightarrow> 
    ch_wake_move F t h f p (f\<lparr>waiters := wake_one_rest F c (waiters f)\<rparr>) p'"
| store: "ch_receiving p \<Longrightarrow> p \<noteq> Ch_recv RE_blocked \<Longrightarrow> p' \<noteq> Ch_recv RE_blocked \<Longrightarrow>
    ch_wake_move F t h f p (f\<lparr>val := 2\<rparr>) p'"
| block: "val f = 2 \<Longrightarrow> ch_receiving p \<Longrightarrow> p \<noteq> Ch_recv RE_blocked \<Longrightarrow>
    ch_wake_move F t h f p (f\<lparr>waiters := waiters f @ [t]\<rparr>) (Ch_recv RE_blocked)"
| return: "t \<notin> set (waiters f') \<Longrightarrow> waiters f' = removeAll t (waiters f) \<Longrightarrow>
    ch_wake_move F t h f (Ch_recv RE_blocked) f' p'"
| drop: "h = Rcv_free \<Longrightarrow> \<not> ch_receiving p \<Longrightarrow> ch_wake_move F t h f p (f\<lparr>val := 0\<rparr>) p'"

lemma ch_prog_wake:
  assumes F: "futex_ok F" and step: "ch_prog F checks e t g l = Some (g', l')"
  shows "ch_wake_move F t (ch_receiver g) (receiver_state g) (ch_pc l) (receiver_state g') (ch_pc l')"
proof (cases "ch_pc l")
  case Ch_idle
  with step show ?thesis
    by (cases "call e") (auto simp: ch_eval ch_wake_move.intros split: if_splits)
next
  case (Ch_send q)
  obtain v p where "q = (v, p)" by fastforce
  with Ch_send step show ?thesis
    by (cases p) (auto simp: ch_eval ch_wake_move.intros futex_wake_one_def split: ch_splits)
next
  case (Ch_try_send v p)
  with step show ?thesis
    by (cases p) (auto simp: ch_eval ch_wake_move.intros futex_wake_one_def split: ch_splits)
next
  case (Ch_recv p)
  with step show ?thesis
    by (cases p) (auto simp: ch_eval ch_wake_move.intros futex_return_def intro: ch_wake_move.intros
      dest: futex_wait_blocked [OF F] futex_wait_passed split: ch_splits)
next
  case (Ch_try_recv p)
  with step show ?thesis
    by (cases p) (auto simp: ch_eval ch_wake_move.intros futex_wake_one_def split: ch_splits)
next
  case Ch_dead
  with step show ?thesis by (simp add: ch_prog_def)
qed

text \<open>
  At most the receiver waits on its state, and then the state tells the senders so or one of
  them is about to wake it.
\<close>

definition ch_wake_ok :: "u32 futex \<Rightarrow> 'a ch_thread list \<Rightarrow> bool" where
  "ch_wake_ok f ls \<longleftrightarrow> waiters f = [] \<or>
     (\<exists>t < length ls. waiters f = [t] \<and> ch_pc (ls ! t) = Ch_recv RE_blocked \<and>
       (val f = 2 \<or> (\<exists>u < length ls. ch_waking (ch_pc (ls ! u)))))"

definition ch_inv :: "nat \<Rightarrow> ('a channel, 'a ch_thread) sys \<Rightarrow> bool" where
  "ch_inv k s \<longleftrightarrow>
     rb_inv k (ch_ring s) \<and> ch_handles_ok (glob s) \<and> ch_order_free (glob s) \<and>
     each (\<lambda>t l. ch_order_ok (glob s) (ch_pc l)) (locs s) \<and>
     cnt (\<lambda>l. ch_sending (ch_pc l)) (locs s) = ch_borrows (glob s) \<and>
     cnt (\<lambda>l. ch_receiving (ch_pc l)) (locs s) = rcv_busy (glob s) \<and>
     ch_wake_ok (receiver_state (glob s)) (locs s)"

lemma ch_wake_step:
  assumes F: "futex_ok F" and ok: "ch_wake_ok f ls" and t: "t < length ls"
    and recv: "cnt (\<lambda>l. ch_receiving (ch_pc l)) ls = of_bool (h = Rcv_borrowed)"
    and move: "ch_wake_move F t h f (ch_pc (ls ! t)) f' (ch_pc l')"
  shows "ch_wake_ok f' (ls[t := l'])"
proof (cases "waiters f = []")
  case True
  from move show ?thesis
  proof cases
    case (wake c)
    then show ?thesis using True F by (simp add: ch_wake_ok_def futex_ok_def)
  qed (use True t in \<open>auto simp: ch_wake_ok_def\<close>)
next
  case False
  with ok obtain r where r: "r < length ls" "waiters f = [r]" "ch_pc (ls ! r) = Ch_recv RE_blocked"
    and told: "val f = 2 \<or> (\<exists>u < length ls. ch_waking (ch_pc (ls ! u)))"
    by (auto simp: ch_wake_ok_def)
  have others: "\<not> ch_receiving (ch_pc (ls ! t))" if "t \<noteq> r"
  proof
    assume "ch_receiving (ch_pc (ls ! t))"
    with cnt_le_1_unique [of "\<lambda>l. ch_receiving (ch_pc l)" ls t r] recv r t that show False
      by (cases "h = Rcv_borrowed") auto
  qed
  have busy: "h = Rcv_borrowed"
    using cnt_pos [of r ls "\<lambda>l. ch_receiving (ch_pc l)"] r recv by (auto split: if_splits)
  show ?thesis
  proof (cases "t = r")
    case True
    with move r show ?thesis by cases (auto simp: ch_wake_ok_def)
  next
    case False
    note other = others [OF False]
    from move show ?thesis
    proof cases
      case same
      have "val f' = 2 \<or> (\<exists>u < length (ls[t := l']). ch_waking (ch_pc (ls[t := l'] ! u)))"
        using told same by (metis length_list_update nth_list_update_neq)
      with r False same show ?thesis by (simp add: ch_wake_ok_def)
    next
      case announce
      with r False t show ?thesis by (auto simp: ch_wake_ok_def)
    next
      case (wake c)
      from F have "wake_one_rest F c [r] = []" unfolding futex_ok_def
        by (metis list.distinct(1) list.set_intros(1) remove1.simps set_ConsD empty_iff empty_set)
      with wake r have "waiters f' = []" by simp
      then show ?thesis by (simp add: ch_wake_ok_def)
    qed (use other busy in auto)
  qed
qed

lemma rcv_busy_le [simp]: "rcv_busy g \<le> Suc 0"
  by simp

lemma ch_inv_step:
  assumes F: "futex_ok F" and inv: "ch_inv k \<lparr>glob = g, locs = ls\<rparr>" and t: "t < length ls"
    and step: "ch_prog F checks e t g (ls ! t) = Some (g', l')"
  shows "ch_inv k \<lparr>glob = g', locs = ls[t := l']\<rparr>"
proof -
  let ?p = "ch_pc (ls ! t)" and ?p' = "ch_pc l'" and ?ls' = "ls[t := l']"
  let ?S = "\<lambda>l. ch_sending (ch_pc l)" and ?R = "\<lambda>l. ch_receiving (ch_pc l)"
  from inv have parts: "ch_handles_ok g" "ch_order_free g"
    "each (\<lambda>t l. ch_order_ok g (ch_pc l)) ls" "cnt ?S ls = ch_borrows g" "cnt ?R ls = rcv_busy g"
    by (simp_all add: ch_inv_def)
  have "0 < ch_borrows g" if "ch_sending ?p" using cnt_pos [of t ls ?S] t that parts(4) by simp
  moreover have "ch_receiver g = Rcv_borrowed" if "ch_receiving ?p"
    using cnt_pos [of t ls ?R] t that parts(5) by (auto split: if_splits)
  ultimately have pre: "ch_pre g ?p"
    using parts eachD [OF parts(3) t] by (simp add: ch_pre_def)
  from ch_prog_effect [OF pre step] have eff: "ch_handles_ok g'" "ch_counts g ?p g' ?p'"
    "ch_order_ok g' ?p'" "ch_order_free g'"
    and quiet: "\<not> ch_receiving ?p \<Longrightarrow> \<not> ch_receiving ?p' \<Longrightarrow>
      ch_popped g' = ch_popped g \<and> ch_received g' = ch_received g"
    by (auto simp: ch_effect_def)
  have sends: "cnt ?S ?ls' = ch_borrows g'"
    using cnt_update [OF t, of ?S l'] parts(4) eff(2) unfolding ch_counts_def of_bool_def by linarith
  have recvs: "cnt ?R ?ls' = rcv_busy g'"
    using cnt_update [OF t, of ?R l'] parts(5) eff(2) unfolding ch_counts_def of_bool_def by linarith
  have "each (\<lambda>t l. ch_order_ok g' (ch_pc l)) ?ls'"
  proof (rule each_update [OF parts(3) t])
    fix u
    assume u: "u < length ls" "u \<noteq> t" "ch_order_ok g (ch_pc (ls ! u))"
    show "ch_order_ok g' (ch_pc (ls ! u))"
    proof (cases "?R (ls ! u)")
      case True
      have "\<not> ch_receiving ?p"
        using cnt_le_1_unique [of ?R ls t u] parts(5) True u t by (auto split: if_splits)
      moreover have "\<not> ch_receiving ?p'"
        using cnt_le_1_unique [of ?R ?ls' t u] recvs True u t by (auto split: if_splits)
      ultimately show ?thesis using quiet u(3) by (simp add: ch_order_ok_def)
    qed (simp add: ch_order_ok_def)
  qed (rule eff)
  moreover have "rb_inv k (ch_ring \<lparr>glob = g', locs = ?ls'\<rparr>)"
    using ch_ring_step [OF _ t step] inv by (simp add: ch_inv_def)
  moreover have "ch_wake_ok (receiver_state g') ?ls'"
    using ch_wake_step [OF F _ t parts(5) ch_prog_wake [OF F step]] inv by (simp add: ch_inv_def)
  ultimately show ?thesis using eff sends recvs by (simp add: ch_inv_def)
qed

lemma ch_inv_init:
  assumes "k < 64" and "ch_start k s"
  shows "ch_inv k s"
proof -
  from assms(2) obtain n where s: "glob s = \<lparr>ch_data = rb_empty (2 ^ k), senders_count = 1,
      sender_wait_num = futex_new 0, receiver_state = futex_new 1, ch_senders = 1, ch_leaked = 0,
      ch_borrows = 0, ch_receiver = Rcv_free, ch_received = [], ch_accepted = []\<rparr>" "locs s = replicate n ch_idle"
    by (auto simp: ch_start_def ch_channel_def ch_new_def rb_new_def split: if_splits)
  have "rb_inv k (ch_ring s)"
    using rb_core_empty [OF assms(1)] s
    by (auto simp: rb_inv_def ch_ring_def ch_ring_thread_def each_replicate ch_idle_def)
  then show ?thesis using s
    by (simp add: ch_inv_def ch_handles_ok_def ch_order_free_def ch_order_ok_def ch_wake_ok_def
        each_replicate cnt_replicate ch_idle_def) (simp add: rb_empty_def)
qed

interpretation ch: invariant_system "ch_prog F checks" "\<lambda>s. futex_ok F \<and> k < 64 \<and> ch_start k s"
  "\<lambda>s. futex_ok F \<and> ch_inv k s" for F checks k
  by unfold_locales (use ch_inv_init ch_inv_step in blast)+

section \<open>What is accepted is delivered\<close>

text \<open>A message whose slot is reserved by a call that has not returned.\<close>

fun ch_in_flight :: "'a ch_pc \<Rightarrow> 'a list" where
  "ch_in_flight (Ch_send (v, SE_push (PU_write _))) = [v]"
| "ch_in_flight (Ch_send (v, SE_load)) = [v]"
| "ch_in_flight (Ch_send (v, SE_cas)) = [v]"
| "ch_in_flight (Ch_send (v, SE_wake)) = [v]"
| "ch_in_flight (Ch_try_send v (TS_push (PU_write _))) = [v]"
| "ch_in_flight (Ch_try_send v TS_load) = [v]"
| "ch_in_flight (Ch_try_send v TS_cas) = [v]"
| "ch_in_flight (Ch_try_send v TS_wake) = [v]"
| "ch_in_flight _ = []"

definition ch_unreturned :: "'a ch_thread list \<Rightarrow> 'a multiset" where
  "ch_unreturned ls = mset (concat (map (\<lambda>l. ch_in_flight (ch_pc l)) ls))"

definition ch_accounts :: "('a channel, 'a ch_thread) sys \<Rightarrow> bool" where
  "ch_accounts s \<longleftrightarrow>
     mset (hist_pushed (ch_data (glob s))) = mset (ch_accepted (glob s)) + ch_unreturned (locs s)"

lemma ch_unreturned_update:
  "t < length ls \<Longrightarrow> ch_unreturned (ls[t := l]) + mset (ch_in_flight (ch_pc (ls ! t))) =
    ch_unreturned ls + mset (ch_in_flight (ch_pc l))"
proof (induction ls arbitrary: t)
  case (Cons x xs)
  then show ?case by (cases t) (auto simp: ch_unreturned_def)
qed simp

lemma rb_pop_pushed:
  "rb_pop_step weak r q = (r', d) \<Longrightarrow> hist_pushed r' = hist_pushed r"
  "rb_try_pop_step checks weak r q = (r', d) \<Longrightarrow> hist_pushed r' = hist_pushed r"
  by (cases q; auto simp: rb_access_defs split: if_splits)+

lemma ch_recv_pushed:
  assumes "ch_recv_step F checks e t g p = Some (g', c)"
  shows "hist_pushed (ch_data g') = hist_pushed (ch_data g) \<and> ch_accepted g' = ch_accepted g"
  using assms by (cases p) (auto dest: rb_pop_pushed split: ch_splits)

lemma ch_try_recv_pushed:
  assumes "ch_try_recv_step checks weak g p = (g', c)"
  shows "hist_pushed (ch_data g') = hist_pushed (ch_data g) \<and> ch_accepted g' = ch_accepted g"
  using assms by (cases p) (auto dest: rb_pop_pushed split: ch_splits)

lemma ch_send_pushed:
  assumes "ch_send_step F checks e t g (v, p) = Some (g', c)"
  shows "ch_accepted g' = ch_accepted g \<and>
    mset (hist_pushed (ch_data g')) + mset (ch_in_flight (Ch_send (v, p))) =
    mset (hist_pushed (ch_data g)) +
      mset (case c of Next q \<Rightarrow> ch_in_flight (Ch_send q) | Ret r \<Rightarrow> accepted v r | Panic \<Rightarrow> [])"
proof (cases p)
  case (SE_push q)
  with assms show ?thesis by (cases q) (auto simp: rb_access_defs split: ch_splits)
qed (use assms in \<open>auto split: ch_splits\<close>)

lemma ch_try_send_pushed:
  assumes "ch_try_send_step F checks e v g p = (g', c)"
  shows "ch_accepted g' = ch_accepted g \<and>
    mset (hist_pushed (ch_data g')) + mset (ch_in_flight (Ch_try_send v p)) =
    mset (hist_pushed (ch_data g)) +
      mset (case c of Next q \<Rightarrow> ch_in_flight (Ch_try_send v q) | Ret r \<Rightarrow> accepted v r | Panic \<Rightarrow> [])"
proof (cases p)
  case (TS_push q)
  with assms show ?thesis by (cases q) (auto simp: rb_access_defs split: ch_splits)
qed (use assms in \<open>auto split: ch_splits\<close>)

text \<open>A step moves a message from the buffer's history to those accepted, over the hands of a call.\<close>

lemma ch_prog_accounts:
  assumes "ch_prog F checks e t g l = Some (g', l')"
  shows "mset (hist_pushed (ch_data g')) + mset (ch_accepted g) + mset (ch_in_flight (ch_pc l)) =
    mset (hist_pushed (ch_data g)) + mset (ch_accepted g') + mset (ch_in_flight (ch_pc l'))"
proof (cases "ch_pc l")
  case Ch_idle
  with assms show ?thesis by (cases "call e") (auto simp: ch_eval split: if_splits)
next
  case (Ch_send q)
  obtain v p where "q = (v, p)" by fastforce
  with assms Ch_send show ?thesis
    by (auto simp: ch_prog_def ch_return_sender_def split: option.splits ctl.splits prod.splits
      dest!: ch_send_pushed)
next
  case (Ch_try_send v p)
  with assms show ?thesis
    by (auto simp: ch_prog_def ch_return_sender_def split: ctl.splits prod.splits dest!: ch_try_send_pushed)
next
  case (Ch_recv p)
  then have "ch_in_flight (ch_pc l) = []" by simp
  with assms Ch_recv show ?thesis
    by (auto simp: ch_prog_def ch_return_receiver_def split: option.splits ctl.splits prod.splits
      dest!: ch_recv_pushed)
next
  case (Ch_try_recv p)
  with assms show ?thesis
    by (auto simp: ch_prog_def ch_return_receiver_def split: ctl.splits prod.splits dest!: ch_try_recv_pushed)
next
  case Ch_dead
  with assms show ?thesis by (simp add: ch_prog_def)
qed

lemma ch_accounts_step:
  assumes "ch_accounts \<lparr>glob = g, locs = ls\<rparr>" and t: "t < length ls"
    and "ch_prog F checks e t g (ls ! t) = Some (g', l')"
  shows "ch_accounts \<lparr>glob = g', locs = ls[t := l']\<rparr>"
proof -
  let ?f = "\<lambda>l. mset (ch_in_flight (ch_pc l))"
  have "mset (hist_pushed (ch_data g')) + (mset (ch_accepted g) + ?f (ls ! t)) =
      mset (hist_pushed (ch_data g)) + mset (ch_accepted g') + ?f l'"
    using ch_prog_accounts [OF assms(3)] by (simp add: add.assoc)
  also have "\<dots> = mset (ch_accepted g) + mset (ch_accepted g') + (ch_unreturned ls + ?f l')"
    using assms(1) by (simp add: ch_accounts_def ac_simps)
  also have "\<dots> = mset (ch_accepted g') + ch_unreturned (ls[t := l']) + (mset (ch_accepted g) + ?f (ls ! t))"
    by (simp only: ch_unreturned_update [OF t, symmetric]) (simp add: ac_simps)
  finally show ?thesis by (simp only: ch_accounts_def sys.select_convs add_right_cancel)
qed

lemma ch_accounts_init: "ch_start k s \<Longrightarrow> ch_accounts s"
  by (cases s) (auto simp: ch_start_def ch_channel_def ch_new_def rb_new_def rb_empty_def ch_accounts_def
    ch_unreturned_def ch_idle_def split: option.splits if_splits)

interpretation ch_acc: invariant_system "ch_prog F checks" "\<lambda>s. futex_ok F \<and> k < 64 \<and> ch_start k s"
  ch_accounts for F checks k
  by unfold_locales (use ch_accounts_init ch_accounts_step in blast)+

section \<open>Operations that never wait\<close>

fun ch_steps_left :: "'a ch_pc \<Rightarrow> nat" where
  "ch_steps_left (Ch_try_send v p) =
     (case p of TS_state \<Rightarrow> 8 | TS_push q \<Rightarrow> 3 + push_steps_left q | TS_load \<Rightarrow> 3 | TS_cas \<Rightarrow> 2 | TS_wake \<Rightarrow> 1)"
| "ch_steps_left (Ch_try_recv p) = (case p of RT_pop q \<Rightarrow> 1 + pop_steps_left q | RT_count \<Rightarrow> 1)"
| "ch_steps_left _ = 0"

definition ch_home :: "'a ch_thread \<Rightarrow> bool" where
  "ch_home l \<longleftrightarrow> ch_pc l \<in> {Ch_idle, Ch_dead}"

lemma ch_enabled: "0 < ch_steps_left (ch_pc l) \<Longrightarrow> ch_prog F checks e t g l \<noteq> None"
  by (cases "ch_pc l") (auto simp: ch_prog_def split: prod.split ctl.split)

lemma ch_advances:
  assumes "0 < ch_steps_left (ch_pc l)" and "ch_prog F checks e t g l = Some (g', l')"
  shows "ch_home l' \<or> 0 < ch_steps_left (ch_pc l') \<and> ch_steps_left (ch_pc l') < ch_steps_left (ch_pc l)"
proof (cases "ch_pc l")
  case (Ch_try_send v p)
  show ?thesis
  proof (cases p)
    case (TS_push q)
    with assms(2) Ch_try_send show ?thesis
      by (auto simp: ch_prog_def ch_home_def dest!: try_push_advances
        split: prod.splits ctl.splits sum.splits)
  qed (use assms(2) Ch_try_send in
    \<open>auto simp: ch_prog_def ch_home_def split: if_splits prod.splits ctl.splits\<close>)
next
  case (Ch_try_recv p)
  show ?thesis
  proof (cases p)
    case (RT_pop q)
    with assms(2) Ch_try_recv show ?thesis
      by (auto simp: ch_prog_def ch_home_def dest!: try_pop_advances
        split: prod.splits ctl.splits option.splits)
  qed (use assms(2) Ch_try_recv in \<open>auto simp: ch_prog_def ch_home_def\<close>)
qed (use assms(1) in simp_all)

interpretation ch_free: wait_free "ch_prog F checks" "\<lambda>l. ch_steps_left (ch_pc l)" ch_home "\<lambda>_. False"
  for F :: futex_api and checks :: bool
  by unfold_locales (use ch_enabled ch_advances in blast)+

section \<open>Properties\<close>

text \<open>
  C4: The channel delivers in order: whatever the interleaving of any number of senders
  and the receiver (as long as fewer than 2^64 messages were sent), the messages \<open>recv\<close> and
  \<open>try_recv\<close> have returned are the first messages pushed by the senders, in the order in
  which their slots were reserved, none lost, repeated or reordered; the only
  exception is a receiver that reads a slot before its sender has written it.  The messages
  pushed are exactly those whose \<open>send\<close> or \<open>try_send\<close> has returned \<open>Ok\<close> and those of calls
  that have reserved a slot and not returned yet.\<close>

theorem ch_fifo:
  assumes "reachable (ch_prog F checks) (\<lambda>s. futex_ok F \<and> k < 64 \<and> ch_start k s) s"
    and "length (hist_pushed (ch_data (glob s))) < 2 ^ 64"
  shows "mset (hist_pushed (ch_data (glob s))) = mset (ch_accepted (glob s)) + ch_unreturned (locs s) \<and>
    (hist_raced (ch_data (glob s)) \<or>
     ch_received (glob s) = map Init (take (length (ch_received (glob s))) (hist_pushed (ch_data (glob s)))))"
proof -
  let ?g = "glob s"
  from ch.reachable_inv [OF assms(1)] have inv: "ch_inv k s" by simp
  then have "rb_inv k (ch_ring s)" by (simp add: ch_inv_def)
  then have core: "rb_core k (ch_data ?g)" using assms(2) by (simp add: rb_inv_def ch_ring_def)
  have "\<exists>ms. ch_popped ?g = ch_received ?g @ ms"
  proof (cases "ch_receiver ?g = Rcv_borrowed")
    case True
    with inv have "0 < cnt (\<lambda>l. ch_receiving (ch_pc l)) (locs s)" by (simp add: ch_inv_def)
    with cnt_witness obtain t where "t < length (locs s)" "ch_receiving (ch_pc (locs s ! t))" by blast
    with inv show ?thesis by (auto simp: ch_inv_def ch_order_ok_def each_def)
  next
    case False
    with inv show ?thesis by (simp add: ch_inv_def ch_order_free_def)
  qed
  then obtain ms where ms: "ch_popped ?g = ch_received ?g @ ms" ..
  have "ch_received ?g = map Init (take (length (ch_received ?g)) (hist_pushed (ch_data ?g)))"
    if "\<not> hist_raced (ch_data ?g)"
  proof (rule nth_equalityI)
    have len: "length (ch_received ?g) \<le> length (hist_pushed (ch_data ?g))"
      using core arg_cong [OF ms, of length] by (auto simp: rb_core_def)
    then show "length (ch_received ?g) =
      length (map Init (take (length (ch_received ?g)) (hist_pushed (ch_data ?g))))" by simp
    fix i
    assume i: "i < length (ch_received ?g)"
    then have "ch_received ?g ! i = ch_popped ?g ! i" by (simp add: ms nth_append)
    also have "\<dots> = Init (hist_pushed (ch_data ?g) ! i)"
      using core that i arg_cong [OF ms, of length] by (auto simp: rb_core_def)
    finally show "ch_received ?g ! i =
      map Init (take (length (ch_received ?g)) (hist_pushed (ch_data ?g))) ! i" using i len by simp
  qed
  then show ?thesis using ch_acc.reachable_inv [OF assms(1)] by (auto simp: ch_accounts_def)
qed

text \<open>
  C28: The flags on which disconnection is decided are right: in every
  reachable state \<open>receiver_state\<close> is 0 exactly when the receiver has been dropped, and (with
  fewer than 2^63 senders ever alive at once) \<open>senders_count\<close> is 0 exactly when the last
  sender has been dropped.\<close>

theorem ch_disconnect_flags:
  assumes "reachable (ch_prog F checks) (\<lambda>s. futex_ok F \<and> k < 64 \<and> ch_start k s) s"
  shows "(val (receiver_state (glob s)) = 0 \<longleftrightarrow> ch_receiver (glob s) = Rcv_dropped) \<and>
    val (receiver_state (glob s)) \<in> {0, 1, 2} \<and>
    senders_count (glob s) = of_nat (ch_senders (glob s) + ch_leaked (glob s)) \<and>
    (ch_senders (glob s) < 2 ^ 63 \<longrightarrow> ch_leaked (glob s) = 0 \<longrightarrow>
      (senders_count (glob s) = 0 \<longleftrightarrow> ch_senders (glob s) = 0))"
proof -
  from ch.reachable_inv [OF assms] have ok: "ch_handles_ok (glob s)" by (simp add: ch_inv_def)
  have "(of_nat n :: usize) = 0 \<longleftrightarrow> n = 0" if "n < 2 ^ 63" for n
    using unat_of_nat_usize [of n] that by (auto simp: unat_eq_0 [symmetric])
  with ok show ?thesis unfolding ch_handles_ok_def by auto
qed

text \<open>
  C22: A receiver that sleeps is not forgotten by the futex protocol: while it
  waits on \<open>receiver_state\<close>, the state is 2, so that the next completed send will wake it, or
  some sender has already claimed the wake-up and is about to issue it.\<close>

theorem ch_receiver_wakeup:
  assumes "reachable (ch_prog F checks) (\<lambda>s. futex_ok F \<and> k < 64 \<and> ch_start k s) s"
    and "t \<in> set (waiters (receiver_state (glob s)))"
  shows "ch_pc (locs s ! t) = Ch_recv RE_blocked \<and>
    (val (receiver_state (glob s)) = 2 \<or> (\<exists>u < length (locs s). ch_waking (ch_pc (locs s ! u))))"
  using ch.reachable_inv [OF assms(1)] assms(2) by (auto simp: ch_inv_def ch_wake_ok_def)

text \<open>
  The operations without interference of other threads, in builds with and without overflow checks.  The choices
  of the environment are the same in all steps of the call: \<open>weak_fails e\<close> makes each weak exchange fail.
\<close>

definition ch_send_alone ::
  "futex_api \<Rightarrow> bool \<Rightarrow> 'op env \<Rightarrow> nat \<Rightarrow> 'a \<Rightarrow> 'a channel \<Rightarrow> ('a channel, 'a send_error + unit) outcome" where
  "ch_send_alone F checks e t v g = solo (ch_send_step F checks e t) 8 g (v, SE_state)"

definition ch_recv_alone ::
  "futex_api \<Rightarrow> bool \<Rightarrow> 'op env \<Rightarrow> nat \<Rightarrow> 'a channel \<Rightarrow> ('a channel, receive_error + 'a slot) outcome" where
  "ch_recv_alone F checks e t g = solo (ch_recv_step F checks e t) 8 g RE_count"

definition ch_try_send_alone ::
  "futex_api \<Rightarrow> bool \<Rightarrow> 'op env \<Rightarrow> 'a \<Rightarrow> 'a channel \<Rightarrow> ('a channel, 'a try_send_error + unit) outcome" where
  "ch_try_send_alone F checks e v g = solo (\<lambda>g p. Some (ch_try_send_step F checks e v g p)) 8 g TS_state"

definition ch_try_recv_alone ::
  "bool \<Rightarrow> bool \<Rightarrow> 'a channel \<Rightarrow> ('a channel, try_receive_error + 'a slot) outcome" where
  "ch_try_recv_alone checks weak g =
     solo (\<lambda>g p. Some (ch_try_recv_step checks weak g p)) 6 g (RT_pop PO_tail)"

text \<open>
  The channel after a message went in, after one came out, after the copy of a message was dropped because the
  exchange failed, and with a thread asleep.
\<close>

definition ch_sent :: "futex_api \<Rightarrow> 'op env \<Rightarrow> 'a \<Rightarrow> 'a channel \<Rightarrow> 'a channel" where
  "ch_sent F e v g = g\<lparr>ch_data := rb_pushed v (ch_data g), receiver_state :=
     (if val (receiver_state g) = 2 then futex_wake_one F e ((receiver_state g)\<lparr>val := 1\<rparr>)
      else receiver_state g)\<rparr>"

definition ch_taken :: "'a slot \<Rightarrow> 'a channel \<Rightarrow> 'a channel" where
  "ch_taken m g = g\<lparr>ch_data := rb_popped m (ch_data g)\<rparr>"

definition ch_put_back :: "'a slot \<Rightarrow> 'a channel \<Rightarrow> 'a channel" where
  "ch_put_back m g = g\<lparr>ch_data := rb_discard m (rb_note_read (tail (ch_data g)) (ch_data g))\<rparr>"

definition ch_wake_sender :: "futex_api \<Rightarrow> 'op env \<Rightarrow> 'a channel \<Rightarrow> 'a channel" where
  "ch_wake_sender F e g = g\<lparr>sender_wait_num :=
     futex_wake_one F e ((sender_wait_num g)\<lparr>val := val (sender_wait_num g) + 1\<rparr>)\<rparr>"

definition ch_sender_asleep :: "nat \<Rightarrow> 'a channel \<Rightarrow> 'a channel" where
  "ch_sender_asleep t g = g\<lparr>sender_wait_num :=
     (sender_wait_num g)\<lparr>waiters := waiters (sender_wait_num g) @ [t]\<rparr>\<rparr>"

definition ch_receiver_asleep :: "nat \<Rightarrow> 'a channel \<Rightarrow> 'a channel" where
  "ch_receiver_asleep t g = g\<lparr>receiver_state := \<lparr>val = 2, waiters = waiters (receiver_state g) @ [t]\<rparr>\<rparr>"

text \<open>Does a call that finds the expected value sleep, and not return early?\<close>

definition sleeps :: "futex_api \<Rightarrow> 'op env \<Rightarrow> bool" where
  "sleeps F e \<longleftrightarrow> blocks F (pick e) True \<and> \<not> returns_early F (pick e)"

lemmas ch_alone_defs = ch_send_alone_def ch_recv_alone_def ch_try_send_alone_def
  ch_try_recv_alone_def solo_numeral

lemmas ch_effect_defs = ch_sent_def ch_taken_def ch_put_back_def ch_wake_sender_def ch_sender_asleep_def
  ch_receiver_asleep_def sleeps_def

text \<open>The overflow check of \<open>try_pop\<close>.\<close>

abbreviation try_pop_overflows :: "bool \<Rightarrow> 'a ring \<Rightarrow> bool" where
  "try_pop_overflows checks r \<equiv> inc_overflows checks (tail r)"

lemma ch_try_send_alone:
  assumes "val (receiver_state g) \<in> {0, 1, 2}"
  shows "ch_try_send_alone F checks e v g =
     (if val (receiver_state g) = 0 then Returns g (Inl (Try_send_Disconnected v))
      else if push_overflows checks (ch_data g) then Panics g
      else if rb_size (ch_data g) \<le> rb_length (ch_data g) \<or> weak_fails e then Returns g (Inl (BufferFull v))
      else Returns (ch_sent F e v g) (Inr ()))"
  using assms
  by (auto simp: ch_alone_defs ch_effect_defs rb_length_def sub_overflows_def inc_overflows_def push_overflows_def
      rb_pushed_def rb_reserve_def word_less_nat_alt)

lemma ch_send_alone:
  assumes "val (receiver_state g) \<in> {0, 1, 2}" and "\<not> weak_fails e"
  shows "ch_send_alone F checks e t v g =
     (if val (receiver_state g) = 0 then Returns g (Inl (Send_Disconnected v))
      else if push_overflows checks (ch_data g) then Panics g
      else if rb_size (ch_data g) \<le> rb_length (ch_data g)
      then (if sleeps F e then Blocks (ch_sender_asleep t g) else Runs_on)
      else Returns (ch_sent F e v g) (Inr ()))"
  using assms
  by (auto simp: ch_alone_defs ch_effect_defs rb_length_def sub_overflows_def inc_overflows_def push_overflows_def
      rb_pushed_def rb_reserve_def futex_wait_def futex_return_def word_less_nat_alt)

lemma ch_recv_alone_empty:
  assumes "rb_length (ch_data g) = 0"
  shows "ch_try_recv_alone checks weak g =
      Returns g (Inl (if senders_count g = 0 then Try_receive_Disconnected else BufferEmpty))"
    and "ch_recv_alone F checks e t g =
      (if senders_count g = 0 then Returns g (Inl Receive_Disconnected)
       else if sleeps F e then Blocks (ch_receiver_asleep t g) else Runs_on)"
  using assms
  by (auto simp: ch_alone_defs ch_effect_defs rb_length_def unat_eq_0 futex_wait_def futex_return_def)

lemma ch_recv_alone_some:
  assumes "rb_wf (ch_data g)" and c: "rb_contents (ch_data g) = x # xs"
  shows "ch_try_recv_alone checks weak g =
      (if try_pop_overflows checks (ch_data g) then Panics (ch_put_back (Init x) g)
       else if weak then Returns (ch_put_back (Init x) g)
         (Inl (if senders_count g = 0 then Try_receive_Disconnected else BufferEmpty))
       else Returns (ch_taken (Init x) g) (Inr (Init x)))"
    and "senders_count g = 0 \<Longrightarrow> ch_recv_alone F checks e t g =
      (if try_pop_overflows checks (ch_data g) then Panics (ch_put_back (Init x) g)
       else if weak_fails e then Returns (ch_put_back (Init x) g) (Inl Receive_Disconnected)
       else Returns (ch_taken (Init x) g) (Inr (Init x)))"
    and "senders_count g \<noteq> 0 \<Longrightarrow> \<not> weak_fails e \<Longrightarrow> ch_recv_alone F checks e t g =
      Returns (ch_wake_sender F e (ch_taken (Init x) g)) (Inr (Init x))"
proof -
  from assms(1) obtain k where k: "k < 64" "rb_size (ch_data g) = 2 ^ k" by (auto simp: rb_wf_def)
  let ?r = "ch_data g"
  have idx: "idx_mask (rb_size ?r) (tail ?r) = unat (tail ?r) mod rb_size ?r"
    "idx_mod (rb_size ?r) (tail ?r) = unat (tail ?r) mod rb_size ?r"
    using rb_tail_idx [OF k] by (simp_all add: idx_mod_def)
  have ne: "head ?r \<noteq> tail ?r"
    using c rb_length_contents [OF assms(1)] by (auto simp: rb_length_def)
  have x: "buffer ?r ! (unat (tail ?r) mod rb_size ?r) = Init x"
    using rb_wf_popped [OF assms] by (simp add: rb_slot_def)
  note defs = ch_alone_defs ch_effect_defs rb_popped_def rb_note_read_def
  show "ch_try_recv_alone checks weak g =
      (if try_pop_overflows checks ?r then Panics (ch_put_back (Init x) g)
       else if weak then Returns (ch_put_back (Init x) g)
         (Inl (if senders_count g = 0 then Try_receive_Disconnected else BufferEmpty))
       else Returns (ch_taken (Init x) g) (Inr (Init x)))"
    using ne x idx by (simp add: defs)
  show "ch_recv_alone F checks e t g =
      (if try_pop_overflows checks ?r then Panics (ch_put_back (Init x) g)
       else if weak_fails e then Returns (ch_put_back (Init x) g) (Inl Receive_Disconnected)
       else Returns (ch_taken (Init x) g) (Inr (Init x)))" if "senders_count g = 0"
    using ne x idx that by (simp add: defs)
  show "ch_recv_alone F checks e t g = Returns (ch_wake_sender F e (ch_taken (Init x) g)) (Inr (Init x))"
    if "senders_count g \<noteq> 0" "\<not> weak_fails e"
    using ne x idx that by (simp add: defs)
qed

text \<open>
  C29: What \<open>try_send\<close> and \<open>send\<close> do without interference of other threads, on every branch, in builds with and without
  overflow checks.  With the receiver gone they give the message back as disconnected.  Otherwise, with overflow
  checks, they panic when the head of the buffer is below its tail, or is \<open>usize::MAX\<close> with room in the
  buffer.  Otherwise \<open>try_send\<close> gives the message back as \<open>BufferFull\<close> when the buffer is full and also when its
  weak exchange fails spuriously.  \<open>send\<close>, provided that its weak exchange does not fail (which would send it round its loop), puts
  its thread to sleep on \<open>sender_wait_num\<close> when the buffer is full; it goes round its loop when the futex
  returns early.  Otherwise both append the message to the
  buffer and, when the receiver announced that it sleeps, reset the announcement and wake it.\<close>

theorem ch_send_result:
  assumes "rb_wf (ch_data g)" and "val (receiver_state g) \<in> {0, 1, 2}"
  shows "ch_try_send_alone F checks e v g =
     (if val (receiver_state g) = 0 then Returns g (Inl (Try_send_Disconnected v))
      else if checks \<and> (head (ch_data g) < tail (ch_data g) \<or> head (ch_data g) = USIZE_MAX \<and>
        length (rb_contents (ch_data g)) < rb_size (ch_data g)) then Panics g
      else if length (rb_contents (ch_data g)) = rb_size (ch_data g) \<or> weak_fails e
      then Returns g (Inl (BufferFull v))
      else Returns (ch_sent F e v g) (Inr ())) \<and>
    (\<not> weak_fails e \<longrightarrow> ch_send_alone F checks e t v g =
     (if val (receiver_state g) = 0 then Returns g (Inl (Send_Disconnected v))
      else if checks \<and> (head (ch_data g) < tail (ch_data g) \<or> head (ch_data g) = USIZE_MAX \<and>
        length (rb_contents (ch_data g)) < rb_size (ch_data g)) then Panics g
      else if length (rb_contents (ch_data g)) = rb_size (ch_data g)
      then (if sleeps F e then Blocks (ch_sender_asleep t g) else Runs_on)
      else Returns (ch_sent F e v g) (Inr ()))) \<and>
    (length (rb_contents (ch_data g)) < rb_size (ch_data g) \<longrightarrow>
      rb_contents (ch_data (ch_sent F e v g)) = rb_contents (ch_data g) @ [v])"
proof -
  have len: "length (rb_contents (ch_data g)) = rb_length (ch_data g)" using assms(1) by (rule rb_length_contents)
  have "rb_length (ch_data g) \<le> rb_size (ch_data g)" using assms(1) by (simp add: rb_wf_def)
  then have full: "rb_size (ch_data g) \<le> rb_length (ch_data g) \<longleftrightarrow>
      length (rb_contents (ch_data g)) = rb_size (ch_data g)" by (auto simp: len)
  have panics: "checks \<and> (head (ch_data g) < tail (ch_data g) \<or> head (ch_data g) = USIZE_MAX \<and>
      length (rb_contents (ch_data g)) < rb_size (ch_data g)) \<longleftrightarrow> push_overflows checks (ch_data g)"
    by (simp add: push_overflows_def len)
  have "length (rb_contents (ch_data g)) < rb_size (ch_data g) \<longrightarrow>
      rb_contents (ch_data (ch_sent F e v g)) = rb_contents (ch_data g) @ [v]"
    using rb_wf_pushed [OF assms(1), of v] by (simp add: len ch_sent_def)
  with ch_try_send_alone [OF assms(2), of F checks e v] ch_send_alone [OF assms(2), of e F checks t v]
  show ?thesis unfolding panics full [symmetric] by blast
qed

text \<open>
  C30: What \<open>try_recv\<close> and \<open>recv\<close> do without interference of other threads, in builds with and without overflow checks.  On
  an empty buffer \<open>try_recv\<close>, and \<open>recv\<close> without senders, report whether the channel is disconnected, and \<open>recv\<close> with
  senders announces that it sleeps and sleeps (or goes round its loop when the futex returns early).  With a message in the
  buffer \<open>try_recv\<close>, and \<open>recv\<close> without senders, panic with overflow checks when the tail is \<open>usize::MAX\<close>, and report an
  empty or disconnected channel, the message staying in the buffer, when the weak exchange fails spuriously; otherwise they return the
  oldest message and remove it.  \<open>recv\<close> with senders, provided that its weak exchange does not fail
  (which would send it round its loop), returns the oldest message, whatever the indices, and wakes one sleeping sender.\<close>

theorem ch_recv_result:
  assumes "rb_wf (ch_data g)"
  shows "case rb_contents (ch_data g) of
      [] \<Rightarrow> ch_try_recv_alone checks weak g =
          Returns g (Inl (if senders_count g = 0 then Try_receive_Disconnected else BufferEmpty)) \<and>
        ch_recv_alone F checks e t g =
          (if senders_count g = 0 then Returns g (Inl Receive_Disconnected)
           else if sleeps F e then Blocks (ch_receiver_asleep t g) else Runs_on)
    | x # xs \<Rightarrow> ch_try_recv_alone checks weak g =
          (if checks \<and> tail (ch_data g) = USIZE_MAX then Panics (ch_put_back (Init x) g)
           else if weak then Returns (ch_put_back (Init x) g)
             (Inl (if senders_count g = 0 then Try_receive_Disconnected else BufferEmpty))
           else Returns (ch_taken (Init x) g) (Inr (Init x))) \<and>
        (senders_count g = 0 \<longrightarrow> ch_recv_alone F checks e t g =
          (if checks \<and> tail (ch_data g) = USIZE_MAX then Panics (ch_put_back (Init x) g)
           else if weak_fails e then Returns (ch_put_back (Init x) g) (Inl Receive_Disconnected)
           else Returns (ch_taken (Init x) g) (Inr (Init x)))) \<and>
        (senders_count g \<noteq> 0 \<and> \<not> weak_fails e \<longrightarrow> ch_recv_alone F checks e t g =
          Returns (ch_wake_sender F e (ch_taken (Init x) g)) (Inr (Init x))) \<and>
        rb_contents (ch_data (ch_taken (Init x) g)) = xs \<and>
        rb_contents (ch_data (ch_put_back (Init x) g)) = x # xs"
proof (cases "rb_contents (ch_data g)")
  case Nil
  then have "rb_length (ch_data g) = 0" using rb_length_contents [OF assms] by simp
  with Nil show ?thesis by (simp add: ch_recv_alone_empty)
next
  case (Cons x xs)
  have "rb_contents (ch_data (ch_put_back (Init x) g)) = x # xs"
    unfolding Cons [symmetric]
    by (simp add: ch_put_back_def rb_discard_def rb_note_read_def rb_contents_def rb_slots_def rb_length_def rb_slot_def
        comp_def)
  moreover have "rb_contents (ch_data (ch_taken (Init x) g)) = xs"
    using rb_wf_popped [OF assms Cons] by (simp add: ch_taken_def)
  ultimately show ?thesis
    using ch_recv_alone_some(1) [OF assms Cons, of checks weak, unfolded inc_overflows_def]
      ch_recv_alone_some(2) [OF assms Cons, of F checks e t, unfolded inc_overflows_def]
      ch_recv_alone_some(3) [OF assms Cons, of e F checks t]
    by (simp only: Cons list.case) blast
qed

text \<open>
  \<open>try_send\<close> and \<open>try_recv\<close> without interference as the operations of a bounded queue: a message
  that is given back counts as not enqueued, an error of \<open>try_recv\<close> as an empty queue, and there is no result
  when a call panics.
\<close>

definition ch_enq :: "futex_api \<Rightarrow> bool \<Rightarrow> 'a \<Rightarrow> 'a channel \<Rightarrow> ('a channel \<times> ('a + unit)) option" where
  "ch_enq F checks v g =
     (case ch_try_send_alone F checks (quiet ()) v g of
        Returns g' (Inr _) \<Rightarrow> Some (g', Inr ())
      | Returns g' (Inl (BufferFull m)) \<Rightarrow> Some (g', Inl m)
      | Returns g' (Inl (Try_send_Disconnected m)) \<Rightarrow> Some (g', Inl m)
      | _ \<Rightarrow> None)"

definition ch_deq :: "bool \<Rightarrow> 'a channel \<Rightarrow> ('a channel \<times> 'a option) option" where
  "ch_deq checks g =
     (case ch_try_recv_alone checks False g of
        Returns g' (Inr (Init m)) \<Rightarrow> Some (g', Some m)
      | Returns g' (Inl _) \<Rightarrow> Some (g', None)
      | _ \<Rightarrow> None)"

abbreviation ch_contents :: "'a channel \<Rightarrow> 'a list" where
  "ch_contents g \<equiv> rb_contents (ch_data g)"

abbreviation ch_capacity :: "'a channel \<Rightarrow> nat" where
  "ch_capacity g \<equiv> rb_size (ch_data g)"

text \<open>The receiver is alive and \<open>b\<close> more messages can be sent without overflow of an index.\<close>

definition ch_open :: "bool \<Rightarrow> nat \<Rightarrow> 'a channel \<Rightarrow> bool" where
  "ch_open checks b g \<longleftrightarrow> rb_ready checks b (ch_data g) \<and> val (receiver_state g) \<in> {1, 2}"

lemma ch_open_no_overflow:
  assumes "ch_open checks b g" and "ch_contents g = x # xs"
  shows "\<not> try_pop_overflows checks (ch_data g)"
proof
  assume "try_pop_overflows checks (ch_data g)"
  then have "checks" "tail (ch_data g) = USIZE_MAX" by (simp_all add: inc_overflows_def)
  with assms(1) have "unat USIZE_MAX \<le> unat (head (ch_data g))" by (simp add: ch_open_def rb_ready_def)
  then have "head (ch_data g) = tail (ch_data g)"
    using \<open>tail (ch_data g) = USIZE_MAX\<close> by (simp add: word_le_nat_alt [symmetric] word_order.extremum_unique)
  then show False using assms rb_length_contents [of "ch_data g"] by (simp add: ch_open_def rb_ready_def rb_length_def)
qed

interpretation ch_queue: bounded_queue "ch_open checks" ch_contents ch_capacity "ch_enq F checks" "ch_deq checks"
  for F :: futex_api and checks :: bool
proof (unfold_locales, goal_cases)
  case (1 b g)
  then show ?case by (auto simp: ch_open_def dest: rb.bounded)
next
  case (2 b g)
  then show ?case by (auto simp: ch_open_def dest: rb.fewer)
next
  case (3 b g v)
  then have ready: "rb_ready checks (Suc b) (ch_data g)" by (simp add: ch_open_def)
  then have wf: "rb_wf (ch_data g)" by (simp add: rb_ready_def)
  then have room: "rb_length (ch_data g) < rb_size (ch_data g)" using 3 by (simp add: rb_length_contents)
  from 3 have alive: "val (receiver_state g) \<in> {0, 1, 2}" "val (receiver_state g) \<noteq> 0" by (auto simp: ch_open_def)
  with room rb_ready_no_overflow [OF ready] have "ch_enq F checks v g = Some (ch_sent F (quiet ()) v g, Inr ())"
    by (simp add: ch_enq_def ch_try_send_alone)
  with 3 rb_wf_pushed [OF wf room, of v] rb_ready_pushed [OF ready room, of v] show ?case
    by (auto simp: ch_open_def ch_sent_def)
next
  case (4 b g v)
  then have ready: "rb_ready checks b (ch_data g)" by (simp add: ch_open_def)
  with 4 have full: "rb_length (ch_data g) = rb_size (ch_data g)" by (simp add: rb_ready_def rb_length_contents)
  from 4 have "val (receiver_state g) \<in> {0, 1, 2}" "val (receiver_state g) \<noteq> 0" by (auto simp: ch_open_def)
  with full rb_ready_full [OF ready full] show ?case by (simp add: ch_enq_def ch_try_send_alone)
next
  case (5 b g x xs)
  then have ready: "rb_ready checks b (ch_data g)" by (simp add: ch_open_def)
  then have wf: "rb_wf (ch_data g)" by (simp add: rb_ready_def)
  from 5 ch_open_no_overflow [OF 5] have "ch_deq checks g = Some (ch_taken (Init x) g, Some x)"
    using ch_recv_alone_some(1) [OF wf 5(2)] by (simp add: ch_deq_def)
  with 5 rb_wf_popped [OF wf 5(2)] rb_ready_popped [OF ready 5(2)] show ?case
    by (auto simp: ch_open_def ch_taken_def)
next
  case (6 b g)
  then have "rb_length (ch_data g) = 0"
    using rb_length_contents [of "ch_data g"] by (simp add: ch_open_def rb_ready_def)
  then show ?case by (simp add: ch_deq_def ch_recv_alone_empty)
qed

text \<open>
  C31: Messages come out of the channel as they went in.  On a channel whose receiver is
  alive, when no other thread interferes, no weak exchange fails spuriously, and, in a build with overflow
  checks, the head of the buffer is not below its tail and stays below 2^64: sending a list with \<open>try_send\<close> accepts what fits and
  gives the rest back, and \<open>n\<close> calls of \<open>try_recv\<close> then return the oldest messages in order; in
  particular an empty channel returns exactly the list, if it fits.\<close>

theorem ch_roundtrip:
  assumes "ch_open checks (length vs) g"
  shows "\<exists>g' g''. ch_queue.enq_list F checks vs g = Some (g', drop (ch_capacity g - length (ch_contents g)) vs) \<and>
    ch_queue.deq_list checks n g' =
      Some (g'', take n (ch_contents g @ take (ch_capacity g - length (ch_contents g)) vs)) \<and>
    ch_open checks 0 g''"
proof -
  from assms have "ch_open checks (length vs + 0) g" by simp
  from ch_queue.enq_list_fills [OF this, of F] obtain g' where g':
    "ch_queue.enq_list F checks vs g = Some (g', drop (ch_capacity g - length (ch_contents g)) vs)"
    "ch_open checks 0 g'"
    "ch_contents g' = ch_contents g @ take (ch_capacity g - length (ch_contents g)) vs" by blast
  with ch_queue.deq_list_takes [OF g'(2), of n] show ?thesis by auto
qed

section \<open>Waiters that nobody wakes\<close>

text \<open>Only the receiver wakes senders, and only senders wake the receiver.\<close>

lemma ch_prog_sender_waiters:
  assumes "ch_prog F checks e t g l = Some (g', l')" and "\<And>c. \<not> returns_early F c"
    and "\<not> ch_receiving (ch_pc l)"
  shows "set (waiters (sender_wait_num g)) \<subseteq> set (waiters (sender_wait_num g'))"
proof (cases "ch_pc l")
  case Ch_idle
  with assms show ?thesis by (cases "call e") (auto simp: ch_eval split: if_splits)
next
  case (Ch_send q)
  obtain v p where "q = (v, p)" by fastforce
  with Ch_send assms show ?thesis
    by (cases p) (auto simp: ch_eval futex_wait_def futex_return_def split: ch_splits)
next
  case (Ch_try_send v p)
  with assms show ?thesis by (cases p) (auto simp: ch_eval split: ch_splits)
qed (use assms in \<open>simp_all add: ch_eval\<close>)

lemma ch_prog_receiver_waiters:
  assumes "ch_prog F checks e t g l = Some (g', l')" and "\<And>c. \<not> returns_early F c"
    and "\<not> ch_sending (ch_pc l)"
  shows "set (waiters (receiver_state g)) \<subseteq> set (waiters (receiver_state g'))"
proof (cases "ch_pc l")
  case Ch_idle
  with assms show ?thesis by (cases "call e") (auto simp: ch_eval split: if_splits)
next
  case (Ch_recv p)
  with assms show ?thesis
    by (cases p) (auto simp: ch_eval futex_wait_def futex_return_def split: ch_splits)
next
  case (Ch_try_recv p)
  with assms show ?thesis by (cases p) (auto simp: ch_eval split: ch_splits)
qed (use assms in \<open>simp_all add: ch_eval\<close>)

text \<open>A thread that waits after the last handle of the other side is gone.\<close>

definition ch_stranded :: "nat \<Rightarrow> 'a channel \<Rightarrow> bool" where
  "ch_stranded t g \<longleftrightarrow>
     ch_receiver g = Rcv_dropped \<and> t \<in> set (waiters (sender_wait_num g)) \<or>
     ch_senders g = 0 \<and> t \<in> set (waiters (receiver_state g))"

lemma ch_stranded_step:
  assumes F: "futex_ok F" "\<And>c. \<not> returns_early F c" and inv: "ch_inv k s"
    and stranded: "ch_stranded t (glob s)" and step: "sys_step (ch_prog F checks) a s = Some s'"
  shows "ch_stranded t (glob s')"
proof -
  from step obtain g' l' where u: "fst a < length (locs s)"
    and p: "ch_prog F checks (snd a) (fst a) (glob s) (locs s ! fst a) = Some (g', l')"
    and s': "s' = \<lparr>glob = g', locs = (locs s)[fst a := l']\<rparr>"
    by (rule sys_step_SomeE)
  let ?p = "ch_pc (locs s ! fst a)"
  have cnts: "cnt (\<lambda>l. ch_sending (ch_pc l)) (locs s) = ch_borrows (glob s)"
    "cnt (\<lambda>l. ch_receiving (ch_pc l)) (locs s) = rcv_busy (glob s)"
    using inv by (simp_all add: ch_inv_def)
  have sending: "0 < ch_borrows (glob s)" if "ch_sending ?p"
    using cnt_pos [of "fst a" "locs s" "\<lambda>l. ch_sending (ch_pc l)"] that u cnts(1) by simp
  have receiving: "ch_receiver (glob s) = Rcv_borrowed" if "ch_receiving ?p"
    using cnt_pos [of "fst a" "locs s" "\<lambda>l. ch_receiving (ch_pc l)"] that u cnts(2)
    by (auto split: if_splits)
  have "ch_pre (glob s) ?p"
    using inv sending receiving u by (auto simp: ch_inv_def ch_pre_def each_def)
  from ch_prog_effect [OF this p] have
    "ch_receiver (glob s) = Rcv_dropped \<longrightarrow> ch_receiver g' = Rcv_dropped"
    "ch_senders (glob s) = 0 \<longrightarrow> ch_senders g' = 0"
    by (auto simp: ch_effect_def)
  moreover have "\<not> ch_receiving ?p" if "ch_receiver (glob s) = Rcv_dropped"
    using receiving that by auto
  moreover have "\<not> ch_sending ?p" if "ch_senders (glob s) = 0"
    using sending that inv by (auto simp: ch_inv_def ch_handles_ok_def)
  ultimately show ?thesis
    using stranded ch_prog_sender_waiters [OF p F(2)] ch_prog_receiver_waiters [OF p F(2)] s'
    unfolding ch_stranded_def by auto
qed

text \<open>
  Dropping the last handle of one side wakes nobody on the other
  side: a sender blocked on a full buffer when the receiver is dropped, and a receiver blocked
  on an empty one when the last sender is dropped, stay blocked whatever all threads do
  afterwards, instead of returning \<open>Disconnected\<close>.\<close>

theorem ch_drop_strands_waiter:
  assumes "reachable (ch_prog F checks) (\<lambda>s. futex_ok F \<and> k < 64 \<and> ch_start k s) s"
    and "ch_stranded t (glob s)" and "\<And>c. \<not> returns_early F c"
    and "run (ch_prog F checks) as s = Some s'"
  shows "ch_stranded t (glob s')"
  using assms(1,2,4)
proof (induction as arbitrary: s)
  case (Cons a as)
  then obtain s1 where s1: "sys_step (ch_prog F checks) a s = Some s1"
    "run (ch_prog F checks) as s1 = Some s'" by (auto split: option.splits)
  from ch.reachable_inv [OF Cons.prems(1)] have "futex_ok F" "ch_inv k s" by auto
  from ch_stranded_step [OF this(1) assms(3) this(2) Cons.prems(2) s1(1)] show ?case
    using Cons.IH [OF reachable_step [OF Cons.prems(1) s1(1)]] s1(2) by blast
qed simp

section \<open>Concrete runs\<close>

text \<open>A sender (thread 0) and the receiver (thread 1) of a channel with two slots.\<close>

definition ch_two :: "'a channel" where
  "ch_two = \<lparr>ch_data = rb_empty 2, senders_count = 1, sender_wait_num = futex_new 0,
     receiver_state = futex_new 1, ch_senders = 1, ch_leaked = 0, ch_borrows = 0,
     ch_receiver = Rcv_free, ch_received = [], ch_accepted = []\<rparr>"

definition ch_duo :: "('a channel, 'a ch_thread) sys" where
  "ch_duo = \<lparr>glob = ch_two, locs = [ch_idle, ch_idle]\<rparr>"

abbreviation ch_starts :: "('a channel, 'a ch_thread) sys \<Rightarrow> bool" where
  "ch_starts s \<equiv> futex_ok fifo_futex \<and> 1 < (64 :: nat) \<and> ch_start 1 s"

lemma ch_duo_reachable: "reachable (ch_prog fifo_futex checks) ch_starts ch_duo"
proof (rule reachable_init)
  have "ch_channel (2 ^ 1) ch_two = Some (ch_two, rb_drop (ch_data ch_two))"
    by (simp add: ch_channel_def ch_new_def rb_new_def ch_two_def)
  moreover have "[ch_idle, ch_idle] = replicate 2 ch_idle" by (simp add: replicate_numeral)
  ultimately show "ch_starts ch_duo"
    unfolding ch_start_def ch_duo_def by fastforce
qed

lemmas ch_run_eval = rb_run_eval ch_eval ch_idle_def ch_two_def futex_wait_def futex_return_def
  futex_wake_one_def

text \<open>The receiver finds the buffer empty; a message is sent; the receiver announces that it
  sleeps and sleeps; the sender is dropped.\<close>

definition ch_asleep :: "'a \<Rightarrow> ('a channel, 'a ch_thread) sys" where
  "ch_asleep v =
     \<lparr>glob = ch_two\<lparr>ch_data := (rb_empty 2)\<lparr>buffer := [Init v, Uninit], head := 1,
          hist_pushed := [v], hist_written := {0}\<rparr>,
        receiver_state := \<lparr>val = 2, waiters = [1]\<rparr>, ch_receiver := Rcv_borrowed,
        ch_accepted := [v]\<rparr>,
      locs = [\<lparr>ch_pc = Ch_idle, ch_last = Some (Send_result (Inr ()))\<rparr>,
        ch_idle\<lparr>ch_pc := Ch_recv RE_blocked\<rparr>]\<rparr>"

lemma ch_asleep_reachable: "reachable (ch_prog fifo_futex checks) ch_starts (ch_asleep v)"
  by (rule run_reachable [OF ch_duo_reachable, where as =
      "replicate 4 (1, quiet Ch_op_recv) @ replicate 7 (0, quiet (Ch_op_send v)) @
       replicate 2 (1, quiet Ch_op_recv)"])
    (simp add: ch_run_eval ch_duo_def ch_asleep_def)

text \<open>
  \<open>recv\<close> announces that it sleeps only after it has found the
  buffer empty, without looking again: a message sent in between is not noticed.  The sender
  has returned \<open>Ok\<close>, the message is in the buffer, and the receiver sleeps.\<close>

theorem ch_recv_sleeps_on_message:
  "\<exists>s. reachable (ch_prog fifo_futex checks) ch_starts s \<and>
     ch_last (locs s ! 0) = Some (Send_result (Inr ())) \<and> ch_pc (locs s ! 0) = Ch_idle \<and>
     rb_slots (ch_data (glob s)) = [Init v] \<and>
     ch_pc (locs s ! 1) = Ch_recv RE_blocked \<and>
     (\<forall>e. sys_step (ch_prog fifo_futex checks) (1, e) s = None)"
  by (rule exI [of _ "ch_asleep v"], intro conjI, rule ch_asleep_reachable)
    (simp_all add: ch_asleep_def ch_run_eval rb_slots_def rb_length_def rb_slot_def)

text \<open>The sender finds the buffer full; the receiver takes both messages and sleeps on the empty
  buffer; then the sender reads the counter and sleeps.\<close>

definition ch_deadlocked :: "'a \<Rightarrow> 'a \<Rightarrow> 'a \<Rightarrow> ('a channel, 'a ch_thread) sys" where
  "ch_deadlocked a b c =
     \<lparr>glob = ch_two\<lparr>ch_data := (rb_empty 2)\<lparr>buffer := [Init a, Init b], head := 2, tail := 2,
          hist_pushed := [a, b], hist_written := {0, 1}, hist_popped := [Init a, Init b]\<rparr>,
        sender_wait_num := \<lparr>val = 2, waiters = [0]\<rparr>,
        receiver_state := \<lparr>val = 2, waiters = [1]\<rparr>, ch_borrows := 1, ch_receiver := Rcv_borrowed,
        ch_received := [Init a, Init b], ch_accepted := [a, b]\<rparr>,
      locs = [\<lparr>ch_pc = Ch_send (c, SE_blocked), ch_last = Some (Send_result (Inr ()))\<rparr>,
        \<lparr>ch_pc = Ch_recv RE_blocked, ch_last = Some (Recv_result (Inr (Init b)))\<rparr>]\<rparr>"

lemma ch_deadlocked_reachable:
  "reachable (ch_prog fifo_futex checks) ch_starts (ch_deadlocked a b c)"
  by (rule run_reachable [OF ch_duo_reachable, where as =
      "replicate 7 (0, quiet (Ch_op_send a)) @ replicate 7 (0, quiet (Ch_op_send b)) @
       replicate 4 (0, quiet (Ch_op_send c)) @ replicate 16 (1, quiet Ch_op_recv) @
       replicate 6 (1, quiet Ch_op_recv) @ replicate 2 (0, quiet (Ch_op_send c))"])
    (simp add: ch_run_eval ch_duo_def ch_deadlocked_def insert_commute)

text \<open>
  \<open>send\<close> reads the counter it waits on only after it has found the
  buffer full, without looking again: when the receiver empties the buffer in between, sender
  and receiver both sleep over an empty buffer and no thread can ever move.\<close>

theorem ch_lost_wakeup_deadlock:
  "\<exists>s. reachable (ch_prog fifo_futex checks) ch_starts s \<and>
     rb_slots (ch_data (glob s)) = [] \<and> length (locs s) = 2 \<and>
     ch_pc (locs s ! 0) = Ch_send (c, SE_blocked) \<and> ch_pc (locs s ! 1) = Ch_recv RE_blocked \<and>
     (\<forall>t e. sys_step (ch_prog fifo_futex checks) (t, e) s = None)"
proof (rule exI [of _ "ch_deadlocked a b c"], intro conjI allI)
  show "sys_step (ch_prog fifo_futex checks) (t, e) (ch_deadlocked a b c) = None" for t e
    by (cases t; cases "t - 1") (auto simp: ch_deadlocked_def ch_run_eval)
qed (rule ch_deadlocked_reachable, simp_all add: ch_deadlocked_def ch_run_eval rb_slots_def rb_length_def)

text \<open>The sender blocks on the full buffer; the receiver empties it with \<open>try_recv\<close> and polls again.\<close>

definition ch_polled :: "'a \<Rightarrow> 'a \<Rightarrow> 'a \<Rightarrow> ('a channel, 'a ch_thread) sys" where
  "ch_polled a b c =
     \<lparr>glob = ch_two\<lparr>ch_data := (rb_empty 2)\<lparr>buffer := [Init a, Init b], head := 2, tail := 2,
          hist_pushed := [a, b], hist_written := {0, 1}, hist_popped := [Init a, Init b]\<rparr>,
        sender_wait_num := \<lparr>val = 0, waiters = [0]\<rparr>, ch_borrows := 1,
        ch_received := [Init a, Init b], ch_accepted := [a, b]\<rparr>,
      locs = [\<lparr>ch_pc = Ch_send (c, SE_blocked), ch_last = Some (Send_result (Inr ()))\<rparr>,
        \<lparr>ch_pc = Ch_idle, ch_last = Some (Try_recv_result (Inl BufferEmpty))\<rparr>]\<rparr>"

lemma ch_polled_reachable: "reachable (ch_prog fifo_futex checks) ch_starts (ch_polled a b c)"
  by (rule run_reachable [OF ch_duo_reachable, where as =
      "replicate 7 (0, quiet (Ch_op_send a)) @ replicate 7 (0, quiet (Ch_op_send b)) @
       replicate 6 (0, quiet (Ch_op_send c)) @ replicate 10 (1, quiet Ch_op_try_recv) @
       replicate 4 (1, quiet Ch_op_try_recv)"])
    (simp add: ch_run_eval ch_duo_def ch_polled_def insert_commute)

text \<open>
  \<open>try_recv\<close> makes room in the buffer but wakes no sender: a sender
  that blocked on the full buffer still sleeps when the receiver has emptied it, and the
  receiver is told \<open>BufferEmpty\<close>.\<close>

theorem ch_try_recv_wakes_nobody:
  "\<exists>s. reachable (ch_prog fifo_futex checks) ch_starts s \<and>
     ch_pc (locs s ! 0) = Ch_send (c, SE_blocked) \<and>
     (\<forall>e. sys_step (ch_prog fifo_futex checks) (0, e) s = None) \<and>
     rb_slots (ch_data (glob s)) = [] \<and>
     ch_last (locs s ! 1) = Some (Try_recv_result (Inl BufferEmpty))"
  by (rule exI [of _ "ch_polled a b c"], intro conjI, rule ch_polled_reachable)
    (simp_all add: ch_polled_def ch_run_eval rb_slots_def rb_length_def)

text \<open>A message is sent and the sender dropped; \<open>recv\<close> fails a compare-exchange spuriously.\<close>

definition ch_dismissed :: "'a \<Rightarrow> ('a channel, 'a ch_thread) sys" where
  "ch_dismissed v =
     \<lparr>glob = ch_two\<lparr>ch_data := (rb_empty 2)\<lparr>buffer := [Init v, Uninit], head := 1,
          hist_pushed := [v], hist_written := {0}, hist_dropped := [Init v]\<rparr>,
        senders_count := 0, ch_senders := 0, ch_accepted := [v]\<rparr>,
      locs = [\<lparr>ch_pc = Ch_idle, ch_last = Some (Send_result (Inr ()))\<rparr>,
        \<lparr>ch_pc = Ch_idle, ch_last = Some (Recv_result (Inl Receive_Disconnected))\<rparr>]\<rparr>"

lemma ch_dismissed_reachable: "reachable (ch_prog fifo_futex checks) ch_starts (ch_dismissed v)"
  by (rule run_reachable [OF ch_duo_reachable, where as =
      "replicate 7 (0, quiet (Ch_op_send v)) @ [(0, quiet Ch_op_drop_sender)] @
       replicate 5 (1, quiet Ch_op_recv) @ [(1, (quiet Ch_op_recv)\<lparr>weak_fails := True\<rparr>)]"])
    (simp add: ch_run_eval ch_duo_def ch_dismissed_def)

text \<open>
  After the last sender is gone \<open>recv\<close> tries a single \<open>try_pop\<close>, whose weak
  compare-exchange may fail: it then reports \<open>Disconnected\<close> although a message sent with
  \<open>Ok\<close> is still in the buffer (and has been dropped once already).\<close>

theorem ch_false_disconnect:
  "\<exists>s. reachable (ch_prog fifo_futex checks) ch_starts s \<and>
     ch_last (locs s ! 1) = Some (Recv_result (Inl Receive_Disconnected)) \<and>
     rb_slots (ch_data (glob s)) = [Init v] \<and> hist_dropped (ch_data (glob s)) = [Init v]"
  by (rule exI [of _ "ch_dismissed v"], intro conjI, rule ch_dismissed_reachable)
    (simp_all add: ch_dismissed_def ch_run_eval rb_slots_def rb_length_def rb_slot_def)

text \<open>The sender blocks on the full buffer and the receiver is dropped.\<close>

definition ch_left :: "'a \<Rightarrow> 'a \<Rightarrow> 'a \<Rightarrow> ('a channel, 'a ch_thread) sys" where
  "ch_left a b c =
     \<lparr>glob = ch_two\<lparr>ch_data := (rb_empty 2)\<lparr>buffer := [Init a, Init b], head := 2,
          hist_pushed := [a, b], hist_written := {0, 1}\<rparr>,
        sender_wait_num := \<lparr>val = 0, waiters = [0]\<rparr>, receiver_state := \<lparr>val = 0, waiters = []\<rparr>,
        ch_borrows := 1, ch_receiver := Rcv_dropped, ch_accepted := [a, b]\<rparr>,
      locs = [\<lparr>ch_pc = Ch_send (c, SE_blocked), ch_last = Some (Send_result (Inr ()))\<rparr>, ch_idle]\<rparr>"

lemma ch_left_reachable: "reachable (ch_prog fifo_futex checks) ch_starts (ch_left a b c)"
  by (rule run_reachable [OF ch_duo_reachable, where as =
      "replicate 7 (0, quiet (Ch_op_send a)) @ replicate 7 (0, quiet (Ch_op_send b)) @
       replicate 6 (0, quiet (Ch_op_send c)) @ [(1, quiet Ch_op_drop_receiver)]"])
    (simp add: ch_run_eval ch_duo_def ch_left_def insert_commute)

text \<open>Concrete instances of the properties with hypotheses.\<close>

lemma ch_fifo_witness:
  "ch_received (glob (ch_deadlocked (1 :: nat) 2 3)) = [Init 1, Init 2] \<and>
   mset (hist_pushed (ch_data (glob (ch_deadlocked (1 :: nat) 2 3)))) = {#1, 2#}"
  using ch_fifo [OF ch_deadlocked_reachable [where a = "1 :: nat" and b = 2 and c = 3]]
  by (simp add: ch_deadlocked_def ch_unreturned_def ch_two_def rb_empty_def)

lemma ch_roundtrip_witness:
  "\<exists>g' g''. ch_queue.enq_list fifo_futex True [7, 8, 9 :: nat] ch_two = Some (g', [9]) \<and>
    ch_queue.deq_list True 2 g' = Some (g'', [7, 8])"
proof -
  have "ch_open True 3 (ch_two :: nat channel)"
    using rb_empty_2 by (simp add: ch_open_def rb_ready_def ch_two_def)
  then have "ch_open True (length [7, 8, 9 :: nat]) (ch_two :: nat channel)" by (simp add: numeral_3_eq_3)
  from ch_roundtrip [OF this, of fifo_futex 2] rb_empty_2 show ?thesis
    by (auto simp: ch_two_def simp del: ch_queue.enq_list.simps ch_queue.deq_list.simps)
qed

lemma ch_disconnect_flags_witness:
  "senders_count (glob (ch_dismissed (7 :: nat))) = 0 \<and> val (receiver_state (glob (ch_dismissed (7 :: nat)))) = 1"
  using ch_disconnect_flags [OF ch_dismissed_reachable [of False "7 :: nat"]]
  by (simp add: ch_dismissed_def ch_two_def)

lemma ch_receiver_wakeup_witness:
  "ch_pc (locs (ch_asleep (7 :: nat)) ! 1) = Ch_recv RE_blocked \<and>
   val (receiver_state (glob (ch_asleep (7 :: nat)))) = 2"
  using ch_receiver_wakeup [OF ch_asleep_reachable [of False "7 :: nat"], of 1]
  by (simp add: ch_asleep_def ch_idle_def)

text \<open>A channel over the buffer whose head has wrapped around.\<close>

lemma ch_send_result_witness:
  "ch_send_alone fifo_futex True (quiet ()) 0 (7 :: nat) ch_two = Returns (ch_sent fifo_futex (quiet ()) 7 ch_two) (Inr ()) \<and>
   rb_contents (ch_data (ch_sent fifo_futex (quiet ()) (7 :: nat) ch_two)) = [7] \<and>
   ch_try_send_alone fifo_futex True (quiet ()) 7 (ch_two\<lparr>ch_data := rb_wrapped\<rparr>) =
     Panics (ch_two\<lparr>ch_data := rb_wrapped\<rparr>)"
proof -
  let ?g = "ch_two :: nat channel" and ?h = "ch_two\<lparr>ch_data := rb_wrapped\<rparr>"
  have g: "rb_wf (ch_data ?g)" "rb_contents (ch_data ?g) = []" "rb_size (ch_data ?g) = 2"
    "head (ch_data ?g) = 0" "tail (ch_data ?g) = 0" "val (receiver_state ?g) = 1"
    using rb_empty_2 by (simp_all add: ch_two_def)
  have h: "val (receiver_state ?h) = 1" "ch_data ?h = rb_wrapped" by (simp_all add: ch_two_def)
  show ?thesis
    using ch_send_result [of ?g fifo_futex True "quiet ()" 7 0]
      ch_send_result [of ?h fifo_futex True "quiet ()" 7 0]
    by (simp add: g h rb_wrapped_wf rb_wrapped_indices(1))
qed

lemma ch_recv_result_witness:
  "ch_recv_alone fifo_futex True (quiet ()) 1 (ch_sent fifo_futex (quiet ()) (7 :: nat) ch_two) =
     Returns (ch_wake_sender fifo_futex (quiet ())
       (ch_taken (Init 7) (ch_sent fifo_futex (quiet ()) 7 ch_two))) (Inr (Init 7)) \<and>
   ch_try_recv_alone True False (ch_two\<lparr>ch_data := rb_wrapped\<rparr>) =
     Panics (ch_put_back (Init 5) (ch_two\<lparr>ch_data := rb_wrapped\<rparr>))"
proof -
  let ?g = "ch_sent fifo_futex (quiet ()) (7 :: nat) ch_two"
  have "rb_wf (ch_data ?g)" "rb_contents (ch_data ?g) = [7]" "senders_count ?g \<noteq> 0"
    using rb_pushed_7 by (simp_all add: ch_sent_def ch_two_def)
  then show ?thesis
    using ch_recv_result [of ?g True False fifo_futex "quiet ()" 1]
      ch_recv_result [of "ch_two\<lparr>ch_data := rb_wrapped\<rparr>" True False fifo_futex "quiet ()" 1]
      rb_wrapped_wf rb_wrapped_indices(2)
    by simp
qed

lemma ch_drop_strands_waiter_witness:
  "\<exists>s'. run (ch_prog fifo_futex False) [(1, quiet Ch_op_clone), (1, quiet Ch_op_drop_sender)]
      (ch_left (1 :: nat) 2 3) = Some s' \<and> ch_stranded 0 (glob s')"
proof -
  let ?as = "[(1, quiet Ch_op_clone), (1, quiet Ch_op_drop_sender)]"
  obtain s' where r: "run (ch_prog fifo_futex False) ?as (ch_left (1 :: nat) 2 3) = Some s'"
    by (simp add: ch_run_eval ch_left_def MAX_SENDER_COUNT_def)
  have "ch_stranded 0 (glob (ch_left (1 :: nat) 2 3))" by (simp add: ch_stranded_def ch_left_def)
  from ch_drop_strands_waiter [OF ch_left_reachable this _ r] r show ?thesis by simp
qed

text \<open>
  C26: \<open>try_send\<close> and \<open>try_recv\<close> are wait-free.  In any state, a thread inside one of them is not
  blocked, and it is back with its client (or dead, after a failed overflow check) after at most eight of its own steps,
  however the steps of other threads interleave and even if every weak exchange fails.\<close>

theorem ch_try_wait_free:
  assumes "t < length (locs s)"
    and "ch_pc (locs s ! t) \<in> (\<Union>v. range (Ch_try_send v)) \<union> range Ch_try_recv"
  shows "returns_within (ch_prog F checks) ch_home (\<lambda>_. False) 8 t s"
proof (rule ch_free.returns [OF assms(1)])
  have "push_steps_left q \<le> 5" "pop_steps_left r \<le> 7" for q and r :: "'a pop_pc"
    using push_steps_left_bounds(2) [of q] pop_steps_left_bounds(2) [of r] by linarith+
  then show "ch_steps_left (ch_pc (locs s ! t)) \<le> 8"
    using assms(2) by (auto split: try_send_pc.split try_recv_pc.split)
qed (use assms(2) in \<open>auto split: try_send_pc.split try_recv_pc.split\<close>)

lemma ch_try_wait_free_witness:
  "returns_within (ch_prog fifo_futex True) ch_home (\<lambda>_. False) 8 1
    (ch_duo\<lparr>locs := [ch_idle, ch_idle\<lparr>ch_pc := Ch_try_send (3 :: nat) TS_state\<rparr>]\<rparr>)"
  by (rule ch_try_wait_free) (auto simp: ch_duo_def)

end
