(* ===== verification/ArcModel.thy ===== *)
theory ArcModel
  imports LockSpec Progress
begin

text \<open>
  The reference-counted pointer of \<open>src/arc.rs\<close>: one allocation and the threads that use it.
  History variables, not in the source, count the handles and the calls that borrow one, record
  what happened to the data and to the allocation, and note any access that is undefined
  behaviour.  Rust's ownership rules are the guards of the operations of a client thread.
\<close>

section \<open>State\<close>

definition MAX_REF_COUNT :: usize where
  "MAX_REF_COUNT = USIZE_MAX div 2"

text \<open>
  \<open>arcs\<close> and \<open>weaks\<close> are the handles not in the hands of a call that owns one; \<open>arc_uses\<close> and
  \<open>weak_uses\<close> are the calls in progress by shared reference.
\<close>

record 'a arc_inner =
  strong_count :: usize
  ref_count :: usize
  arc_data :: 'a
  arcs :: nat
  weaks :: nat
  arc_uses :: nat
  weak_uses :: nat
  arc_frees :: nat
  arc_drops :: nat
  arc_moves :: nat
  arc_bad :: bool
  arc_aborted :: bool

definition arc_new :: "'a \<Rightarrow> 'a arc_inner" where
  "arc_new d = \<lparr>strong_count = 1, ref_count = 1, arc_data = d, arcs = 1, weaks = 0, arc_uses = 0,
     weak_uses = 0, arc_frees = 0, arc_drops = 0, arc_moves = 0, arc_bad = False, arc_aborted = False\<rparr>"

text \<open>An access to the allocation is undefined after it was freed, one to the data also after
  the data was dropped or moved out.\<close>

definition touch :: "'a arc_inner \<Rightarrow> 'a arc_inner" where
  "touch g = g\<lparr>arc_bad := (arc_bad g \<or> 0 < arc_frees g)\<rparr>"

definition touch_data :: "'a arc_inner \<Rightarrow> 'a arc_inner" where
  "touch_data g = g\<lparr>arc_bad := (arc_bad g \<or> 0 < arc_frees g + arc_drops g + arc_moves g)\<rparr>"

definition arc_free :: "'a arc_inner \<Rightarrow> 'a arc_inner" where
  "arc_free g = (touch g)\<lparr>arc_frees := arc_frees g + 1\<rparr>"

section \<open>Operations\<close>

text \<open>\<open>Arc::clone\<close>, both as an associated function and as the trait method.\<close>

datatype arc_clone_pc = CL_add | CL_abort

fun arc_clone_step :: "'a arc_inner \<Rightarrow> arc_clone_pc \<Rightarrow> 'a arc_inner \<times> (arc_clone_pc, unit) ctl" where
  "arc_clone_step g CL_add =
     (if strong_count g > MAX_REF_COUNT
      then ((touch g)\<lparr>strong_count := strong_count g + 1\<rparr>, Next CL_abort)
      else ((touch g)\<lparr>strong_count := strong_count g + 1, arcs := arcs g + 1\<rparr>, Ret ()))"
| "arc_clone_step g CL_abort = (g\<lparr>arc_aborted := True\<rparr>, Panic)"

datatype arc_downgrade_pc = DG_load | DG_top usize

fun arc_downgrade_step :: "'a arc_inner \<Rightarrow> arc_downgrade_pc \<Rightarrow> 'a arc_inner \<times> (arc_downgrade_pc, unit) ctl" where
  "arc_downgrade_step g DG_load = (touch g, Next (DG_top (ref_count g)))"
| "arc_downgrade_step g (DG_top weak_count) =
     (if weak_count = USIZE_MAX then (touch g, Next (DG_top (ref_count g)))
      else if weak_count > MAX_REF_COUNT then (g, Panic)
      else if ref_count g = weak_count
      then ((touch g)\<lparr>ref_count := weak_count + 1, weaks := weaks g + 1\<rparr>, Ret ())
      else (touch g, Next (DG_top (ref_count g))))"

datatype arc_get_mut_pc = GM_cas | GM_load | GM_store bool

fun arc_get_mut_step :: "'a arc_inner \<Rightarrow> arc_get_mut_pc \<Rightarrow> 'a arc_inner \<times> (arc_get_mut_pc, bool) ctl" where
  "arc_get_mut_step g GM_cas =
     (if ref_count g = 1 then ((touch g)\<lparr>ref_count := USIZE_MAX\<rparr>, Next GM_load)
      else (touch g, Ret False))"
| "arc_get_mut_step g GM_load = (touch g, Next (GM_store (strong_count g = 1)))"
| "arc_get_mut_step g (GM_store unique) = ((touch g)\<lparr>ref_count := 1\<rparr>, Ret unique)"

text \<open>\<open>Drop for Weak\<close> and \<open>Drop for Arc\<close>.\<close>

datatype weak_drop_pc = WD_sub | WD_free

fun weak_drop_step :: "'a arc_inner \<Rightarrow> weak_drop_pc \<Rightarrow> 'a arc_inner \<times> (weak_drop_pc, unit) ctl" where
  "weak_drop_step g WD_sub =
     ((touch g)\<lparr>ref_count := ref_count g - 1\<rparr>, if ref_count g = 1 then Next WD_free else Ret ())"
| "weak_drop_step g WD_free = (arc_free g, Ret ())"

datatype arc_drop_pc = AD_sub | AD_data | AD_weak weak_drop_pc

fun arc_drop_step :: "'a arc_inner \<Rightarrow> arc_drop_pc \<Rightarrow> 'a arc_inner \<times> (arc_drop_pc, unit) ctl" where
  "arc_drop_step g AD_sub =
     ((touch g)\<lparr>strong_count := strong_count g - 1\<rparr>, if strong_count g = 1 then Next AD_data else Ret ())"
| "arc_drop_step g AD_data = ((touch_data g)\<lparr>arc_drops := arc_drops g + 1\<rparr>, Next (AD_weak WD_sub))"
| "arc_drop_step g (AD_weak p) =
     (case weak_drop_step g p of
        (g', Next p') \<Rightarrow> (g', Next (AD_weak p'))
      | (g', Ret _) \<Rightarrow> (g', Ret ())
      | (g', Panic) \<Rightarrow> (g', Panic))"

text \<open>\<open>into_inner\<close> owns the handle: where it returns \<open>None\<close>, the handle is dropped.\<close>

datatype 'a arc_into_pc = II_cas | II_load | II_restore | II_drop arc_drop_pc | II_read | II_free 'a

fun arc_into_inner_step :: "'a arc_inner \<Rightarrow> 'a arc_into_pc \<Rightarrow> 'a arc_inner \<times> ('a arc_into_pc, 'a option) ctl" where
  "arc_into_inner_step g II_cas =
     (if ref_count g = 1 then ((touch g)\<lparr>ref_count := USIZE_MAX\<rparr>, Next II_load)
      else (touch g, Next (II_drop AD_sub)))"
| "arc_into_inner_step g II_load =
     (touch g, Next (if strong_count g \<noteq> 1 then II_restore else II_read))"
| "arc_into_inner_step g II_restore = ((touch g)\<lparr>ref_count := 1\<rparr>, Next (II_drop AD_sub))"
| "arc_into_inner_step g (II_drop p) =
     (case arc_drop_step g p of
        (g', Next p') \<Rightarrow> (g', Next (II_drop p'))
      | (g', Ret _) \<Rightarrow> (g', Ret None)
      | (g', Panic) \<Rightarrow> (g', Panic))"
| "arc_into_inner_step g II_read = ((touch_data g)\<lparr>arc_moves := arc_moves g + 1\<rparr>, Next (II_free (arc_data g)))"
| "arc_into_inner_step g (II_free data) = (arc_free g, Ret (Some data))"

datatype weak_upgrade_pc = UP_load | UP_top usize

fun weak_upgrade_step :: "'a arc_inner \<Rightarrow> weak_upgrade_pc \<Rightarrow> 'a arc_inner \<times> (weak_upgrade_pc, bool) ctl" where
  "weak_upgrade_step g UP_load = (touch g, Next (UP_top (strong_count g)))"
| "weak_upgrade_step g (UP_top strong_refs) =
     (if strong_refs = 0 then (g, Ret False)
      else if strong_refs > MAX_REF_COUNT then (g, Panic)
      else if strong_count g = strong_refs
      then ((touch g)\<lparr>strong_count := strong_refs + 1, arcs := arcs g + 1\<rparr>, Ret True)
      else (touch g, Next (UP_top (strong_count g))))"

text \<open>\<open>Deref\<close> reads the data; the reference returned by \<open>get_mut\<close> also writes it.\<close>

definition arc_deref :: "'a arc_inner \<Rightarrow> 'a arc_inner \<times> 'a" where
  "arc_deref g = (touch_data g, arc_data g)"

definition arc_write :: "('a \<Rightarrow> 'a) \<Rightarrow> 'a arc_inner \<Rightarrow> 'a arc_inner" where
  "arc_write f g = (touch_data g)\<lparr>arc_data := f (arc_data g)\<rparr>"

section \<open>Client threads\<close>

datatype 'a arc_op =
    Arc_op_clone | Arc_op_downgrade | Arc_op_get_mut | Arc_op_into_inner | Arc_op_drop | Arc_op_deref
  | Arc_op_upgrade | Arc_op_weak_drop | Arc_op_write "'a \<Rightarrow> 'a"

datatype 'a arc_pc =
    A_idle | A_clone arc_clone_pc | A_downgrade arc_downgrade_pc | A_get_mut arc_get_mut_pc | A_mut
  | A_into_inner "'a arc_into_pc" | A_drop arc_drop_pc | A_deref | A_upgrade weak_upgrade_pc
  | A_weak_drop weak_drop_pc | A_dead

datatype 'a arc_result = Cloned | Downgraded | Got_mut bool | Into_inner "'a option" | Read 'a | Upgraded bool

record 'a arc_thread =
  arc_pc :: "'a arc_pc"
  arc_last :: "'a arc_result option"

definition arc_idle :: "'a arc_thread" where
  "arc_idle = \<lparr>arc_pc = A_idle, arc_last = None\<rparr>"

text \<open>
  A call that takes its handle by value or by mutable reference takes it out of the handles
  that others can use, which needs that no call in progress can be using it.
\<close>

definition arc_take :: "'a arc_pc \<Rightarrow> 'a arc_inner \<Rightarrow> 'a arc_thread \<Rightarrow> ('a arc_inner \<times> 'a arc_thread) option" where
  "arc_take p g l =
     (if 1 < arcs g \<or> arcs g = 1 \<and> arc_uses g = 0
      then Some (g\<lparr>arcs := arcs g - 1\<rparr>, l\<lparr>arc_pc := p\<rparr>) else None)"

definition arc_share :: "'a arc_pc \<Rightarrow> 'a arc_inner \<Rightarrow> 'a arc_thread \<Rightarrow> ('a arc_inner \<times> 'a arc_thread) option" where
  "arc_share p g l =
     (if 0 < arcs g then Some (g\<lparr>arc_uses := arc_uses g + 1\<rparr>, l\<lparr>arc_pc := p\<rparr>) else None)"

definition arc_unshare :: "'a arc_inner \<Rightarrow> 'a arc_inner" where
  "arc_unshare g = g\<lparr>arc_uses := arc_uses g - 1\<rparr>"

definition weak_unshare :: "'a arc_inner \<Rightarrow> 'a arc_inner" where
  "weak_unshare g = g\<lparr>weak_uses := weak_uses g - 1\<rparr>"

definition arc_give_back :: "'a arc_inner \<Rightarrow> 'a arc_inner" where
  "arc_give_back g = g\<lparr>arcs := arcs g + 1\<rparr>"

fun arc_call :: "'a arc_op \<Rightarrow> 'a arc_inner \<Rightarrow> 'a arc_thread \<Rightarrow> ('a arc_inner \<times> 'a arc_thread) option" where
  "arc_call Arc_op_clone g l = arc_share (A_clone CL_add) g l"
| "arc_call Arc_op_downgrade g l = arc_share (A_downgrade DG_load) g l"
| "arc_call Arc_op_get_mut g l = arc_take (A_get_mut GM_cas) g l"
| "arc_call Arc_op_into_inner g l = arc_take (A_into_inner II_cas) g l"
| "arc_call Arc_op_drop g l = arc_take (A_drop AD_sub) g l"
| "arc_call Arc_op_deref g l = arc_share A_deref g l"
| "arc_call Arc_op_upgrade g l =
     (if 0 < weaks g then Some (g\<lparr>weak_uses := weak_uses g + 1\<rparr>, l\<lparr>arc_pc := A_upgrade UP_load\<rparr>)
      else None)"
| "arc_call Arc_op_weak_drop g l =
     (if 1 < weaks g \<or> weaks g = 1 \<and> weak_uses g = 0
      then Some (g\<lparr>weaks := weaks g - 1\<rparr>, l\<lparr>arc_pc := A_weak_drop WD_sub\<rparr>) else None)"
| "arc_call (Arc_op_write f) g l = None"

definition arc_done :: "'a arc_result \<Rightarrow> 'a arc_thread" where
  "arc_done r = \<lparr>arc_pc = A_idle, arc_last = Some r\<rparr>"

text \<open>
  \<open>abort\<close> stops every thread.  A thread to which \<open>get_mut\<close> has returned a reference uses it
  until it gives its handle back.
\<close>

definition arc_prog :: "('a arc_op, 'a arc_inner, 'a arc_thread) program" where
  "arc_prog e t g l =
     (if arc_aborted g then None
      else case arc_pc l of
        A_idle \<Rightarrow> arc_call (call e) g l
      | A_clone p \<Rightarrow>
          (case arc_clone_step g p of
             (g', Next p') \<Rightarrow> Some (g', l\<lparr>arc_pc := A_clone p'\<rparr>)
           | (g', Ret _) \<Rightarrow> Some (arc_unshare g', arc_done Cloned)
           | (g', Panic) \<Rightarrow> Some (g', l))
      | A_downgrade p \<Rightarrow>
          (case arc_downgrade_step g p of
             (g', Next p') \<Rightarrow> Some (g', l\<lparr>arc_pc := A_downgrade p'\<rparr>)
           | (g', Ret _) \<Rightarrow> Some (arc_unshare g', arc_done Downgraded)
           | (g', Panic) \<Rightarrow> Some (arc_unshare g', l\<lparr>arc_pc := A_dead\<rparr>))
      | A_get_mut p \<Rightarrow>
          (case arc_get_mut_step g p of
             (g', Next p') \<Rightarrow> Some (g', l\<lparr>arc_pc := A_get_mut p'\<rparr>)
           | (g', Ret True) \<Rightarrow> Some (g', \<lparr>arc_pc = A_mut, arc_last = Some (Got_mut True)\<rparr>)
           | (g', Ret False) \<Rightarrow> Some (arc_give_back g', arc_done (Got_mut False))
           | (g', Panic) \<Rightarrow> None)
      | A_mut \<Rightarrow>
          (case call e of
             Arc_op_write f \<Rightarrow> Some (arc_write f g, l)
           | _ \<Rightarrow> Some (arc_give_back g, l\<lparr>arc_pc := A_idle\<rparr>))
      | A_into_inner p \<Rightarrow>
          (case arc_into_inner_step g p of
             (g', Next p') \<Rightarrow> Some (g', l\<lparr>arc_pc := A_into_inner p'\<rparr>)
           | (g', Ret r) \<Rightarrow> Some (g', arc_done (Into_inner r))
           | (g', Panic) \<Rightarrow> None)
      | A_drop p \<Rightarrow>
          (case arc_drop_step g p of
             (g', Next p') \<Rightarrow> Some (g', l\<lparr>arc_pc := A_drop p'\<rparr>)
           | (g', Ret _) \<Rightarrow> Some (g', l\<lparr>arc_pc := A_idle\<rparr>)
           | (g', Panic) \<Rightarrow> None)
      | A_deref \<Rightarrow>
          (case arc_deref g of (g', d) \<Rightarrow> Some (arc_unshare g', arc_done (Read d)))
      | A_upgrade p \<Rightarrow>
          (case weak_upgrade_step g p of
             (g', Next p') \<Rightarrow> Some (g', l\<lparr>arc_pc := A_upgrade p'\<rparr>)
           | (g', Ret b) \<Rightarrow> Some (weak_unshare g', arc_done (Upgraded b))
           | (g', Panic) \<Rightarrow> Some (weak_unshare g', l\<lparr>arc_pc := A_dead\<rparr>))
      | A_weak_drop p \<Rightarrow>
          (case weak_drop_step g p of
             (g', Next p') \<Rightarrow> Some (g', l\<lparr>arc_pc := A_weak_drop p'\<rparr>)
           | (g', Ret _) \<Rightarrow> Some (g', l\<lparr>arc_pc := A_idle\<rparr>)
           | (g', Panic) \<Rightarrow> None)
      | A_dead \<Rightarrow> None)"

definition arc_start :: "('a arc_inner, 'a arc_thread) sys \<Rightarrow> bool" where
  "arc_start s \<longleftrightarrow> (\<exists>n d. n < 2 ^ 32 \<and> s = \<lparr>glob = arc_new d, locs = replicate n arc_idle\<rparr>)"

section \<open>Roles\<close>

text \<open>
  What a thread owns at a point of its program: nothing; a shared borrow of an \<open>Arc\<close> (also
  when it has overflowed \<open>strong_count\<close> and is about to abort) or of a \<open>Weak\<close>; an \<open>Arc\<close> (also while it has locked \<open>ref_count\<close>, found itself unique, holds the
  mutable reference, or has moved the data out); the data to drop; the weak reference all
  \<open>Arc\<close>s share; a \<open>Weak\<close>; or the allocation to free.
\<close>

datatype role =
    R_none | R_use | R_over | R_weak_use | R_hold | R_lock | R_lock_unique | R_unique | R_moved
  | R_data | R_last | R_weak | R_free

fun drop_role :: "arc_drop_pc \<Rightarrow> role" where
  "drop_role AD_sub = R_hold"
| "drop_role AD_data = R_data"
| "drop_role (AD_weak WD_sub) = R_last"
| "drop_role (AD_weak WD_free) = R_free"

fun arc_role :: "'a arc_pc \<Rightarrow> role" where
  "arc_role A_idle = R_none"
| "arc_role (A_clone CL_add) = R_use"
| "arc_role (A_clone CL_abort) = R_over"
| "arc_role (A_downgrade _) = R_use"
| "arc_role (A_get_mut GM_cas) = R_hold"
| "arc_role (A_get_mut GM_load) = R_lock"
| "arc_role (A_get_mut (GM_store unique)) = (if unique then R_lock_unique else R_lock)"
| "arc_role A_mut = R_unique"
| "arc_role (A_into_inner II_cas) = R_hold"
| "arc_role (A_into_inner II_load) = R_lock"
| "arc_role (A_into_inner II_restore) = R_lock"
| "arc_role (A_into_inner (II_drop p)) = drop_role p"
| "arc_role (A_into_inner II_read) = R_lock_unique"
| "arc_role (A_into_inner (II_free _)) = R_moved"
| "arc_role (A_drop p) = drop_role p"
| "arc_role A_deref = R_use"
| "arc_role (A_upgrade _) = R_weak_use"
| "arc_role (A_weak_drop WD_sub) = R_weak"
| "arc_role (A_weak_drop WD_free) = R_free"
| "arc_role A_dead = R_none"

text \<open>The counters as numbers.\<close>

record arc_abs =
  ab_strong :: nat
  ab_ref :: nat
  ab_arcs :: nat
  ab_weaks :: nat
  ab_uses :: nat
  ab_weak_uses :: nat
  ab_frees :: nat
  ab_drops :: nat
  ab_moves :: nat
  ab_bad :: bool

definition arc_abs :: "'a arc_inner \<Rightarrow> arc_abs" where
  "arc_abs g = \<lparr>ab_strong = unat (strong_count g), ab_ref = unat (ref_count g), ab_arcs = arcs g,
     ab_weaks = weaks g, ab_uses = arc_uses g, ab_weak_uses = weak_uses g, ab_frees = arc_frees g,
     ab_drops = arc_drops g, ab_moves = arc_moves g, ab_bad = arc_bad g\<rparr>"

text \<open>The abstract protocol of the counters: what a step of a thread does, by its role.\<close>

inductive arc_move :: "arc_abs \<Rightarrow> role \<Rightarrow> arc_abs \<Rightarrow> role \<Rightarrow> bool" where
  none [simp]: "arc_move a r a r"
| clone [simp]: "ab_strong a < 2 ^ 63 \<Longrightarrow> arc_move a R_use
    (a\<lparr>ab_strong := ab_strong a + 1, ab_arcs := ab_arcs a + 1, ab_uses := ab_uses a - 1\<rparr>) R_none"
| overflow [simp]: "arc_move a R_use (a\<lparr>ab_strong := ab_strong a + 1\<rparr>) R_over"
| share [simp]: "0 < ab_arcs a \<Longrightarrow> arc_move a R_none (a\<lparr>ab_uses := ab_uses a + 1\<rparr>) R_use"
| unshare [simp]: "arc_move a R_use (a\<lparr>ab_uses := ab_uses a - 1\<rparr>) R_none"
| downgrade [simp]: "ab_ref a < 2 ^ 63 \<Longrightarrow> arc_move a R_use
    (a\<lparr>ab_ref := ab_ref a + 1, ab_weaks := ab_weaks a + 1, ab_uses := ab_uses a - 1\<rparr>) R_none"
| take_arc [simp]: "1 < ab_arcs a \<or> ab_arcs a = 1 \<and> ab_uses a = 0 \<Longrightarrow>
    arc_move a R_none (a\<lparr>ab_arcs := ab_arcs a - 1\<rparr>) R_hold"
| give_back [simp]: "r = R_hold \<or> r = R_unique \<Longrightarrow>
    arc_move a r (a\<lparr>ab_arcs := ab_arcs a + 1\<rparr>) R_none"
| weak_share [simp]: "0 < ab_weaks a \<Longrightarrow>
    arc_move a R_none (a\<lparr>ab_weak_uses := ab_weak_uses a + 1\<rparr>) R_weak_use"
| weak_unshare [simp]: "arc_move a R_weak_use (a\<lparr>ab_weak_uses := ab_weak_uses a - 1\<rparr>) R_none"
| upgrade [simp]: "0 < ab_strong a \<Longrightarrow> ab_strong a < 2 ^ 63 \<Longrightarrow> arc_move a R_weak_use
    (a\<lparr>ab_strong := ab_strong a + 1, ab_arcs := ab_arcs a + 1, ab_weak_uses := ab_weak_uses a - 1\<rparr>) R_none"
| take_weak [simp]: "1 < ab_weaks a \<or> ab_weaks a = 1 \<and> ab_weak_uses a = 0 \<Longrightarrow>
    arc_move a R_none (a\<lparr>ab_weaks := ab_weaks a - 1\<rparr>) R_weak"
| lock [simp]: "ab_ref a = 1 \<Longrightarrow> arc_move a R_hold (a\<lparr>ab_ref := 18446744073709551615\<rparr>) R_lock"
| find_unique [simp]: "ab_strong a = 1 \<Longrightarrow> arc_move a R_lock a R_lock_unique"
| unlock [simp]: "r = R_lock \<and> r' = R_hold \<or> r = R_lock_unique \<and> r' = R_unique \<Longrightarrow>
    arc_move a r (a\<lparr>ab_ref := 1\<rparr>) r'"
| move [simp]: "arc_move a R_lock_unique (a\<lparr>ab_moves := ab_moves a + 1\<rparr>) R_moved"
| drop_arc [simp]: "r' = (if ab_strong a = 1 then R_data else R_none) \<Longrightarrow>
    arc_move a R_hold (a\<lparr>ab_strong := ab_strong a - 1\<rparr>) r'"
| drop_data [simp]: "arc_move a R_data (a\<lparr>ab_drops := ab_drops a + 1\<rparr>) R_last"
| drop_weak [simp]: "r = R_weak \<or> r = R_last \<Longrightarrow> r' = (if ab_ref a = 1 then R_free else R_none) \<Longrightarrow>
    arc_move a r (a\<lparr>ab_ref := ab_ref a - 1\<rparr>) r'"
| free [simp]: "r = R_free \<or> r = R_moved \<Longrightarrow>
    arc_move a r (a\<lparr>ab_frees := ab_frees a + 1\<rparr>) R_none"
| unlock_give_back [simp]: "arc_move a R_lock (a\<lparr>ab_ref := 1, ab_arcs := ab_arcs a + 1\<rparr>) R_none"

text \<open>What the invariant has to say for a step to be a move.\<close>

definition arc_pre :: "'a arc_inner \<Rightarrow> role \<Rightarrow> bool" where
  "arc_pre g r \<longleftrightarrow>
     (r = R_use \<longrightarrow> unat (strong_count g) < 18446744073709551615) \<and>
     (r \<noteq> R_none \<or> 0 < arcs g \<longrightarrow> arc_frees g = 0) \<and>
     (r \<in> {R_use, R_unique, R_data, R_lock_unique} \<longrightarrow> arc_drops g = 0 \<and> arc_moves g = 0) \<and>
     (r = R_hold \<longrightarrow> strong_count g \<noteq> 0) \<and> (r = R_weak \<or> r = R_last \<longrightarrow> ref_count g \<noteq> 0)"

lemma MAX_REF_COUNT_eq: "MAX_REF_COUNT = 9223372036854775807"
  by (simp add: MAX_REF_COUNT_def)

lemma count_le_max: "c \<le> MAX_REF_COUNT \<longleftrightarrow> unat c < 2 ^ 63"
  unfolding MAX_REF_COUNT_eq word_le_nat_alt by simp linarith

lemma unat_count_plus_1: "unat (c :: usize) < 18446744073709551615 \<Longrightarrow> unat (c + 1) = Suc (unat c)"
  by (simp add: unat_word_ariths)

lemma unat_count_eq_1: "unat (c :: usize) = Suc 0 \<longleftrightarrow> c = 1"
  by (metis One_nat_def unat_1 word_unat_eq_iff)

lemmas arc_eval = arc_prog_def arc_take_def arc_share_def arc_unshare_def weak_unshare_def
  arc_give_back_def arc_done_def arc_free_def touch_def touch_data_def arc_deref_def
  arc_write_def Let_def

lemmas arc_word = count_le_max unat_count_plus_1 unat_minus_1 unat_count_eq_1 unat_USIZE_MAX not_less
  not_le

lemma arc_moveI: "arc_move a r a' r' \<Longrightarrow> arc_abs g = a \<Longrightarrow> arc_abs g' = a' \<Longrightarrow> arc_move (arc_abs g) r (arc_abs g') r'"
  by simp

lemma arc_take_move:
  assumes "arc_take p g l = Some (g', l')" and "arc_role p = R_hold"
  shows "arc_move (arc_abs g) R_none (arc_abs g') (arc_role (arc_pc l'))"
  using arc_move.take_arc [of "arc_abs g"] assms
  by (auto simp: arc_take_def arc_abs_def split: if_splits)

lemma weak_take_move:
  assumes "arc_call Arc_op_weak_drop g l = Some (g', l')"
  shows "arc_move (arc_abs g) R_none (arc_abs g') (arc_role (arc_pc l'))"
  using arc_move.take_weak [of "arc_abs g"] assms
  by (auto simp: arc_abs_def split: if_splits)

lemma arc_share_move:
  assumes "arc_share p g l = Some (g', l')" and "arc_role p = R_use"
  shows "arc_move (arc_abs g) R_none (arc_abs g') (arc_role (arc_pc l'))"
  using arc_move.share [of "arc_abs g"] assms
  by (auto simp: arc_share_def arc_abs_def split: if_splits)

lemma arc_call_move:
  assumes "arc_call op g l = Some (g', l')" and "arc_pc l = A_idle"
  shows "arc_move (arc_abs g) R_none (arc_abs g') (arc_role (arc_pc l'))"
proof (cases op)
  case Arc_op_upgrade
  with assms arc_move.weak_share [of "arc_abs g"] show ?thesis
    by (auto simp: arc_abs_def split: if_splits)
next
  case Arc_op_weak_drop
  with assms(1) weak_take_move show ?thesis by blast
qed (use assms in \<open>simp_all add: arc_take_move arc_share_move\<close>)

text \<open>The steps of the functions, by function.\<close>

lemma touch_simps [simp]:
  "strong_count (touch g) = strong_count g" "ref_count (touch g) = ref_count g"
  "arcs (touch g) = arcs g" "weaks (touch g) = weaks g" "arc_uses (touch g) = arc_uses g"
  "weak_uses (touch g) = weak_uses g" "arc_frees (touch g) = arc_frees g"
  "arc_drops (touch g) = arc_drops g" "arc_moves (touch g) = arc_moves g"
  "arc_bad (touch g) = (arc_bad g \<or> 0 < arc_frees g)"
  by (simp_all add: touch_def)

lemma touch_data_simps [simp]:
  "strong_count (touch_data g) = strong_count g" "ref_count (touch_data g) = ref_count g"
  "arcs (touch_data g) = arcs g" "weaks (touch_data g) = weaks g"
  "arc_uses (touch_data g) = arc_uses g" "weak_uses (touch_data g) = weak_uses g"
  "arc_frees (touch_data g) = arc_frees g" "arc_drops (touch_data g) = arc_drops g"
  "arc_moves (touch_data g) = arc_moves g"
  "arc_bad (touch_data g) = (arc_bad g \<or> 0 < arc_frees g + arc_drops g + arc_moves g)"
  by (simp_all add: touch_data_def)

lemma weak_drop_move:
  assumes "weak_drop_step g p = (g', c)" and "arc_frees g = 0" and "p = WD_sub \<longrightarrow> ref_count g \<noteq> 0"
    and "r = (case p of WD_sub \<Rightarrow> rs | WD_free \<Rightarrow> R_free)" and "rs = R_weak \<or> rs = R_last"
    and "r' = (if c = Next WD_free then R_free else R_none)"
  shows "arc_move (arc_abs g) r (arc_abs g') r' \<and> c \<noteq> Panic \<and> c \<noteq> Next WD_sub"
proof (cases p)
  case WD_sub
  with assms arc_move.drop_weak [of rs r' "arc_abs g"] show ?thesis
    by (auto simp: arc_abs_def unat_minus_1 unat_count_eq_1 split: if_splits)
next
  case WD_free
  with assms arc_move.free [of R_free "arc_abs g"] show ?thesis
    by (auto simp: arc_abs_def arc_free_def)
qed

lemma arc_drop_move:
  assumes "arc_drop_step g p = (g', c)" and "arc_pre g (drop_role p)"
    and "r' = (case c of Next p' \<Rightarrow> drop_role p' | _ \<Rightarrow> R_none)"
  shows "arc_move (arc_abs g) (drop_role p) (arc_abs g') r' \<and> c \<noteq> Panic"
proof (cases p)
  case AD_sub
  with assms arc_move.drop_arc [of r' "arc_abs g"] show ?thesis
    by (auto simp: arc_pre_def arc_abs_def unat_minus_1 unat_count_eq_1 split: if_splits)
next
  case AD_data
  with assms arc_move.drop_data [of "arc_abs g"] show ?thesis
    by (auto simp: arc_pre_def arc_abs_def)
next
  case (AD_weak q)
  obtain g1 d where w: "weak_drop_step g q = (g1, d)" by fastforce
  have pre: "arc_frees g = 0" "q = WD_sub \<longrightarrow> ref_count g \<noteq> 0"
    using assms(2) AD_weak by (cases q; simp add: arc_pre_def)+
  have role: "drop_role p = (case q of WD_sub \<Rightarrow> R_last | WD_free \<Rightarrow> R_free)"
    using AD_weak by (cases q) auto
  from weak_drop_move [OF w pre role, of "if d = Next WD_free then R_free else R_none"]
  have "arc_move (arc_abs g) (drop_role p) (arc_abs g1) (if d = Next WD_free then R_free else R_none)"
    and "d \<noteq> Panic" "d \<noteq> Next WD_sub" by auto
  then show ?thesis using assms(1,3) AD_weak w
    by (cases d) (auto split: if_splits, metis weak_drop_pc.exhaust)
qed

lemma arc_clone_move:
  assumes "arc_clone_step g p = (g', c)" and "arc_pre g (arc_role (A_clone p))"
  shows "case c of Next p' \<Rightarrow> arc_move (arc_abs g) (arc_role (A_clone p)) (arc_abs g') (arc_role (A_clone p'))
    | Ret _ \<Rightarrow> arc_move (arc_abs g) (arc_role (A_clone p)) (arc_abs (arc_unshare g')) R_none
    | Panic \<Rightarrow> arc_abs g' = arc_abs g \<and> p = CL_abort"
proof (cases p)
  case CL_add
  with assms arc_move.clone [of "arc_abs g"] arc_move.overflow [of "arc_abs g"] show ?thesis
    by (auto simp: arc_pre_def arc_abs_def arc_unshare_def unat_count_plus_1 count_le_max not_less
      split: if_splits)
next
  case CL_abort
  with assms show ?thesis by (auto simp: arc_abs_def)
qed

lemma arc_downgrade_move:
  assumes "arc_downgrade_step g p = (g', c)" and "arc_pre g R_use"
  shows "case c of Next _ \<Rightarrow> arc_abs g' = arc_abs g
    | _ \<Rightarrow> arc_move (arc_abs g) R_use (arc_abs (arc_unshare g')) R_none"
proof (cases p)
  case DG_load
  with assms show ?thesis by (auto simp: arc_pre_def arc_abs_def)
next
  case (DG_top n)
  consider "n = USIZE_MAX \<or> ref_count g \<noteq> n" "n = USIZE_MAX \<or> n \<le> MAX_REF_COUNT"
    | "n \<noteq> USIZE_MAX" "\<not> n \<le> MAX_REF_COUNT"
    | "n \<noteq> USIZE_MAX" "n \<le> MAX_REF_COUNT" "ref_count g = n" by blast
  then show ?thesis
  proof cases
    case 1
    with assms DG_top show ?thesis by (auto simp: arc_pre_def arc_abs_def split: if_splits)
  next
    case 2
    with assms DG_top arc_move.unshare [of "arc_abs g"] show ?thesis
      by (auto simp: arc_abs_def arc_unshare_def not_le split: if_splits)
  next
    case 3
    then have "unat (ref_count g) < 2 ^ 63" by (simp add: count_le_max)
    with 3 assms DG_top arc_move.downgrade [of "arc_abs g"] show ?thesis
      by (auto simp: arc_pre_def arc_abs_def arc_unshare_def unat_count_plus_1 not_less split: if_splits)
  qed
qed

lemma weak_upgrade_move:
  assumes "weak_upgrade_step g p = (g', c)" and "arc_pre g R_weak_use"
  shows "case c of Next _ \<Rightarrow> arc_abs g' = arc_abs g
    | _ \<Rightarrow> arc_move (arc_abs g) R_weak_use (arc_abs (weak_unshare g')) R_none"
proof (cases p)
  case UP_load
  with assms show ?thesis by (auto simp: arc_pre_def arc_abs_def)
next
  case (UP_top n)
  consider "n \<noteq> 0" "n \<le> MAX_REF_COUNT" "strong_count g \<noteq> n" | "n = 0 \<or> \<not> n \<le> MAX_REF_COUNT"
    | "n \<noteq> 0" "n \<le> MAX_REF_COUNT" "strong_count g = n" by blast
  then show ?thesis
  proof cases
    case 1
    with assms UP_top show ?thesis by (auto simp: arc_pre_def arc_abs_def split: if_splits)
  next
    case 2
    with assms UP_top arc_move.weak_unshare [of "arc_abs g"] show ?thesis
      by (auto simp: arc_abs_def weak_unshare_def split: if_splits)
  next
    case 3
    then have "unat (strong_count g) < 2 ^ 63" "0 < unat (strong_count g)"
      by (simp_all add: count_le_max unat_gt_0)
    with 3 assms UP_top arc_move.upgrade [of "arc_abs g"] show ?thesis
      by (auto simp: arc_pre_def arc_abs_def weak_unshare_def unat_count_plus_1 not_less split: if_splits)
  qed
qed

lemma arc_get_mut_move:
  assumes "arc_get_mut_step g p = (g', c)" and "arc_pre g (arc_role (A_get_mut p))"
  shows "case c of Next p' \<Rightarrow> arc_move (arc_abs g) (arc_role (A_get_mut p)) (arc_abs g') (arc_role (A_get_mut p'))
    | Ret True \<Rightarrow> arc_move (arc_abs g) (arc_role (A_get_mut p)) (arc_abs g') R_unique
    | Ret False \<Rightarrow> arc_move (arc_abs g) (arc_role (A_get_mut p)) (arc_abs (arc_give_back g')) R_none
    | Panic \<Rightarrow> False"
proof (cases p)
  case GM_cas
  with assms arc_move.lock [of "arc_abs g"] arc_move.give_back [of R_hold "arc_abs g"] show ?thesis
    by (auto simp: arc_pre_def arc_abs_def arc_give_back_def unat_USIZE_MAX unat_count_eq_1 split: if_splits)
next
  case GM_load
  with assms arc_move.find_unique [of "arc_abs g"] show ?thesis
    by (auto simp: arc_pre_def arc_abs_def unat_count_eq_1)
next
  case (GM_store unique)
  with assms arc_move.unlock [of R_lock_unique R_unique "arc_abs g"]
    arc_move.unlock_give_back [of "arc_abs g"] show ?thesis
    by (cases unique) (auto simp: arc_pre_def arc_abs_def arc_give_back_def)
qed

lemma arc_into_inner_move:
  assumes "arc_into_inner_step g p = (g', c)" and "arc_pre g (arc_role (A_into_inner p))"
  shows "case c of
      Next p' \<Rightarrow> arc_move (arc_abs g) (arc_role (A_into_inner p)) (arc_abs g') (arc_role (A_into_inner p'))
    | Ret _ \<Rightarrow> arc_move (arc_abs g) (arc_role (A_into_inner p)) (arc_abs g') R_none
    | Panic \<Rightarrow> False"
proof (cases p)
  case II_cas
  with assms arc_move.lock [of "arc_abs g"] show ?thesis
    by (auto simp: arc_pre_def arc_abs_def unat_USIZE_MAX unat_count_eq_1 split: if_splits)
next
  case II_load
  with assms arc_move.find_unique [of "arc_abs g"] show ?thesis
    by (auto simp: arc_pre_def arc_abs_def unat_count_eq_1)
next
  case II_restore
  with assms arc_move.unlock [of R_lock R_hold "arc_abs g"] show ?thesis
    by (auto simp: arc_pre_def arc_abs_def)
next
  case (II_drop q)
  obtain g1 d where d: "arc_drop_step g q = (g1, d)" by fastforce
  from arc_drop_move [OF d] assms(2) II_drop have
    "arc_move (arc_abs g) (drop_role q) (arc_abs g1) (case d of Next p' \<Rightarrow> drop_role p' | _ \<Rightarrow> R_none)"
    and "d \<noteq> Panic" by auto
  with assms(1) II_drop d show ?thesis by (cases d) auto
next
  case II_read
  with assms arc_move.move [of "arc_abs g"] show ?thesis
    by (auto simp: arc_pre_def arc_abs_def)
next
  case (II_free d)
  with assms arc_move.free [of R_moved "arc_abs g"] show ?thesis
    by (auto simp: arc_pre_def arc_abs_def arc_free_def)
qed

lemma arc_prog_move:
  assumes step: "arc_prog e t g l = Some (g', l')" and pre: "arc_pre g (arc_role (arc_pc l))"
  shows "arc_move (arc_abs g) (arc_role (arc_pc l)) (arc_abs g') (arc_role (arc_pc l'))"
proof (cases "arc_pc l")
  case A_idle
  with assms arc_call_move show ?thesis by (simp add: arc_prog_def split: if_splits)
next
  case (A_clone p)
  obtain g1 c where s: "arc_clone_step g p = (g1, c)" by fastforce
  from arc_clone_move [OF s pre [unfolded A_clone]] step A_clone s show ?thesis
    by (auto simp: arc_prog_def arc_done_def split: ctl.splits if_splits)
next
  case (A_downgrade p)
  obtain g1 c where s: "arc_downgrade_step g p = (g1, c)" by fastforce
  from arc_downgrade_move [OF s] pre step A_downgrade s show ?thesis
    by (auto simp: arc_prog_def arc_done_def split: ctl.splits if_splits)
next
  case (A_get_mut p)
  obtain g1 c where s: "arc_get_mut_step g p = (g1, c)" by fastforce
  from arc_get_mut_move [OF s] pre step A_get_mut s show ?thesis
    by (auto simp: arc_prog_def arc_done_def split: ctl.splits bool.splits if_splits)
next
  case A_mut
  with step pre arc_move.give_back [of R_unique "arc_abs g"] show ?thesis
    by (cases "call e") (auto simp: arc_prog_def arc_write_def arc_pre_def arc_give_back_def arc_abs_def
      split: if_splits)
next
  case (A_into_inner p)
  obtain g1 c where s: "arc_into_inner_step g p = (g1, c)" by fastforce
  from arc_into_inner_move [OF s] pre step A_into_inner s show ?thesis
    by (auto simp: arc_prog_def arc_done_def split: ctl.splits if_splits)
next
  case (A_drop p)
  obtain g1 c where s: "arc_drop_step g p = (g1, c)" by fastforce
  from arc_drop_move [OF s] pre step A_drop s show ?thesis
    by (auto simp: arc_prog_def split: ctl.splits if_splits)
next
  case A_deref
  with step pre arc_move.unshare [of "arc_abs g"] show ?thesis
    by (auto simp: arc_prog_def arc_deref_def arc_pre_def arc_unshare_def arc_done_def arc_abs_def
      split: if_splits)
next
  case (A_upgrade p)
  obtain g1 c where s: "weak_upgrade_step g p = (g1, c)" by fastforce
  from weak_upgrade_move [OF s] pre step A_upgrade s show ?thesis
    by (auto simp: arc_prog_def arc_done_def split: ctl.splits if_splits)
next
  case (A_weak_drop p)
  obtain g1 c where s: "weak_drop_step g p = (g1, c)" by fastforce
  have "arc_frees g = 0" "p = WD_sub \<longrightarrow> ref_count g \<noteq> 0"
    using pre A_weak_drop by (cases p; simp add: arc_pre_def)+
  from weak_drop_move [OF s this, of "arc_role (A_weak_drop p)" R_weak]
  have "arc_move (arc_abs g) (arc_role (A_weak_drop p)) (arc_abs g1) (if c = Next WD_free then R_free else R_none)"
    and "c \<noteq> Panic" "c \<noteq> Next WD_sub" by (cases p; auto)+
  then show ?thesis using step A_weak_drop s
    by (cases c) (auto simp: arc_prog_def split: if_splits, metis (full_types) arc_role.simps(17) weak_drop_pc.exhaust)
next
  case A_dead
  with step show ?thesis by (simp add: arc_prog_def split: if_splits)
qed

section \<open>The protocol keeps the counts exact\<close>

text \<open>
  The life of an allocation: shared while there is an \<open>Arc\<close>, ending while only the data or
  weak references are left, and dead.  \<open>f\<close> counts the threads in each role.
\<close>

definition arc_locked :: "(role \<Rightarrow> nat) \<Rightarrow> nat" where
  "arc_locked f = f R_lock + f R_lock_unique + f R_moved"

definition arc_shared :: "arc_abs \<Rightarrow> (role \<Rightarrow> nat) \<Rightarrow> bool" where
  "arc_shared a f \<longleftrightarrow>
     ab_strong a = ab_arcs a + f R_hold + f R_unique + arc_locked f + f R_over \<and>
     ab_strong a \<le> 2 ^ 63 + f R_over \<and> ab_weaks a + f R_weak < 2 ^ 63 \<and>
     f R_data = 0 \<and> f R_last = 0 \<and> f R_free = 0 \<and> ab_drops a = 0 \<and> ab_moves a = f R_moved \<and>
     (arc_locked f = 0 \<and> ab_ref a = ab_weaks a + f R_weak + 1 \<or>
      arc_locked f = 1 \<and> ab_ref a = 18446744073709551615 \<and> ab_weaks a = 0 \<and> f R_weak = 0) \<and>
     (f R_lock_unique = 0 \<and> f R_unique = 0 \<and> f R_moved = 0 \<or>
      ab_strong a = 1 \<and> ab_weaks a = 0 \<and> f R_weak = 0)"

definition arc_ending :: "arc_abs \<Rightarrow> (role \<Rightarrow> nat) \<Rightarrow> bool" where
  "arc_ending a f \<longleftrightarrow>
     ab_arcs a = 0 \<and> f R_hold = 0 \<and> f R_unique = 0 \<and> arc_locked f = 0 \<and> f R_over = 0 \<and>
     ab_ref a = ab_weaks a + f R_weak + f R_data + f R_last \<and> ab_ref a \<le> 2 ^ 63 \<and>
     f R_data + f R_last \<le> 1 \<and> f R_free = (if ab_ref a = 0 then 1 else 0) \<and>
     ab_moves a = 0 \<and> ab_drops a + f R_data = 1"

definition arc_dead :: "arc_abs \<Rightarrow> (role \<Rightarrow> nat) \<Rightarrow> bool" where
  "arc_dead a f \<longleftrightarrow>
     ab_frees a = 1 \<and> ab_arcs a = 0 \<and> ab_weaks a = 0 \<and> (\<forall>r. r \<noteq> R_none \<longrightarrow> f r = 0) \<and>
     ab_drops a + ab_moves a = 1"

definition arc_counts_ok :: "arc_abs \<Rightarrow> (role \<Rightarrow> nat) \<Rightarrow> bool" where
  "arc_counts_ok a f \<longleftrightarrow>
     ab_uses a = f R_use + f R_over \<and> (0 < ab_uses a \<longrightarrow> 0 < ab_arcs a) \<and>
     ab_weak_uses a = f R_weak_use \<and> (0 < ab_weak_uses a \<longrightarrow> 0 < ab_weaks a) \<and> \<not> ab_bad a \<and>
     (if 0 < ab_frees a then arc_dead a f
      else if 0 < ab_strong a then arc_shared a f else arc_ending a f)"

definition add_role :: "role \<Rightarrow> (role \<Rightarrow> nat) \<Rightarrow> role \<Rightarrow> nat" where
  "add_role r f = f(r := Suc (f r))"

lemma add_role_simps: "add_role r f r' = (if r' = r then Suc (f r') else f r')"
  by (simp add: add_role_def)

lemmas arc_inv_defs = arc_counts_ok_def arc_shared_def arc_ending_def arc_locked_def add_role_simps


lemma all_role:
  "(\<forall>r. P r) \<longleftrightarrow> P R_none \<and> P R_use \<and> P R_over \<and> P R_weak_use \<and> P R_hold \<and> P R_lock \<and> P R_lock_unique \<and>
    P R_unique \<and> P R_moved \<and> P R_data \<and> P R_last \<and> P R_weak \<and> P R_free"
proof -
  have "P r" if "P R_none \<and> P R_use \<and> P R_over \<and> P R_weak_use \<and> P R_hold \<and> P R_lock \<and> P R_lock_unique \<and>
    P R_unique \<and> P R_moved \<and> P R_data \<and> P R_last \<and> P R_weak \<and> P R_free" for r
    using that by (cases r) simp_all
  then show ?thesis by blast
qed

lemma weak_use_weaks: "arc_counts_ok a f \<Longrightarrow> 0 < f R_weak_use \<Longrightarrow> 0 < ab_weaks a"
  by (simp add: arc_counts_ok_def)

lemma no_arcs_no_use: "arc_counts_ok a f \<Longrightarrow> ab_arcs a = 0 \<Longrightarrow> f R_use = 0 \<and> f R_over = 0"
  by (simp add: arc_counts_ok_def)

lemma no_weaks_no_use: "arc_counts_ok a f \<Longrightarrow> ab_weaks a = 0 \<Longrightarrow> f R_weak_use = 0"
  by (simp add: arc_counts_ok_def)

lemma use_arcs: "arc_counts_ok a f \<Longrightarrow> 0 < f R_use \<Longrightarrow> 0 < ab_arcs a"
  by (simp add: arc_counts_ok_def)

lemma arcs_not_unique:
  "arc_counts_ok a f \<Longrightarrow> 0 < ab_arcs a \<Longrightarrow> ab_frees a = 0 \<Longrightarrow>
    0 < ab_strong a \<and> f R_lock_unique = 0 \<and> f R_unique = 0 \<and> f R_moved = 0"
  by (cases "ab_strong a = 0") (auto simp: arc_inv_defs)

lemma counts_clone:
  "ab_strong a < 2 ^ 63 \<Longrightarrow> ab_frees a = 0 \<Longrightarrow> arc_counts_ok a (add_role R_use f) \<Longrightarrow>
    arc_counts_ok (a\<lparr>ab_strong := ab_strong a + 1, ab_arcs := ab_arcs a + 1, ab_uses := ab_uses a - 1\<rparr>) (add_role R_none f)"
  by (frule use_arcs, simp add: add_role_simps, frule (2) arcs_not_unique)
    (simp add: arc_inv_defs, linarith?)

lemma counts_overflow:
  "ab_frees a = 0 \<Longrightarrow> arc_counts_ok a (add_role R_use f) \<Longrightarrow>
    arc_counts_ok (a\<lparr>ab_strong := ab_strong a + 1\<rparr>) (add_role R_over f)"
  by (frule use_arcs, simp add: add_role_simps, frule (2) arcs_not_unique)
    (simp add: arc_inv_defs, linarith?)

lemma counts_share:
  "0 < ab_arcs a \<Longrightarrow> ab_frees a = 0 \<Longrightarrow> arc_counts_ok a (add_role R_none f) \<Longrightarrow>
    arc_counts_ok (a\<lparr>ab_uses := ab_uses a + 1\<rparr>) (add_role R_use f)"
  by (auto simp: arc_inv_defs arc_dead_def split: if_splits)

lemma counts_unshare:
  "ab_frees a = 0 \<Longrightarrow> arc_counts_ok a (add_role R_use f) \<Longrightarrow>
    arc_counts_ok (a\<lparr>ab_uses := ab_uses a - 1\<rparr>) (add_role R_none f)"
  by (auto simp: arc_inv_defs arc_dead_def split: if_splits)

lemma counts_downgrade:
  "ab_ref a < 2 ^ 63 \<Longrightarrow> ab_frees a = 0 \<Longrightarrow> arc_counts_ok a (add_role R_use f) \<Longrightarrow>
    arc_counts_ok (a\<lparr>ab_ref := ab_ref a + 1, ab_weaks := ab_weaks a + 1, ab_uses := ab_uses a - 1\<rparr>) (add_role R_none f)"
  by (auto simp: arc_inv_defs arc_dead_def split: if_splits)

lemma counts_take_arc:
  "1 < ab_arcs a \<or> ab_arcs a = 1 \<and> ab_uses a = 0 \<Longrightarrow> ab_frees a = 0 \<Longrightarrow>
    arc_counts_ok a (add_role R_none f) \<Longrightarrow>
    arc_counts_ok (a\<lparr>ab_arcs := ab_arcs a - 1\<rparr>) (add_role R_hold f)"
  by (cases "ab_strong a = 0"; cases "ab_arcs a") (simp_all add: arc_inv_defs, linarith?)

lemma counts_give_back:
  "r = R_hold \<or> r = R_unique \<Longrightarrow> ab_frees a = 0 \<Longrightarrow> arc_counts_ok a (add_role r f) \<Longrightarrow>
    arc_counts_ok (a\<lparr>ab_arcs := ab_arcs a + 1\<rparr>) (add_role R_none f)"
  by (auto simp: arc_inv_defs arc_dead_def split: if_splits)

lemma counts_weak_share:
  "0 < ab_weaks a \<Longrightarrow> ab_frees a = 0 \<Longrightarrow> arc_counts_ok a (add_role R_none f) \<Longrightarrow>
    arc_counts_ok (a\<lparr>ab_weak_uses := ab_weak_uses a + 1\<rparr>) (add_role R_weak_use f)"
  by (auto simp: arc_inv_defs arc_dead_def split: if_splits)

lemma counts_weak_unshare:
  "ab_frees a = 0 \<Longrightarrow> arc_counts_ok a (add_role R_weak_use f) \<Longrightarrow>
    arc_counts_ok (a\<lparr>ab_weak_uses := ab_weak_uses a - 1\<rparr>) (add_role R_none f)"
  by (frule weak_use_weaks, simp add: add_role_simps)
    (cases "ab_strong a = 0"; simp add: arc_inv_defs; auto)

lemma counts_upgrade:
  "0 < ab_strong a \<Longrightarrow> ab_strong a < 2 ^ 63 \<Longrightarrow> ab_frees a = 0 \<Longrightarrow>
    arc_counts_ok a (add_role R_weak_use f) \<Longrightarrow>
    arc_counts_ok (a\<lparr>ab_strong := ab_strong a + 1, ab_arcs := ab_arcs a + 1, ab_weak_uses := ab_weak_uses a - 1\<rparr>) (add_role R_none f)"
  by (frule weak_use_weaks, simp add: add_role_simps) (simp add: arc_inv_defs)

lemma counts_take_weak:
  "1 < ab_weaks a \<or> ab_weaks a = 1 \<and> ab_weak_uses a = 0 \<Longrightarrow> ab_frees a = 0 \<Longrightarrow>
    arc_counts_ok a (add_role R_none f) \<Longrightarrow>
    arc_counts_ok (a\<lparr>ab_weaks := ab_weaks a - 1\<rparr>) (add_role R_weak f)"
  using no_weaks_no_use [of a "add_role R_none f"]
  by (cases "ab_strong a = 0"; cases "ab_weaks a") (simp_all add: arc_inv_defs, (linarith | blast)+)

lemma counts_lock:
  "ab_ref a = 1 \<Longrightarrow> ab_frees a = 0 \<Longrightarrow> arc_counts_ok a (add_role R_hold f) \<Longrightarrow>
    arc_counts_ok (a\<lparr>ab_ref := 18446744073709551615\<rparr>) (add_role R_lock f)"
  by (auto simp: arc_inv_defs arc_dead_def split: if_splits)

lemma counts_find_unique:
  "ab_strong a = 1 \<Longrightarrow> ab_frees a = 0 \<Longrightarrow> arc_counts_ok a (add_role R_lock f) \<Longrightarrow>
    arc_counts_ok a (add_role R_lock_unique f)"
  by (auto simp: arc_inv_defs arc_dead_def split: if_splits)

lemma counts_unlock:
  "r = R_lock \<and> r' = R_hold \<or> r = R_lock_unique \<and> r' = R_unique \<Longrightarrow> ab_frees a = 0 \<Longrightarrow>
    arc_counts_ok a (add_role r f) \<Longrightarrow> arc_counts_ok (a\<lparr>ab_ref := 1\<rparr>) (add_role r' f)"
  by (auto simp: arc_inv_defs arc_dead_def split: if_splits)

lemma counts_move:
  "ab_frees a = 0 \<Longrightarrow> arc_counts_ok a (add_role R_lock_unique f) \<Longrightarrow>
    arc_counts_ok (a\<lparr>ab_moves := ab_moves a + 1\<rparr>) (add_role R_moved f)"
  by (auto simp: arc_inv_defs arc_dead_def split: if_splits)

lemma counts_drop_arc:
  "r' = (if ab_strong a = 1 then R_data else R_none) \<Longrightarrow> ab_frees a = 0 \<Longrightarrow>
    arc_counts_ok a (add_role R_hold f) \<Longrightarrow>
    arc_counts_ok (a\<lparr>ab_strong := ab_strong a - 1\<rparr>) (add_role r' f)"
  by (cases "ab_strong a = 1") (auto simp: arc_inv_defs split: if_splits)

lemma counts_drop_data:
  "ab_frees a = 0 \<Longrightarrow> arc_counts_ok a (add_role R_data f) \<Longrightarrow>
    arc_counts_ok (a\<lparr>ab_drops := ab_drops a + 1\<rparr>) (add_role R_last f)"
  by (auto simp: arc_inv_defs arc_dead_def split: if_splits)

lemma counts_drop_weak:
  "r = R_weak \<or> r = R_last \<Longrightarrow> r' = (if ab_ref a = 1 then R_free else R_none) \<Longrightarrow> ab_frees a = 0 \<Longrightarrow>
    arc_counts_ok a (add_role r f) \<Longrightarrow> arc_counts_ok (a\<lparr>ab_ref := ab_ref a - 1\<rparr>) (add_role r' f)"
  by (auto simp: arc_inv_defs arc_dead_def split: if_splits)

lemma counts_free:
  "r = R_free \<or> r = R_moved \<Longrightarrow> ab_frees a = 0 \<Longrightarrow> arc_counts_ok a (add_role r f) \<Longrightarrow>
    arc_counts_ok (a\<lparr>ab_frees := ab_frees a + 1\<rparr>) (add_role R_none f)"
  by (auto simp: arc_inv_defs arc_dead_def all_role split: if_splits)

lemma counts_unlock_give_back:
  "ab_frees a = 0 \<Longrightarrow> arc_counts_ok a (add_role R_lock f) \<Longrightarrow>
    arc_counts_ok (a\<lparr>ab_ref := 1, ab_arcs := ab_arcs a + 1\<rparr>) (add_role R_none f)"
  by (auto simp: arc_inv_defs arc_dead_def split: if_splits)

lemmas arc_counts_move = counts_clone counts_overflow counts_share counts_unshare counts_downgrade
  counts_take_arc counts_give_back counts_weak_share counts_weak_unshare counts_upgrade
  counts_take_weak counts_lock counts_find_unique counts_unlock counts_move
  counts_drop_arc counts_drop_data counts_drop_weak counts_free counts_unlock_give_back

lemma arc_move_counts:
  assumes "arc_move a r a' r'" and "arc_counts_ok a (add_role r f)"
  shows "arc_counts_ok a' (add_role r' f)"
proof (cases "ab_frees a = 0")
  case False
  with assms(2) have dead: "arc_dead a (add_role r f)" by (simp add: arc_counts_ok_def)
  then have "r = R_none" and "ab_arcs a = 0" and "ab_weaks a = 0"
    by (auto simp: arc_dead_def add_role_simps)
  with assms show ?thesis by cases auto
next
  case True
  from assms(1) show ?thesis
  proof cases
    case free
    with counts_free True assms(2) show ?thesis by blast
  qed (use assms(2) True in \<open>simp_all only: arc_counts_move\<close>)
qed

section \<open>The invariant\<close>

definition arc_roles :: "'a arc_thread list \<Rightarrow> role \<Rightarrow> nat" where
  "arc_roles ls r = cnt (\<lambda>l. arc_role (arc_pc l) = r) ls"

lemma arc_roles_update:
  assumes "t < length ls"
  obtains f where "arc_roles ls = add_role (arc_role (arc_pc (ls ! t))) f"
    and "\<And>l. arc_roles (ls[t := l]) = add_role (arc_role (arc_pc l)) f"
proof
  let ?f = "\<lambda>r. cnt (\<lambda>l. arc_role (arc_pc l) = r) ls - (if arc_role (arc_pc (ls ! t)) = r then 1 else 0)"
  have pos: "0 < cnt (\<lambda>l. arc_role (arc_pc l) = arc_role (arc_pc (ls ! t))) ls"
    using cnt_pos [OF assms] by fast
  then show "arc_roles ls = add_role (arc_role (arc_pc (ls ! t))) ?f"
    by (auto simp: arc_roles_def add_role_simps)
  show "arc_roles (ls[t := l]) = add_role (arc_role (arc_pc l)) ?f" for l
  proof
    fix r
    show "arc_roles (ls[t := l]) r = add_role (arc_role (arc_pc l)) ?f r"
      using cnt_update [OF assms, of "\<lambda>l. arc_role (arc_pc l) = r" l] pos
      by (auto simp: arc_roles_def add_role_simps split: if_splits)
  qed
qed

definition arc_inv :: "('a arc_inner, 'a arc_thread) sys \<Rightarrow> bool" where
  "arc_inv s \<longleftrightarrow> length (locs s) < 2 ^ 32 \<and> arc_counts_ok (arc_abs (glob s)) (arc_roles (locs s))"

lemma arc_counts_pre:
  assumes "arc_counts_ok (arc_abs g) f" and "0 < f r" and "f R_over < 2 ^ 32"
  shows "arc_pre g r"
proof (cases "arc_frees g = 0")
  case False
  with assms have "r = R_none" "arcs g = 0"
    by (auto simp: arc_counts_ok_def arc_dead_def arc_abs_def)
  then show ?thesis by (simp add: arc_pre_def)
next
  case True
  with assms show ?thesis
    by (cases r) (auto simp: arc_pre_def arc_inv_defs arc_abs_def unat_gt_0 unat_eq_0 split: if_splits)
qed

lemma arc_step_move:
  assumes "arc_inv \<lparr>glob = g, locs = ls\<rparr>" and t: "t < length ls"
    and step: "arc_prog e t g (ls ! t) = Some (g', l')"
  shows "arc_move (arc_abs g) (arc_role (arc_pc (ls ! t))) (arc_abs g') (arc_role (arc_pc l'))"
proof (rule arc_prog_move [OF step], rule arc_counts_pre)
  show "arc_counts_ok (arc_abs g) (arc_roles ls)" using assms(1) by (simp add: arc_inv_def)
  show "0 < arc_roles ls (arc_role (arc_pc (ls ! t)))"
    unfolding arc_roles_def using t by (rule cnt_pos) simp
  have "length ls < 2 ^ 32" using assms(1) by (simp add: arc_inv_def)
  then show "arc_roles ls R_over < 2 ^ 32"
    using cnt_le_length by (metis arc_roles_def le_less_trans)
qed

lemma arc_inv_step:
  assumes "arc_inv \<lparr>glob = g, locs = ls\<rparr>" and t: "t < length ls"
    and step: "arc_prog e t g (ls ! t) = Some (g', l')"
  shows "arc_inv \<lparr>glob = g', locs = ls[t := l']\<rparr>"
proof -
  obtain f where f: "arc_roles ls = add_role (arc_role (arc_pc (ls ! t))) f"
    and f': "arc_roles (ls[t := l']) = add_role (arc_role (arc_pc l')) f"
    using arc_roles_update [OF t] by metis
  with assms(1) show ?thesis
    using arc_move_counts [OF arc_step_move [OF assms]] by (simp add: arc_inv_def)
qed

lemma arc_inv_init: "arc_start s \<Longrightarrow> arc_inv s"
  by (auto simp: arc_start_def arc_inv_def arc_counts_ok_def arc_shared_def arc_abs_def arc_new_def
    arc_roles_def arc_locked_def cnt_replicate arc_idle_def)

interpretation arc: invariant_system arc_prog arc_start arc_inv
  by unfold_locales (fact arc_inv_init, fact arc_inv_step)

section \<open>Exclusive access through \<open>get_mut\<close>\<close>

definition arc_has_mut :: "'a arc_thread \<Rightarrow> bool" where
  "arc_has_mut l \<longleftrightarrow> arc_pc l = A_mut"

lemma drop_role_owns: "drop_role p \<noteq> R_unique \<and> drop_role p \<noteq> R_none"
  by (cases p rule: drop_role.cases) simp_all

lemma arc_role_unique: "arc_role (arc_pc l) = R_unique \<longleftrightarrow> arc_has_mut l"
  by (cases "arc_pc l" rule: arc_role.cases) (auto simp: arc_has_mut_def drop_role_owns)

lemma arc_roles_unique: "arc_roles ls R_unique = cnt arc_has_mut ls"
  by (simp add: arc_roles_def arc_role_unique)

lemma arc_roles_pos: "t < length ls \<Longrightarrow> 0 < arc_roles ls (arc_role (arc_pc (ls ! t)))"
  unfolding arc_roles_def by (rule cnt_pos) simp_all

lemma arc_reachable_counts:
  "reachable arc_prog arc_start s \<Longrightarrow> arc_counts_ok (arc_abs (glob s)) (arc_roles (locs s))"
  using arc.reachable_inv by (auto simp: arc_inv_def)

text \<open>What the invariant says when there is a sole user.\<close>

lemma arc_unique_counts:
  assumes "arc_counts_ok a f" and "0 < f R_unique"
  shows "ab_frees a = 0 \<and> ab_arcs a = 0 \<and> ab_weaks a = 0 \<and> ab_strong a = 1 \<and> ab_ref a = 1 \<and>
    ab_drops a = 0 \<and> ab_moves a = 0 \<and> f R_unique = 1 \<and> (\<forall>r. r \<noteq> R_none \<longrightarrow> r \<noteq> R_unique \<longrightarrow> f r = 0)"
  using assms by (auto simp: arc_inv_defs arc_dead_def all_role split: if_splits)

lemma arc_exclusive:
  assumes "reachable arc_prog arc_start s"
  shows "cnt arc_has_mut (locs s) \<le> 1"
  using arc_unique_counts [OF arc_reachable_counts [OF assms]] by (fastforce simp: arc_roles_unique)

text \<open>No function of the library changes the data.\<close>

lemma arc_touch_data [simp]: "arc_data (touch g) = arc_data g" "arc_data (touch_data g) = arc_data g"
  by (simp_all add: touch_def touch_data_def)

lemma arc_clone_data: "arc_clone_step g p = (g', c) \<Longrightarrow> arc_data g' = arc_data g"
  by (cases p) (auto split: if_splits)

lemma arc_downgrade_data: "arc_downgrade_step g p = (g', c) \<Longrightarrow> arc_data g' = arc_data g"
  by (cases p) (auto split: if_splits)

lemma arc_get_mut_data: "arc_get_mut_step g p = (g', c) \<Longrightarrow> arc_data g' = arc_data g"
  by (cases p) (auto split: if_splits)

lemma weak_upgrade_data: "weak_upgrade_step g p = (g', c) \<Longrightarrow> arc_data g' = arc_data g"
  by (cases p) (auto split: if_splits)

lemma weak_drop_data: "weak_drop_step g p = (g', c) \<Longrightarrow> arc_data g' = arc_data g"
  by (cases p) (auto simp: arc_free_def split: if_splits)

lemma arc_drop_data: "arc_drop_step g p = (g', c) \<Longrightarrow> arc_data g' = arc_data g"
  by (cases p) (auto split: prod.splits ctl.splits dest: weak_drop_data)

lemma arc_into_inner_data: "arc_into_inner_step g p = (g', c) \<Longrightarrow> arc_data g' = arc_data g"
  by (cases p) (auto simp: arc_free_def split: if_splits prod.splits ctl.splits dest: arc_drop_data)

lemmas arc_data_dests = arc_clone_data arc_downgrade_data arc_get_mut_data weak_upgrade_data
  weak_drop_data arc_drop_data arc_into_inner_data

lemma arc_data_by_holder:
  assumes "arc_prog e t g l = Some (g', l')" and "arc_data g' \<noteq> arc_data g"
  shows "arc_has_mut l \<and> arc_has_mut l'"
proof (cases "arc_pc l = A_mut")
  case True
  with assms show ?thesis
    by (cases "call e") (auto simp: arc_prog_def arc_has_mut_def arc_give_back_def split: if_splits)
next
  case False
  have "arc_data g' = arc_data g"
  proof (cases "arc_pc l")
    case A_idle
    with assms(1) show ?thesis
      by (cases "call e") (auto simp: arc_prog_def arc_share_def arc_take_def split: if_splits)
  qed (use assms(1) False in
    \<open>auto simp: arc_prog_def arc_deref_def arc_unshare_def weak_unshare_def arc_give_back_def
      split: if_splits prod.splits ctl.splits bool.splits dest: arc_data_dests\<close>)
  with assms(2) show ?thesis by simp
qed

interpretation arc_mut: exclusive_lock arc_prog arc_start arc_has_mut arc_data
  by unfold_locales (fact arc_exclusive, fact arc_data_by_holder)

section \<open>Operations that never wait\<close>

text \<open>All operations but the retry loops of \<open>downgrade\<close> and \<open>upgrade\<close>.\<close>

fun weak_drop_left :: "weak_drop_pc \<Rightarrow> nat" where
  "weak_drop_left WD_sub = 2"
| "weak_drop_left WD_free = 1"

fun arc_drop_left :: "arc_drop_pc \<Rightarrow> nat" where
  "arc_drop_left AD_sub = 4"
| "arc_drop_left AD_data = 3"
| "arc_drop_left (AD_weak p) = weak_drop_left p"

lemma weak_drop_left_bounds [simp]: "0 < weak_drop_left p" "weak_drop_left p \<le> 2"
  by (cases p, simp_all)+

lemma arc_drop_left_bounds [simp]: "0 < arc_drop_left p" "arc_drop_left p \<le> 4"
  by (cases p, simp_all add: order_trans [OF weak_drop_left_bounds(2)])+

fun arc_steps_left :: "'a arc_pc \<Rightarrow> nat" where
  "arc_steps_left (A_clone p) = (case p of CL_add \<Rightarrow> 2 | CL_abort \<Rightarrow> 1)"
| "arc_steps_left (A_get_mut p) = (case p of GM_cas \<Rightarrow> 3 | GM_load \<Rightarrow> 2 | GM_store _ \<Rightarrow> 1)"
| "arc_steps_left (A_into_inner p) =
     (case p of II_cas \<Rightarrow> 7 | II_load \<Rightarrow> 6 | II_restore \<Rightarrow> 5 | II_drop q \<Rightarrow> arc_drop_left q
      | II_read \<Rightarrow> 2 | II_free _ \<Rightarrow> 1)"
| "arc_steps_left (A_drop p) = arc_drop_left p"
| "arc_steps_left A_deref = 1"
| "arc_steps_left (A_weak_drop p) = weak_drop_left p"
| "arc_steps_left _ = 0"

text \<open>A thread that holds the reference of \<open>get_mut\<close> is back with its client as well.\<close>

definition arc_home :: "'a arc_thread \<Rightarrow> bool" where
  "arc_home l \<longleftrightarrow> arc_pc l \<in> {A_idle, A_mut, A_dead}"

lemma weak_drop_advances:
  "weak_drop_step g p = (g', c) \<Longrightarrow>
    c = Ret () \<or> (\<exists>p'. c = Next p' \<and> 0 < weak_drop_left p' \<and> weak_drop_left p' < weak_drop_left p)"
  by (cases p) (auto split: if_splits)

lemma arc_drop_advances:
  "arc_drop_step g p = (g', c) \<Longrightarrow>
    c = Ret () \<or> (\<exists>p'. c = Next p' \<and> 0 < arc_drop_left p' \<and> arc_drop_left p' < arc_drop_left p)"
  by (cases p) (auto split: prod.splits ctl.splits dest!: weak_drop_advances)

lemma arc_into_inner_advances:
  assumes "arc_into_inner_step g p = (g', c)"
  shows "(\<exists>r. c = Ret r) \<or> (\<exists>p'. c = Next p' \<and> 0 < arc_steps_left (A_into_inner p') \<and>
    arc_steps_left (A_into_inner p') < arc_steps_left (A_into_inner p))"
proof (cases p)
  case (II_drop q)
  with assms show ?thesis by (auto split: prod.splits ctl.splits dest!: arc_drop_advances)
qed (use assms in \<open>auto split: if_splits\<close>)

lemma arc_enabled:
  assumes "0 < arc_steps_left (arc_pc l)" and "\<not> arc_aborted g"
  shows "arc_prog e t g l \<noteq> None"
proof (cases "arc_pc l")
  case (A_get_mut p)
  with assms(2) show ?thesis by (cases p) (auto simp: arc_prog_def split: bool.split)
qed (use assms in \<open>auto simp: arc_prog_def split: prod.split ctl.split
  dest: weak_drop_advances arc_drop_advances arc_into_inner_advances\<close>)

lemma arc_advances:
  assumes "0 < arc_steps_left (arc_pc l)" and step: "arc_prog e t g l = Some (g', l')"
  shows "arc_aborted g' \<or> arc_home l' \<or>
    0 < arc_steps_left (arc_pc l') \<and> arc_steps_left (arc_pc l') < arc_steps_left (arc_pc l)"
proof (cases "arc_pc l")
  case (A_clone p)
  with step show ?thesis
    by (cases p) (auto simp: arc_prog_def arc_home_def arc_done_def split: if_splits)
next
  case (A_get_mut p)
  with step show ?thesis
    by (cases p) (auto simp: arc_prog_def arc_home_def arc_done_def split: if_splits bool.splits)
next
  case (A_into_inner p)
  with step arc_into_inner_advances [of g p] show ?thesis
    by (cases "arc_into_inner_step g p")
      (auto simp: arc_prog_def arc_home_def arc_done_def simp del: arc_steps_left.simps split: if_splits)
next
  case (A_drop p)
  with step arc_drop_advances [of g p] show ?thesis
    by (cases "arc_drop_step g p") (auto simp: arc_prog_def arc_home_def split: if_splits)
next
  case A_deref
  with step show ?thesis
    by (auto simp: arc_prog_def arc_home_def arc_done_def split: if_splits prod.splits)
next
  case (A_weak_drop p)
  with step weak_drop_advances [of g p] show ?thesis
    by (cases "weak_drop_step g p") (auto simp: arc_prog_def arc_home_def split: if_splits)
qed (use assms(1) in simp_all)

interpretation arc_free: wait_free arc_prog "\<lambda>l. arc_steps_left (arc_pc l)" arc_home arc_aborted
  by unfold_locales (use arc_enabled arc_advances in blast)+

section \<open>Properties\<close>

text \<open>The threads that own an \<open>Arc\<close> and those that own a weak reference, in any phase of a call.\<close>

definition arc_owners :: "'a arc_thread list \<Rightarrow> nat" where
  "arc_owners ls = sum_list (map (arc_roles ls) [R_hold, R_lock, R_lock_unique, R_unique, R_moved])"

definition weak_owners :: "'a arc_thread list \<Rightarrow> nat" where
  "weak_owners ls = sum_list (map (arc_roles ls) [R_weak, R_data, R_last])"

definition arc_overflowing :: "'a arc_thread \<Rightarrow> bool" where
  "arc_overflowing l \<longleftrightarrow> arc_pc l = A_clone CL_abort"

lemma drop_role_over: "drop_role p \<noteq> R_over \<and> drop_role p \<noteq> R_use \<and> drop_role p \<noteq> R_weak_use"
  by (cases p rule: drop_role.cases) simp_all

lemma arc_roles_over: "arc_roles ls R_over = cnt arc_overflowing ls"
proof -
  have "arc_role (arc_pc l) = R_over \<longleftrightarrow> arc_overflowing l" for l :: "'a arc_thread"
    by (cases "arc_pc l" rule: arc_role.cases) (auto simp: arc_overflowing_def drop_role_over)
  then show ?thesis by (simp add: arc_roles_def)
qed

lemma usize_max_iff: "unat c = 18446744073709551615 \<longleftrightarrow> c = USIZE_MAX"
  by (metis unat_USIZE_MAX word_unat_eq_iff)

lemma arc_gone_or_alive: "arc_counts_ok a f \<Longrightarrow> ab_arcs a = 0 \<or> ab_drops a = 0 \<and> ab_moves a = 0"
  by (auto simp: arc_inv_defs arc_dead_def split: if_splits)

lemma arc_gone_once: "arc_counts_ok a f \<Longrightarrow> ab_drops a + ab_moves a \<le> 1"
  by (auto simp: arc_inv_defs arc_dead_def split: if_splits)

lemma arc_move_mono: "arc_move a r a' r' \<Longrightarrow> ab_drops a \<le> ab_drops a' \<and> ab_moves a \<le> ab_moves a'"
  by (induction rule: arc_move.induct) simp_all

lemma arc_run_mono:
  "arc_inv s \<Longrightarrow> run arc_prog as s = Some s' \<Longrightarrow>
    arc_drops (glob s) \<le> arc_drops (glob s') \<and> arc_moves (glob s) \<le> arc_moves (glob s')"
proof (induction as arbitrary: s)
  case (Cons a as)
  from Cons.prems(2) obtain s1 where s1: "sys_step arc_prog a s = Some s1"
    and run: "run arc_prog as s1 = Some s'" by (auto split: option.splits)
  from s1 obtain g' l' where step: "fst a < length (locs s)"
      "arc_prog (snd a) (fst a) (glob s) (locs s ! fst a) = Some (g', l')"
    and "s1 = \<lparr>glob = g', locs = (locs s)[fst a := l']\<rparr>"
    by (rule sys_step_SomeE)
  moreover have "arc_inv \<lparr>glob = glob s, locs = locs s\<rparr>" using Cons.prems(1) by (cases s) simp
  ultimately have "arc_drops (glob s) \<le> arc_drops (glob s1) \<and> arc_moves (glob s) \<le> arc_moves (glob s1)"
    using arc_move_mono [OF arc_step_move] by (fastforce simp: arc_abs_def)
  moreover have "arc_inv s1" using arc.inv_sys_step [OF s1 Cons.prems(1)] .
  ultimately show ?case using Cons.IH [OF _ run] by fastforce
qed simp

text \<open>Without a handle a thread that is in no call has nothing to do.\<close>

lemma arc_no_handle_stuck:
  assumes "arcs g = 0" and "weaks g = 0" and "arc_role (arc_pc l) = R_none"
  shows "arc_prog e t g l = None"
proof (cases "arc_pc l")
  case A_idle
  with assms show ?thesis by (cases "call e") (simp_all add: arc_prog_def arc_take_def arc_share_def)
next
  case (A_clone p)
  with assms show ?thesis by (cases p) simp_all
next
  case (A_get_mut p)
  with assms show ?thesis by (cases p) (auto split: if_splits)
next
  case (A_into_inner p)
  with assms show ?thesis by (cases p) (auto simp: drop_role_owns)
next
  case (A_weak_drop p)
  with assms show ?thesis by (cases p) simp_all
qed (use assms in \<open>simp_all add: arc_prog_def drop_role_owns\<close>)

text \<open>
  C3: Whatever the threads do, the allocation is never touched after it was
  freed nor the data after it was dropped or moved out; it is freed at most once and the data is
  dropped or moved out at most once; and when it was freed there is no handle and no thread
  inside a call.\<close>

theorem arc_memory_safe:
  assumes "reachable arc_prog arc_start s"
  shows "\<not> arc_bad (glob s) \<and> arc_frees (glob s) \<le> 1 \<and> arc_drops (glob s) + arc_moves (glob s) \<le> 1 \<and>
    (arc_frees (glob s) = 1 \<longrightarrow> arcs (glob s) = 0 \<and> weaks (glob s) = 0 \<and>
      arc_drops (glob s) + arc_moves (glob s) = 1 \<and>
      (\<forall>t < length (locs s). arc_role (arc_pc (locs s ! t)) = R_none))"
proof -
  have "arc_role (arc_pc (locs s ! t)) = R_none"
    if "arc_dead (arc_abs (glob s)) (arc_roles (locs s))" "t < length (locs s)" for t
    using that arc_roles_pos [OF that(2)] by (auto simp: arc_dead_def)
  with arc_reachable_counts [OF assms] show ?thesis
    by (auto simp: arc_inv_defs arc_dead_def arc_abs_def split: if_splits)
qed

text \<open>
  C5: Until the allocation is freed, \<open>strong_count\<close> is the number of \<open>Arc\<close>s, in
  the hands of a call or not (and of clones about to abort), so it exceeds \<open>2 ^ 63\<close> by no more
  than those.  \<open>ref_count\<close> is either locked by a single thread while no \<open>Weak\<close> exists, or the
  number of \<open>Weak\<close>s and one for all \<open>Arc\<close>s together, at most \<open>2 ^ 63\<close>: neither count wraps.\<close>

theorem arc_counts_exact:
  assumes "reachable arc_prog arc_start s" and "arc_frees (glob s) = 0"
  shows "unat (strong_count (glob s)) =
      arcs (glob s) + arc_owners (locs s) + cnt arc_overflowing (locs s) \<and>
    unat (strong_count (glob s)) \<le> 2 ^ 63 + cnt arc_overflowing (locs s) \<and>
    (ref_count (glob s) = USIZE_MAX \<and> weaks (glob s) = 0 \<and> weak_owners (locs s) = 0 \<or>
     unat (ref_count (glob s)) =
       weaks (glob s) + weak_owners (locs s) + of_bool (0 < strong_count (glob s)) \<and>
     unat (ref_count (glob s)) \<le> 2 ^ 63)"
  using arc_reachable_counts [OF assms(1)] assms(2)
  by (cases "0 < strong_count (glob s)")
    (auto simp: arc_inv_defs arc_abs_def arc_owners_def weak_owners_def arc_roles_over usize_max_iff
      unat_gt_0 word_gt_0 split: if_splits)

text \<open>
  C18: When no handle is left and every call has returned, the allocation has been freed and
  the data dropped or moved out, each exactly once.\<close>

theorem arc_no_leak:
  assumes "reachable arc_prog arc_start s" and "arcs (glob s) = 0" and "weaks (glob s) = 0"
    and "\<forall>t < length (locs s). arc_pc (locs s ! t) = A_idle \<or> arc_pc (locs s ! t) = A_dead"
  shows "arc_frees (glob s) = 1 \<and> arc_drops (glob s) + arc_moves (glob s) = 1"
proof -
  have "arc_roles (locs s) r = 0" if "r \<noteq> R_none" for r
    using assms(4) that by (fastforce simp: arc_roles_def cnt_0_iff)
  with arc_reachable_counts [OF assms(1)] assms(2,3) show ?thesis
    by (auto simp: arc_inv_defs arc_dead_def arc_abs_def split: if_splits)
qed

text \<open>
  C19: While a thread uses the mutable reference that \<open>get_mut\<close> returned, its
  handle is the only one: there is no other \<open>Arc\<close> and no \<open>Weak\<close>, no other thread is inside any
  call or can take a step, the counts are 1 and unlocked, and the data is alive.\<close>

theorem arc_get_mut_exclusive:
  assumes "reachable arc_prog arc_start s" and "t < length (locs s)"
    and "arc_pc (locs s ! t) = A_mut"
  shows "arcs (glob s) = 0 \<and> weaks (glob s) = 0 \<and> strong_count (glob s) = 1 \<and> ref_count (glob s) = 1 \<and>
    arc_frees (glob s) = 0 \<and> arc_drops (glob s) = 0 \<and> arc_moves (glob s) = 0 \<and>
    (\<forall>u < length (locs s). u \<noteq> t \<longrightarrow>
      arc_role (arc_pc (locs s ! u)) = R_none \<and> (\<forall>e. sys_step arc_prog (u, e) s = None))"
proof -
  have "arc_has_mut (locs s ! t)" using assms(3) by (simp add: arc_has_mut_def)
  with arc_roles_pos [OF assms(2)] have pos: "0 < arc_roles (locs s) R_unique"
    by (simp add: arc_role_unique [symmetric])
  note sole = arc_unique_counts [OF arc_reachable_counts [OF assms(1)] pos]
  have "arc_role (arc_pc (locs s ! u)) = R_none" if "u < length (locs s)" "u \<noteq> t" for u
    using sole arc_roles_pos [OF that(1)] that
      arc_mut.holders_equal [OF assms(1) that(1) assms(2) _ \<open>arc_has_mut (locs s ! t)\<close>]
    by (metis arc_role_unique less_irrefl)
  moreover from this sole have "sys_step arc_prog (u, e) s = None" if "u < length (locs s)" "u \<noteq> t" for u e
    using that by (simp add: sys_step_def arc_no_handle_stuck arc_abs_def)
  ultimately show ?thesis using sole by (simp add: arc_abs_def unat_count_eq_1)
qed

text \<open>
  \<open>upgrade\<close> returns an \<open>Arc\<close> only while the data is alive, and then the
  \<open>Arc\<close> counts: the step that returns it leaves data that was neither dropped nor moved out.\<close>

theorem arc_upgrade_sound:
  assumes "reachable arc_prog arc_start s" and "sys_step arc_prog (t, e) s = Some s'"
    and "arc_pc (locs s ! t) = A_upgrade p" and "arc_last (locs s' ! t) = Some (Upgraded True)"
    and "arc_pc (locs s' ! t) = A_idle"
  shows "arcs (glob s') = arcs (glob s) + 1 \<and> strong_count (glob s') = strong_count (glob s) + 1 \<and>
    0 < strong_count (glob s) \<and> arc_drops (glob s') = 0 \<and> arc_moves (glob s') = 0"
proof -
  from assms(2) obtain g' l' where step: "arc_prog e t (glob s) (locs s ! t) = Some (g', l')"
    and s': "s' = \<lparr>glob = g', locs = (locs s)[t := l']\<rparr>" and t: "t < length (locs s)"
    by (auto elim: sys_step_SomeE)
  obtain g1 c where c: "weak_upgrade_step (glob s) p = (g1, c)" by fastforce
  with step assms(3-5) s' t have "c = Ret True" and "g' = weak_unshare g1"
    by (auto simp: arc_prog_def arc_done_def split: if_splits ctl.splits)
  with c have new: "arcs g' = arcs (glob s) + 1" "strong_count g' = strong_count (glob s) + 1"
      "0 < strong_count (glob s)"
    by (cases p; auto simp: weak_unshare_def word_gt_0 split: if_splits)+
  have "reachable arc_prog arc_start s'" using assms(1,2) by (rule reachable_step)
  from arc_gone_or_alive [OF arc_reachable_counts [OF this]] new s' show ?thesis
    by (auto simp: arc_abs_def)
qed

text \<open>
  C34: Once the data was dropped or moved out no \<open>Arc\<close> is ever usable again,
  however many \<open>Weak\<close>s remain and are upgraded.\<close>

theorem arc_data_stays_gone:
  assumes "reachable arc_prog arc_start s" and "0 < arc_drops (glob s) + arc_moves (glob s)"
    and "run arc_prog as s = Some s'"
  shows "arcs (glob s') = 0 \<and> arc_drops (glob s') = arc_drops (glob s) \<and> arc_moves (glob s') = arc_moves (glob s)"
proof -
  have "reachable arc_prog arc_start s'" using assms(1,3) by (rule run_reachable)
  note ok = arc_reachable_counts [OF this]
  have "arc_drops (glob s) \<le> arc_drops (glob s') \<and> arc_moves (glob s) \<le> arc_moves (glob s')"
    using arc_run_mono [OF _ assms(3)] arc.reachable_inv [OF assms(1)] by simp
  moreover have "arc_drops (glob s') + arc_moves (glob s') \<le> 1"
    using arc_gone_once [OF ok] by (simp add: arc_abs_def)
  moreover have "arcs (glob s') = 0 \<or> arc_drops (glob s') = 0 \<and> arc_moves (glob s') = 0"
    using arc_gone_or_alive [OF ok] by (simp add: arc_abs_def)
  ultimately show ?thesis using assms(2) by linarith
qed

text \<open>
  C35: When a thread calls \<open>into_inner\<close> on the last handle and no call is in
  progress, it gets back the data, which is not dropped, and the allocation is freed.\<close>

theorem arc_into_inner_roundtrip:
  assumes "reachable arc_prog arc_start s" and "t < length (locs s)" and "\<not> arc_aborted (glob s)"
    and "\<forall>u < length (locs s). arc_pc (locs s ! u) = A_idle"
    and "arcs (glob s) = 1" and "weaks (glob s) = 0"
  shows "run arc_prog (replicate 5 (t, quiet Arc_op_into_inner)) s =
    Some \<lparr>glob = (glob s)\<lparr>ref_count := USIZE_MAX, arcs := 0, arc_moves := 1, arc_frees := 1\<rparr>,
      locs = (locs s)[t := arc_done (Into_inner (Some (arc_data (glob s))))]\<rparr>"
proof -
  have "arc_roles (locs s) r = 0" if "r \<noteq> R_none" for r
    using assms(4) that by (auto simp: arc_roles_def cnt_0_iff)
  with arc_reachable_counts [OF assms(1)] assms(5,6)
  have "unat (strong_count (glob s)) = 1" "unat (ref_count (glob s)) = 1"
    and quiet: "arc_uses (glob s) = 0" "arc_frees (glob s) = 0" "arc_drops (glob s) = 0"
      "arc_moves (glob s) = 0" "\<not> arc_bad (glob s)"
    by (auto simp: arc_inv_defs arc_dead_def arc_abs_def split: if_splits)
  then have "strong_count (glob s) = 1" "ref_count (glob s) = 1"
    by (simp_all add: unat_count_eq_1)
  moreover obtain r where "locs s ! t = \<lparr>arc_pc = A_idle, arc_last = r\<rparr>"
    using assms(2,4) by (cases "locs s ! t") auto
  ultimately show ?thesis
    using quiet assms(2,3,5,6) by (simp add: sys_step_def arc_eval replicate_numeral)
qed

section \<open>Concrete runs\<close>

definition arc_duo :: "(nat arc_inner, nat arc_thread) sys" where
  "arc_duo = \<lparr>glob = arc_new 5, locs = [arc_idle, arc_idle]\<rparr>"

lemma arc_duo_reachable: "reachable arc_prog arc_start arc_duo"
proof (rule reachable_init)
  have "[arc_idle, arc_idle] = (replicate 2 arc_idle :: nat arc_thread list)"
    by (simp add: replicate_numeral)
  then show "arc_start arc_duo" unfolding arc_start_def arc_duo_def
    by (intro exI [of _ 2] exI [of _ 5]) simp
qed

lemmas arc_run_eval = sys_step_def arc_eval arc_new_def arc_idle_def arc_duo_def MAX_REF_COUNT_eq
  replicate_numeral

text \<open>The only handle is dropped.\<close>

definition arc_freed :: "(nat arc_inner, nat arc_thread) sys" where
  "arc_freed = \<lparr>glob = (arc_new 5)\<lparr>strong_count := 0, ref_count := 0, arcs := 0, arc_drops := 1,
     arc_frees := 1\<rparr>, locs = [arc_idle, arc_idle]\<rparr>"

lemma arc_freed_reachable: "reachable arc_prog arc_start arc_freed"
  by (rule run_reachable [OF arc_duo_reachable, where as = "replicate 5 (0, quiet Arc_op_drop)"])
    (simp add: arc_run_eval arc_freed_def)

text \<open>The first thread has the mutable reference.\<close>

definition arc_borrowed :: "(nat arc_inner, nat arc_thread) sys" where
  "arc_borrowed = \<lparr>glob = (arc_new 5)\<lparr>arcs := 0\<rparr>,
     locs = [\<lparr>arc_pc = A_mut, arc_last = Some (Got_mut True)\<rparr>, arc_idle]\<rparr>"

lemma arc_borrowed_reachable: "reachable arc_prog arc_start arc_borrowed"
  by (rule run_reachable [OF arc_duo_reachable, where as = "replicate 4 (0, quiet Arc_op_get_mut)"])
    (simp add: arc_run_eval arc_borrowed_def)

text \<open>There is a \<open>Weak\<close>, which the second thread has begun to upgrade; or the \<open>Arc\<close> is dropped.\<close>

definition arc_upgrading :: "(nat arc_inner, nat arc_thread) sys" where
  "arc_upgrading = \<lparr>glob = (arc_new 5)\<lparr>ref_count := 2, weaks := 1, weak_uses := 1\<rparr>,
     locs = [arc_done Downgraded, arc_idle\<lparr>arc_pc := A_upgrade (UP_top 1)\<rparr>]\<rparr>"

lemma arc_upgrading_reachable: "reachable arc_prog arc_start arc_upgrading"
  by (rule run_reachable [OF arc_duo_reachable, where as =
      "replicate 3 (0, quiet Arc_op_downgrade) @ replicate 2 (1, quiet Arc_op_upgrade)"])
    (simp add: arc_run_eval arc_upgrading_def)

definition arc_only_weak :: "(nat arc_inner, nat arc_thread) sys" where
  "arc_only_weak = \<lparr>glob = (arc_new 5)\<lparr>strong_count := 0, ref_count := 1, arcs := 0, weaks := 1,
     arc_drops := 1\<rparr>, locs = [arc_done Downgraded, arc_idle]\<rparr>"

lemma arc_only_weak_reachable: "reachable arc_prog arc_start arc_only_weak"
  by (rule run_reachable [OF arc_duo_reachable, where as =
      "replicate 3 (0, quiet Arc_op_downgrade) @ replicate 4 (0, quiet Arc_op_drop)"])
    (simp add: arc_run_eval arc_only_weak_def)

text \<open>Both threads have called \<open>into_inner\<close> at the same time.\<close>

definition arc_both_none :: "(nat arc_inner, nat arc_thread) sys" where
  "arc_both_none = \<lparr>glob = (arc_new 5)\<lparr>strong_count := 0, ref_count := 0, arcs := 0, arc_drops := 1,
     arc_frees := 1\<rparr>, locs = [arc_done (Into_inner None), arc_done (Into_inner None)]\<rparr>"

lemma arc_both_none_reachable: "reachable arc_prog arc_start arc_both_none"
  by (rule run_reachable [OF arc_duo_reachable, where as = "replicate 2 (0, quiet Arc_op_clone) @
      replicate 2 (0, quiet Arc_op_into_inner) @ replicate 2 (1, quiet Arc_op_into_inner) @
      replicate 2 (0, quiet Arc_op_into_inner) @ [(1, quiet Arc_op_into_inner)] @
      replicate 4 (0, quiet Arc_op_into_inner)"])
    (simp add: arc_run_eval arc_both_none_def)

text \<open>
  Two threads that call \<open>into_inner\<close> on the last two handles may both get
  \<open>None\<close>: the one that locked \<open>ref_count\<close> still counts two \<open>Arc\<close>s, the other finds it locked,
  and both drop their handles, so the data is dropped and returned to no one.\<close>

theorem arc_into_inner_both_none:
  "\<exists>s :: (nat arc_inner, nat arc_thread) sys. reachable arc_prog arc_start s \<and>
     map arc_last (locs s) = [Some (Into_inner None), Some (Into_inner None)] \<and>
     arc_frees (glob s) = 1 \<and> arc_drops (glob s) = 1 \<and> arc_moves (glob s) = 0"
  by (rule exI [of _ arc_both_none], intro conjI, rule arc_both_none_reachable)
    (simp_all add: arc_both_none_def arc_done_def arc_new_def)

text \<open>Concrete instances of the properties with hypotheses.\<close>

lemma arc_memory_safe_witness:
  "\<not> arc_bad (glob arc_freed) \<and> arc_frees (glob arc_freed) = 1 \<and> arc_drops (glob arc_freed) = 1"
  using arc_memory_safe [OF arc_freed_reachable] by (simp add: arc_freed_def)

lemma arc_counts_exact_witness:
  "unat (strong_count (glob arc_upgrading)) =
    arcs (glob arc_upgrading) + arc_owners (locs arc_upgrading) + cnt arc_overflowing (locs arc_upgrading)"
  using arc_counts_exact [OF arc_upgrading_reachable] by (simp add: arc_upgrading_def arc_new_def)

lemma arc_no_leak_witness:
  "arc_frees (glob arc_freed) = 1 \<and> arc_drops (glob arc_freed) + arc_moves (glob arc_freed) = 1"
  by (rule arc_no_leak [OF arc_freed_reachable])
    (auto simp: arc_freed_def arc_new_def arc_idle_def less_Suc_eq numeral_2_eq_2)

lemma arc_get_mut_exclusive_witness:
  "arcs (glob arc_borrowed) = 0 \<and> strong_count (glob arc_borrowed) = 1 \<and>
    sys_step arc_prog (1, quiet Arc_op_clone) arc_borrowed = None"
  using arc_get_mut_exclusive [OF arc_borrowed_reachable, of 0] by (simp add: arc_borrowed_def)

lemma arc_upgrade_sound_witness:
  "\<exists>s'. sys_step arc_prog (1, quiet Arc_op_upgrade) arc_upgrading = Some s' \<and> arcs (glob s') = 2"
proof -
  obtain s' where s': "sys_step arc_prog (1, quiet Arc_op_upgrade) arc_upgrading = Some s'"
    and "arc_last (locs s' ! 1) = Some (Upgraded True)" "arc_pc (locs s' ! 1) = A_idle"
    by (simp add: arc_upgrading_def arc_run_eval)
  with arc_upgrade_sound [OF arc_upgrading_reachable s', of "UP_top 1"] show ?thesis
    by (simp add: arc_upgrading_def arc_new_def)
qed

lemma arc_data_stays_gone_witness:
  "\<exists>s'. run arc_prog (replicate 3 (1, quiet Arc_op_upgrade)) arc_only_weak = Some s' \<and> arcs (glob s') = 0"
proof -
  obtain s' where s': "run arc_prog (replicate 3 (1, quiet Arc_op_upgrade)) arc_only_weak = Some s'"
    by (simp add: arc_only_weak_def arc_run_eval)
  with arc_data_stays_gone [OF arc_only_weak_reachable _ s'] show ?thesis
    by (simp add: arc_only_weak_def)
qed

lemma arc_into_inner_roundtrip_witness:
  "run arc_prog (replicate 5 (0, quiet Arc_op_into_inner)) arc_duo =
    Some \<lparr>glob = (arc_new 5)\<lparr>ref_count := USIZE_MAX, arcs := 0, arc_moves := 1, arc_frees := 1\<rparr>,
      locs = [arc_done (Into_inner (Some 5)), arc_idle]\<rparr>"
  using arc_into_inner_roundtrip [OF arc_duo_reachable, of 0]
  by (simp add: arc_duo_def arc_new_def arc_idle_def less_Suc_eq numeral_2_eq_2)

text \<open>
  C25: \<open>clone\<close>, \<open>get_mut\<close>, \<open>into_inner\<close>, \<open>deref\<close> and the drops of \<open>Arc\<close> and \<open>Weak\<close> are wait-free.
  Unless the process has aborted, a thread inside one of them is not blocked, and after at most
  seven of its own steps it is back with its client or has aborted the process, however the steps of other threads interleave.  (\<open>upgrade\<close> and
  \<open>downgrade\<close> retry their exchange and have no such bound.)\<close>

theorem arc_wait_free:
  assumes "t < length (locs s)" and "\<not> arc_aborted (glob s)"
    and "arc_pc (locs s ! t) \<in> range A_clone \<union> range A_get_mut \<union> range A_into_inner \<union> range A_drop \<union>
      range A_weak_drop \<union> {A_deref}"
  shows "returns_within arc_prog arc_home arc_aborted 7 t s"
proof (rule arc_free.returns [OF assms(1) _ assms(2)])
  have "weak_drop_left p \<le> 7" "arc_drop_left q \<le> 7" for p q
    using weak_drop_left_bounds(2) [of p] arc_drop_left_bounds(2) [of q] by linarith+
  then show "arc_steps_left (arc_pc (locs s ! t)) \<le> 7"
    using assms(3) by (auto split: arc_clone_pc.split arc_get_mut_pc.split arc_into_pc.split)
qed (use assms(3) in \<open>auto split: arc_clone_pc.split arc_get_mut_pc.split arc_into_pc.split\<close>)

lemma arc_wait_free_witness:
  "returns_within arc_prog arc_home arc_aborted 7 0
    (arc_duo\<lparr>locs := [arc_idle\<lparr>arc_pc := A_into_inner II_cas\<rparr>, arc_idle]\<rparr>)"
  by (rule arc_wait_free) (simp_all add: arc_duo_def arc_new_def)

end
