(* ===== verification/DataTests.thy ===== *)
theory DataTests
  imports Script Channel ArcModel
begin

text \<open>
  The sequential tests of the ring buffer, of the channel and of the pointer, as scripts that are
  run on the models.  Where a test starts threads and joins them, they run one after the other;
  thread 0 of a script is the thread of the test.  Handles that go out of scope at the end of a
  test are not dropped by its script, unless the test looks at what their drop does.
\<close>

section \<open>\<open>src/utils/ring_buffer.rs\<close>\<close>

text \<open>
  A test sees the results of \<open>push\<close> and \<open>pop\<close>; the second number is that of the elements that
  dropping the buffer would drop.\<close>

definition rb_sees :: "'a ring \<Rightarrow> 'a rb_thread \<Rightarrow> 'a rb_result option \<times> nat" where
  "rb_sees r l = (rb_last l, length (rb_drop r))"

definition rb_runs :: "nat \<Rightarrow> (nat \<times> 'a rb_op) list \<Rightarrow> ('a rb_result option \<times> nat) list option" where
  "rb_runs n script =
     (case rb_new n of
        None \<Rightarrow> None
      | Some r \<Rightarrow> run_script (rb_prog True) rb_home rb_sees script
          \<lparr>glob = r, locs = [rb_idle, rb_idle, rb_idle]\<rparr>)"

lemmas rb_script_eval = rb_run_eval rb_runs_def rb_home_def rb_sees_def rb_new_def rb_drop_def

text \<open>The messages are the numbers below 8; the buffer has 32 slots.\<close>

definition rb_test_mpsc_basic :: "(nat \<times> u32 rb_op) list" where
  "rb_test_mpsc_basic = map (\<lambda>i. (1, Rb_op_push i)) [0, 1, 2, 3, 4, 5, 6, 7] @ replicate 8 (2, Rb_op_pop)"

definition rb_test_drop_safety :: "(nat \<times> unit rb_op) list" where
  "rb_test_drop_safety = replicate 4 (0, Rb_op_push ())"

lemma rb_test_drop_safety_passes:
  "rb_runs 4 rb_test_drop_safety =
    Some (map (\<lambda>k. (Some (Push_result (Inr ())), k)) [1, 2, 3, 4])"
  by (simp add: rb_script_eval rb_test_drop_safety_def)

definition rb_test_try_push_full :: "(nat \<times> u32 rb_op) list" where
  "rb_test_try_push_full = map (\<lambda>i. (0, Rb_op_try_push i)) [1, 2, 3]"

lemma rb_test_try_push_full_passes:
  "rb_runs 2 rb_test_try_push_full = Some [(Some (Push_result (Inr ())), 1),
    (Some (Push_result (Inr ())), 2), (Some (Push_result (Inl 3)), 2)]"
  by (simp add: rb_script_eval rb_test_try_push_full_def)

definition rb_test_try_pop_empty :: "(nat \<times> u32 rb_op) list" where
  "rb_test_try_pop_empty = [(0, Rb_op_try_pop)]"

lemma rb_test_try_pop_empty_passes:
  "rb_runs 2 rb_test_try_pop_empty = Some [(Some (Pop_result None), 0)]"
  by (simp add: rb_script_eval rb_test_try_pop_empty_def)

lemma rb_test_mpsc_basic_passes:
  "rb_runs 32 rb_test_mpsc_basic =
    Some (map (\<lambda>k. (Some (Push_result (Inr ())), k)) [1, 2, 3, 4, 5, 6, 7, 8] @
      map (\<lambda>(i, k). (Some (Pop_result (Some (Init i))), k))
        [(0, 7), (1, 6), (2, 5), (3, 4), (4, 3), (5, 2), (6, 1), (7, 0)])"
  by (simp add: rb_script_eval rb_test_mpsc_basic_def)

section \<open>\<open>src/channel.rs\<close>\<close>

text \<open>A test makes a channel and its first two handles, and sees the results of the calls.\<close>

definition ch_sees :: "'a channel \<Rightarrow> 'a ch_thread \<Rightarrow> 'a ch_result option" where
  "ch_sees g l = ch_last l"

definition ch_opened :: "nat \<Rightarrow> 'a channel option" where
  "ch_opened n = (case ch_new n of None \<Rightarrow> None | Some g \<Rightarrow> map_option fst (ch_channel n g))"

definition ch_runs :: "nat \<Rightarrow> (nat \<times> 'a ch_op) list \<Rightarrow> 'a ch_result option list option" where
  "ch_runs n script =
     (case ch_opened n of
        None \<Rightarrow> None
      | Some g \<Rightarrow> run_script (ch_prog fifo_futex True) ch_home ch_sees script
          \<lparr>glob = g, locs = [ch_idle, ch_idle, ch_idle]\<rparr>)"

lemmas ch_script_eval = ch_run_eval ch_runs_def ch_home_def ch_sees_def ch_opened_def ch_channel_def
  ch_new_def rb_new_def futex_new_def MAX_SENDER_COUNT_def

definition ch_test_basic :: "(nat \<times> int ch_op) list" where
  "ch_test_basic = [(0, Ch_op_send 42), (0, Ch_op_recv)]"

lemma ch_test_basic_passes:
  "ch_runs 4 ch_test_basic = Some [Some (Send_result (Inr ())), Some (Recv_result (Inr (Init 42)))]"
  by (simp add: ch_script_eval ch_test_basic_def)

definition ch_test_multiple_messages :: "(nat \<times> int ch_op) list" where
  "ch_test_multiple_messages =
     map (\<lambda>i. (0, Ch_op_send i)) [0, 1, 2, 3] @ map (\<lambda>i. (0, Ch_op_recv)) [0, 1, 2, 3 :: int]"

lemma ch_test_multiple_messages_passes:
  "ch_runs 4 ch_test_multiple_messages =
    Some (replicate 4 (Some (Send_result (Inr ()))) @ map (\<lambda>i. Some (Recv_result (Inr (Init i)))) [0, 1, 2, 3])"
  by (simp add: ch_script_eval ch_test_multiple_messages_def)

text \<open>The drop of a handle returns nothing: what is seen is the last result before it.\<close>

definition ch_test_senders_dropped :: "(nat \<times> int ch_op) list" where
  "ch_test_senders_dropped =
     [(0, Ch_op_send 1), (0, Ch_op_send 2), (0, Ch_op_drop_sender), (0, Ch_op_recv), (0, Ch_op_recv), (0, Ch_op_recv)]"

lemma ch_test_senders_dropped_passes:
  "ch_runs 4 ch_test_senders_dropped =
    Some (replicate 3 (Some (Send_result (Inr ()))) @
      [Some (Recv_result (Inr (Init 1))), Some (Recv_result (Inr (Init 2))),
       Some (Recv_result (Inl Receive_Disconnected))])"
  by (simp add: ch_script_eval ch_test_senders_dropped_def)

definition ch_test_try_send_full :: "(nat \<times> int ch_op) list" where
  "ch_test_try_send_full =
     [(0, Ch_op_try_send 1), (0, Ch_op_try_send 2), (0, Ch_op_try_send 3), (0, Ch_op_drop_receiver),
      (0, Ch_op_try_send 4)]"

lemma ch_test_try_send_full_passes:
  "ch_runs 2 ch_test_try_send_full =
    Some [Some (Try_send_result (Inr ())), Some (Try_send_result (Inr ())),
      Some (Try_send_result (Inl (BufferFull 3))), Some (Try_send_result (Inl (BufferFull 3))),
      Some (Try_send_result (Inl (Try_send_Disconnected 4)))]"
  by (simp add: ch_script_eval ch_test_try_send_full_def)

definition ch_test_try_recv_empty :: "(nat \<times> int ch_op) list" where
  "ch_test_try_recv_empty =
     [(0, Ch_op_try_recv), (0, Ch_op_send 42), (0, Ch_op_try_recv), (0, Ch_op_drop_sender), (0, Ch_op_try_recv)]"

lemma ch_test_try_recv_empty_passes:
  "ch_runs 2 ch_test_try_recv_empty =
    Some [Some (Try_recv_result (Inl BufferEmpty)), Some (Send_result (Inr ())),
      Some (Try_recv_result (Inr (Init 42))), Some (Try_recv_result (Inr (Init 42))),
      Some (Try_recv_result (Inl Try_receive_Disconnected))]"
  by (simp add: ch_script_eval ch_test_try_recv_empty_def)

text \<open>The two senders may run in either order; the test sorts what it receives.\<close>

definition ch_test_cloned_senders :: "bool \<Rightarrow> (nat \<times> int ch_op) list" where
  "ch_test_cloned_senders swapped =
     (0, Ch_op_clone) #
     (if swapped then [(2, Ch_op_send 2), (1, Ch_op_send 1)] else [(1, Ch_op_send 1), (2, Ch_op_send 2)]) @
     [(0, Ch_op_recv), (0, Ch_op_recv)]"

lemma ch_test_cloned_senders_passes:
  "ch_runs 4 (ch_test_cloned_senders False) =
     Some [None, Some (Send_result (Inr ())), Some (Send_result (Inr ())),
       Some (Recv_result (Inr (Init 1))), Some (Recv_result (Inr (Init 2)))] \<and>
   ch_runs 4 (ch_test_cloned_senders True) =
     Some [None, Some (Send_result (Inr ())), Some (Send_result (Inr ())),
       Some (Recv_result (Inr (Init 2))), Some (Recv_result (Inr (Init 1)))]"
  by (simp add: ch_script_eval ch_test_cloned_senders_def)

definition ch_test_blocking :: "(nat \<times> int ch_op) list" where
  "ch_test_blocking = [(1, Ch_op_send 99), (1, Ch_op_drop_sender), (0, Ch_op_recv)]"

lemma ch_test_blocking_passes:
  "ch_runs 2 ch_test_blocking =
    Some [Some (Send_result (Inr ())), Some (Send_result (Inr ())), Some (Recv_result (Inr (Init 99)))]"
  by (simp add: ch_script_eval ch_test_blocking_def)

definition ch_test_send_after_drop :: "(nat \<times> int ch_op) list" where
  "ch_test_send_after_drop = [(0, Ch_op_drop_receiver), (0, Ch_op_send 42)]"

lemma ch_test_send_after_drop_passes:
  "ch_runs 2 ch_test_send_after_drop = Some [None, Some (Send_result (Inl (Send_Disconnected 42)))]"
  by (simp add: ch_script_eval ch_test_send_after_drop_def)

section \<open>\<open>src/arc.rs\<close>\<close>

text \<open>
  A test sees the result of an operation, how often the data was dropped in place and how
  often it was moved out.  A thread that was given a mutable reference is back with its client;
  it ends that borrow with its next operation that is no store.\<close>

definition arc_sees :: "'a arc_inner \<Rightarrow> 'a arc_thread \<Rightarrow> 'a arc_result option \<times> nat \<times> nat" where
  "arc_sees g l = (arc_last l, arc_drops g, arc_moves g)"

definition arc_runs :: "'a \<Rightarrow> (nat \<times> 'a arc_op) list \<Rightarrow> ('a arc_result option \<times> nat \<times> nat) list option" where
  "arc_runs d script = run_script arc_prog arc_home arc_sees script
     \<lparr>glob = arc_new d, locs = [arc_idle, arc_idle]\<rparr>"

lemmas arc_script_eval = arc_run_eval arc_runs_def arc_home_def arc_sees_def

definition arc_test_basic :: "(nat \<times> int arc_op) list" where
  "arc_test_basic = [(0, Arc_op_clone), (1, Arc_op_deref), (1, Arc_op_drop), (0, Arc_op_deref)]"

lemma arc_test_basic_passes:
  "arc_runs 1 arc_test_basic =
    Some [(Some Cloned, 0, 0), (Some (Read 1), 0, 0), (Some (Read 1), 0, 0), (Some (Read 1), 0, 0)]"
  by (simp add: arc_script_eval arc_test_basic_def)

definition arc_test_clone :: "(nat \<times> int arc_op) list" where
  "arc_test_clone = [(0, Arc_op_clone), (0, Arc_op_deref), (0, Arc_op_deref)]"

lemma arc_test_clone_passes:
  "arc_runs 10 arc_test_clone = Some [(Some Cloned, 0, 0), (Some (Read 10), 0, 0), (Some (Read 10), 0, 0)]"
  by (simp add: arc_script_eval arc_test_clone_def)

definition arc_test_weak_upgrade :: "(nat \<times> int arc_op) list" where
  "arc_test_weak_upgrade =
     [(0, Arc_op_downgrade), (0, Arc_op_upgrade), (0, Arc_op_deref), (0, Arc_op_drop), (0, Arc_op_drop),
      (0, Arc_op_upgrade)]"

lemma arc_test_weak_upgrade_passes:
  "arc_runs 10 arc_test_weak_upgrade =
    Some [(Some Downgraded, 0, 0), (Some (Upgraded True), 0, 0), (Some (Read 10), 0, 0),
      (Some (Read 10), 0, 0), (Some (Read 10), 1, 0), (Some (Upgraded False), 1, 0)]"
  by (simp add: arc_script_eval arc_test_weak_upgrade_def)

definition arc_test_get_mut :: "(nat \<times> int arc_op) list" where
  "arc_test_get_mut =
     [(0, Arc_op_get_mut), (0, Arc_op_write (\<lambda>_. 20)), (0, Arc_op_deref), (0, Arc_op_deref),
      (0, Arc_op_clone), (0, Arc_op_get_mut)]"

lemma arc_test_get_mut_passes:
  "arc_runs 10 arc_test_get_mut =
    Some [(Some (Got_mut True), 0, 0), (Some (Got_mut True), 0, 0), (Some (Got_mut True), 0, 0),
      (Some (Read 20), 0, 0), (Some Cloned, 0, 0), (Some (Got_mut False), 0, 0)]"
  by (simp add: arc_script_eval arc_test_get_mut_def)

text \<open>The test has two pointers, each with a script of its own.\<close>

definition arc_test_into_inner :: "(nat \<times> int arc_op) list \<times> (nat \<times> int arc_op) list" where
  "arc_test_into_inner =
     ([(0, Arc_op_clone), (0, Arc_op_into_inner), (0, Arc_op_drop)], [(0, Arc_op_into_inner)])"

lemma arc_test_into_inner_passes:
  "arc_runs 10 (fst arc_test_into_inner) =
     Some [(Some Cloned, 0, 0), (Some (Into_inner None), 0, 0), (Some (Into_inner None), 1, 0)] \<and>
   arc_runs 20 (snd arc_test_into_inner) = Some [(Some (Into_inner (Some 20)), 0, 1)]"
  by (simp add: arc_script_eval arc_test_into_inner_def)

definition arc_test_drop_behavior :: "(nat \<times> unit arc_op) list" where
  "arc_test_drop_behavior = [(0, Arc_op_clone), (0, Arc_op_drop), (0, Arc_op_drop)]"

lemma arc_test_drop_behavior_passes:
  "arc_runs () arc_test_drop_behavior = Some [(Some Cloned, 0, 0), (Some Cloned, 0, 0), (Some Cloned, 1, 0)]"
  by (simp add: arc_script_eval arc_test_drop_behavior_def)

text \<open>The moved data is dropped by the assertion of the test, which receives it.\<close>

definition arc_test_drop_behavior_into_inner :: "(nat \<times> unit arc_op) list" where
  "arc_test_drop_behavior_into_inner = [(0, Arc_op_clone), (1, Arc_op_into_inner), (0, Arc_op_into_inner)]"

lemma arc_test_drop_behavior_into_inner_passes:
  "arc_runs () arc_test_drop_behavior_into_inner =
    Some [(Some Cloned, 0, 0), (Some (Into_inner None), 0, 0), (Some (Into_inner (Some ())), 0, 1)]"
  by (simp add: arc_script_eval arc_test_drop_behavior_into_inner_def)

definition arc_test_weak_count :: "(nat \<times> int arc_op) list" where
  "arc_test_weak_count =
     [(0, Arc_op_downgrade), (0, Arc_op_downgrade), (0, Arc_op_upgrade), (0, Arc_op_deref), (0, Arc_op_drop),
      (0, Arc_op_upgrade), (0, Arc_op_deref), (0, Arc_op_drop), (0, Arc_op_drop),
      (0, Arc_op_upgrade), (0, Arc_op_upgrade)]"

lemma arc_test_weak_count_passes:
  "arc_runs 10 arc_test_weak_count =
    Some [(Some Downgraded, 0, 0), (Some Downgraded, 0, 0), (Some (Upgraded True), 0, 0),
      (Some (Read 10), 0, 0), (Some (Read 10), 0, 0), (Some (Upgraded True), 0, 0),
      (Some (Read 10), 0, 0), (Some (Read 10), 0, 0), (Some (Read 10), 1, 0),
      (Some (Upgraded False), 1, 0), (Some (Upgraded False), 1, 0)]"
  by (simp add: arc_script_eval arc_test_weak_count_def)

end
