(* ===== verification/CondVarUse.thy ===== *)
theory CondVarUse
  imports CondVar
begin

text \<open>
  The threads of \<open>test_notify_all_multiple_waiters\<close> of \<open>src/condvar.rs\<close>: a number of waiters that lock the mutex and wait in
  a loop until the data is set, and a thread that sets it and notifies all.  What the condition variable and the mutex have
  to achieve together is that no waiter sleeps on after the notification, and that every waiter leaves its
  loop with the data set.
\<close>

section \<open>The client threads\<close>

record meeting =
  mt_cv :: "int cv_state"
  mt_ready :: u32

datatype party_pc =
    PW_lock | PW_ready | PW_test | PW_wait | PW_assert | PW_unlock | PW_done
  | PN_spin | PN_lock | PN_store | PN_notify | PN_unlock | PN_done | P_panicked

record party =
  pt_pc :: party_pc
  pt_cv :: cv_thread

text \<open>A call of an operation, and the point its thread goes on at when it has returned.\<close>

definition cv_returned :: "cv_thread \<Rightarrow> bool" where
  "cv_returned l \<longleftrightarrow> cv_pc l = CV_client \<and> m1_pc (cv_m1 l) = M1_idle"

definition meet_call ::
  "futex_api \<Rightarrow> (nat \<Rightarrow> usize) \<Rightarrow> int cv_op \<Rightarrow> (cv_thread \<Rightarrow> party_pc) \<Rightarrow> unit env \<Rightarrow> nat \<Rightarrow>
     meeting \<Rightarrow> party \<Rightarrow> (meeting \<times> party) option" where
  "meet_call F tid op k e t g w =
     (case cv_prog F tid (with_call op e) t (mt_cv g) (pt_cv w) of
        None \<Rightarrow> None
      | Some (x, l') \<Rightarrow> Some (g\<lparr>mt_cv := x\<rparr>,
          w\<lparr>pt_cv := l', pt_pc := (if cv_returned l' then k l' else pt_pc w)\<rparr>))"

text \<open>\<open>lock().unwrap()\<close>.\<close>

definition meet_unwrap :: "party_pc \<Rightarrow> cv_thread \<Rightarrow> party_pc" where
  "meet_unwrap p l = (if m1_last (cv_m1 l) = Some (Inr ()) then p else P_panicked)"

definition meet_prog :: "futex_api \<Rightarrow> (nat \<Rightarrow> usize) \<Rightarrow> u32 \<Rightarrow> (unit, meeting, party) program" where
  "meet_prog F tid thread_count e t g w =
     (case pt_pc w of
        PW_lock \<Rightarrow> meet_call F tid (CV_op_mutex M1_op_lock) (meet_unwrap PW_ready) e t g w
      | PW_ready \<Rightarrow> Some (g\<lparr>mt_ready := mt_ready g + 1\<rparr>, w\<lparr>pt_pc := PW_test\<rparr>)
      | PW_test \<Rightarrow> Some (g, w\<lparr>pt_pc := (if cv_data (mt_cv g) < 1 then PW_wait else PW_assert)\<rparr>)
      | PW_wait \<Rightarrow> meet_call F tid CV_op_wait (\<lambda>_. PW_test) e t g w
      | PW_assert \<Rightarrow> Some (g, w\<lparr>pt_pc := (if cv_data (mt_cv g) = 1 then PW_unlock else P_panicked)\<rparr>)
      | PW_unlock \<Rightarrow> meet_call F tid (CV_op_mutex M1_op_unlock) (\<lambda>_. PW_done) e t g w
      | PW_done \<Rightarrow> None
      | PN_spin \<Rightarrow> Some (g, w\<lparr>pt_pc := (if mt_ready g < thread_count then PN_spin else PN_lock)\<rparr>)
      | PN_lock \<Rightarrow> meet_call F tid (CV_op_mutex M1_op_lock) (meet_unwrap PN_store) e t g w
      | PN_store \<Rightarrow> meet_call F tid (CV_op_mutex (M1_op_write (\<lambda>_. 1))) (\<lambda>_. PN_notify) e t g w
      | PN_notify \<Rightarrow> meet_call F tid CV_op_notify_all (\<lambda>_. PN_unlock) e t g w
      | PN_unlock \<Rightarrow> meet_call F tid (CV_op_mutex M1_op_unlock) (\<lambda>_. PN_done) e t g w
      | PN_done \<Rightarrow> None
      | P_panicked \<Rightarrow> None)"

text \<open>Thread 0 notifies, the threads 1 to \<open>n\<close> wait.\<close>

definition meet_start :: "futex_api \<Rightarrow> (nat \<Rightarrow> usize) \<Rightarrow> nat \<Rightarrow> (meeting, party) sys \<Rightarrow> bool" where
  "meet_start F tid n s \<longleftrightarrow> futex_ok F \<and> tid_ok tid (Suc n) \<and> Suc n < 2 ^ 32 \<and>
     (\<exists>tokens. s = \<lparr>glob = \<lparr>mt_cv = \<lparr>cv_var = cv_new, cv_mutex = (m1_new 0)\<lparr>park_tokens := tokens\<rparr>\<rparr>,
         mt_ready = 0\<rparr>,
       locs = \<lparr>pt_pc = PN_spin, pt_cv = cv_idle\<rparr> # replicate n \<lparr>pt_pc = PW_lock, pt_cv = cv_idle\<rparr>\<rparr>)"

lemma meet_simulates:
  "meet_prog F tid c e t g w = Some (g', w') \<Longrightarrow>
    mt_cv g' = mt_cv g \<and> pt_cv w' = pt_cv w \<or>
    (\<exists>e'. cv_prog F tid e' t (mt_cv g) (pt_cv w) = Some (mt_cv g', pt_cv w'))"
  by (auto simp: meet_prog_def meet_call_def split: party_pc.splits option.splits)

lemma meet_start_view: "meet_start F tid n s \<Longrightarrow> cv_start F tid (sys_view mt_cv pt_cv s)"
  unfolding meet_start_def cv_start_def sys_view_def
  by (auto simp: replicate_Suc [symmetric] simp del: replicate_Suc) blast

interpretation meet_cv: embedding "meet_prog F tid c" "meet_start F tid n" "cv_prog F tid" "cv_start F tid"
    mt_cv pt_cv
  for F :: futex_api and tid :: "nat \<Rightarrow> usize" and c :: u32 and n :: nat
  by unfold_locales (fact meet_simulates, fact meet_start_view)

section \<open>Calls of the mutex\<close>

lemma m1_prog_call: "m1_pc m \<noteq> M1_idle \<Longrightarrow>
    m1_prog tid (with_call op e) t g m = m1_prog tid (with_call op' e) t g m"
proof (cases "m1_pc m")
  case (M1_lock p)
  show ?thesis
  proof (cases p)
    case (M1_enqueue q)
    with M1_lock show ?thesis by (cases q) (simp_all add: m1_prog_def)
  qed (simp_all add: M1_lock m1_prog_def)
next
  case (M1_try p)
  then show ?thesis by (cases p) (simp_all add: m1_prog_def)
next
  case (M1_drop p)
  show ?thesis
  proof (cases p)
    case (M1d_dequeue q)
    with M1_drop show ?thesis by (cases q) (simp_all add: m1_prog_def)
  qed (simp_all add: M1_drop m1_prog_def)
qed (simp_all add: m1_prog_def)

lemma cv_mutex_call:
  assumes "cv_pc l = CV_client" and "cv_prog F tid (with_call (CV_op_mutex op) e) t g l = Some (g', l')"
  shows "cv_var g' = cv_var g \<and> cv_pc l' = CV_client \<and>
    m1_prog tid (with_call op e) t (cv_mutex g) (cv_m1 l) = Some (cv_mutex g', cv_m1 l')"
proof -
  have twice: "with_call a (with_call b e) = with_call a e" for a :: "'z" and b :: "'y"
    by (simp add: with_call_def)
  show ?thesis
  proof (cases "m1_pc (cv_m1 l) = M1_idle")
    case True
    with assms show ?thesis by (auto simp: cv_prog_def cv_mutex_step_def twice split: option.splits)
  next
    case False
    from m1_prog_call [OF False, of tid op e t _ M1_op_lock] assms False show ?thesis
      by (auto simp: cv_prog_def cv_mutex_step_def twice split: option.splits)
  qed
qed

section \<open>Invariant\<close>

text \<open>How far the notifier is: it has stored (1), added to the counter (2), returned from the call (3).\<close>

fun meet_stage :: "party_pc \<Rightarrow> cv_pc \<Rightarrow> nat" where
  "meet_stage PN_notify (CV_all CA_load) = 2"
| "meet_stage PN_notify (CV_all CA_wake) = 2"
| "meet_stage PN_notify _ = 1"
| "meet_stage PN_unlock _ = 3"
| "meet_stage PN_done _ = 3"
| "meet_stage _ _ = 0"

definition stage_of :: "party \<Rightarrow> nat" where
  "stage_of w = meet_stage (pt_pc w) (cv_pc (pt_cv w))"

abbreviation notifying :: "party_pc \<Rightarrow> bool" where
  "notifying p \<equiv> p \<in> {PN_spin, PN_lock, PN_store, PN_notify, PN_unlock, PN_done}"

text \<open>
  Where a waiter is inside \<open>wait\<close>.  It has seen the data unset while it held the mutex, so the
  notifier had not stored then, and the counter it has loaded is 0.
\<close>

fun meet_wait_ok :: "nat \<Rightarrow> cv_pc \<Rightarrow> m1_thread \<Rightarrow> bool" where
  "meet_wait_ok st CV_client m \<longleftrightarrow> m1_inside m \<and> st = 0"
| "meet_wait_ok st (CV_wait CW_load) m \<longleftrightarrow> m1_inside m \<and> st = 0"
| "meet_wait_ok st (CV_wait (CW_add c)) m \<longleftrightarrow> m1_inside m \<and> st = 0 \<and> c = 0"
| "meet_wait_ok st (CV_wait (CW_unlock c)) m \<longleftrightarrow> (m1_inside m \<or> m1_leaving m) \<and> c = 0"
| "meet_wait_ok st (CV_wait (CW_wait c)) m \<longleftrightarrow> m1_outside m \<and> c = 0"
| "meet_wait_ok st (CV_wait CW_blocked) m \<longleftrightarrow> m1_outside m"
| "meet_wait_ok st (CV_wait CW_sub) m \<longleftrightarrow> m1_outside m"
| "meet_wait_ok st (CV_wait CW_lock) m \<longleftrightarrow> m1_outside m \<or> m1_entering m"
| "meet_wait_ok st _ m \<longleftrightarrow> False"

fun meet_pc_ok :: "nat \<Rightarrow> party_pc \<Rightarrow> cv_pc \<Rightarrow> m1_thread \<Rightarrow> bool" where
  "meet_pc_ok st PW_lock p m \<longleftrightarrow> p = CV_client \<and> (m1_outside m \<or> m1_entering m)"
| "meet_pc_ok st PW_ready p m \<longleftrightarrow> p = CV_client \<and> m1_inside m"
| "meet_pc_ok st PW_test p m \<longleftrightarrow> p = CV_client \<and> m1_inside m"
| "meet_pc_ok st PW_wait p m \<longleftrightarrow> meet_wait_ok st p m"
| "meet_pc_ok st PW_assert p m \<longleftrightarrow> p = CV_client \<and> m1_inside m \<and> 0 < st"
| "meet_pc_ok st PW_unlock p m \<longleftrightarrow> p = CV_client \<and> (m1_inside m \<or> m1_leaving m) \<and> 0 < st"
| "meet_pc_ok st PW_done p m \<longleftrightarrow> p = CV_client \<and> m1_outside m \<and> 0 < st"
| "meet_pc_ok st PN_spin p m \<longleftrightarrow> p = CV_client \<and> m1_outside m"
| "meet_pc_ok st PN_lock p m \<longleftrightarrow> p = CV_client \<and> (m1_outside m \<or> m1_entering m)"
| "meet_pc_ok st PN_store p m \<longleftrightarrow> p = CV_client \<and> m1_inside m"
| "meet_pc_ok st PN_notify p m \<longleftrightarrow> (p = CV_client \<or> (\<exists>q. p = CV_all q)) \<and> m1_inside m"
| "meet_pc_ok st PN_unlock p m \<longleftrightarrow> p = CV_client \<and> (m1_inside m \<or> m1_leaving m)"
| "meet_pc_ok st PN_done p m \<longleftrightarrow> p = CV_client \<and> m1_outside m"
| "meet_pc_ok st P_panicked p m \<longleftrightarrow> False"

definition meet_ok :: "nat \<Rightarrow> party \<Rightarrow> bool" where
  "meet_ok st w \<longleftrightarrow> meet_pc_ok st (pt_pc w) (cv_pc (pt_cv w)) (cv_m1 (pt_cv w))"

text \<open>The data and the counter follow the notifier, and after it nobody is blocked.\<close>

definition meet_glob :: "nat \<Rightarrow> meeting \<Rightarrow> bool" where
  "meet_glob st g \<longleftrightarrow> \<not> m1_poisoned (cv_mutex (mt_cv g)) \<and>
     cv_data (mt_cv g) = of_bool (1 \<le> st) \<and>
     val (cv_counter (cv_var (mt_cv g))) = of_bool (2 \<le> st) \<and>
     (st = 3 \<longrightarrow> waiters (cv_counter (cv_var (mt_cv g))) = [])"

text \<open>
  One step: the mover keeps its part, the stage of the notifier only grows, and it leaves 0 only by
  a step of a thread inside the mutex.
\<close>

definition meet_effect :: "nat \<Rightarrow> party \<Rightarrow> nat \<Rightarrow> meeting \<Rightarrow> party \<Rightarrow> bool" where
  "meet_effect st w st' g' w' \<longleftrightarrow> meet_glob st' g' \<and> meet_ok st' w' \<and>
     (notifying (pt_pc w') \<longleftrightarrow> notifying (pt_pc w)) \<and> st \<le> st' \<and>
     (st = 0 \<and> 0 < st' \<longrightarrow> m1_inside (cv_m1 (pt_cv w)))"

text \<open>What holds before a step of thread \<open>t\<close>.\<close>

definition meet_pre :: "futex_api \<Rightarrow> (nat \<Rightarrow> usize) \<Rightarrow> nat \<Rightarrow> nat \<Rightarrow> meeting \<Rightarrow> party \<Rightarrow> bool" where
  "meet_pre F tid t st g w \<longleftrightarrow> futex_ok F \<and>
     (\<exists>S. reachable (m1_prog tid) (m1_start tid) S \<and> t < length (locs S) \<and>
        glob S = cv_mutex (mt_cv g) \<and> locs S ! t = cv_m1 (pt_cv w)) \<and>
     meet_glob st g \<and> meet_ok st w \<and> (notifying (pt_pc w) \<longrightarrow> st = stage_of w) \<and>
     (cv_waiting (cv_var (mt_cv g)) = 0 \<longrightarrow> waiters (cv_counter (cv_var (mt_cv g))) = [])"

definition stage_after :: "nat \<Rightarrow> party \<Rightarrow> nat" where
  "stage_after st w = (if notifying (pt_pc w) then stage_of w else st)"

lemma meet_pre_enter:
  assumes "meet_pre F tid t st g w"
    and "m1_outside (cv_m1 (pt_cv w)) \<or> m1_entering (cv_m1 (pt_cv w))"
    and "m1_prog tid (with_call M1_op_lock e) t (cv_mutex (mt_cv g)) (cv_m1 (pt_cv w)) = Some (x, m)"
  shows "\<not> m1_poisoned x \<and> m1_data x = cv_data (mt_cv g) \<and>
    (if m1_pc m = M1_idle then m1_last m = Some (Inr ()) \<and> m1_inside m else m1_entering m)"
proof -
  from assms(1) obtain S where S: "reachable (m1_prog tid) (m1_start tid) S" "t < length (locs S)"
    "glob S = cv_mutex (mt_cv g)" "locs S ! t = cv_m1 (pt_cv w)" and "\<not> m1_poisoned (glob S)"
    by (auto simp: meet_pre_def meet_glob_def)
  with m1_enter [OF S(1,2), of e x m] assms(2,3) show ?thesis by simp
qed

lemma meet_pre_leave:
  assumes "meet_pre F tid t st g w" and "m1_inside m \<or> m1_leaving m"
    and "m1_prog tid (with_call M1_op_unlock e) t (cv_mutex (mt_cv g)) m = Some (x, m')"
  shows "\<not> m1_poisoned x \<and> m1_data x = cv_data (mt_cv g) \<and>
    (if m1_pc m' = M1_idle then m1_outside m' else m1_leaving m')"
  using m1_leave [OF _ assms(2,3)] assms(1) by (simp add: meet_pre_def meet_glob_def)

lemma m1_stage_pc:
  "m1_inside m \<Longrightarrow> m1_pc m = M1_idle" "m1_outside m \<Longrightarrow> m1_pc m = M1_idle"
  "m1_entering m \<Longrightarrow> m1_pc m \<noteq> M1_idle" "m1_leaving m \<Longrightarrow> m1_pc m \<noteq> M1_idle"
  by (auto simp: m1_stages)

lemmas meet_simps = meet_effect_def meet_glob_def meet_ok_def stage_after_def stage_of_def
  cv_returned_def meet_unwrap_def

text \<open>A step that leaves the stage, the data and the counter as they are.\<close>

lemma meet_effect_same:
  assumes "meet_glob st g" and "\<not> m1_poisoned (cv_mutex (mt_cv g'))"
    and "cv_data (mt_cv g') = cv_data (mt_cv g)"
    and "val (cv_counter (cv_var (mt_cv g'))) = val (cv_counter (cv_var (mt_cv g)))"
    and "st = 3 \<Longrightarrow> waiters (cv_counter (cv_var (mt_cv g))) = [] \<Longrightarrow>
      waiters (cv_counter (cv_var (mt_cv g'))) = []"
    and "meet_ok st w'" and "notifying (pt_pc w') \<longleftrightarrow> notifying (pt_pc w)" and "stage_after st w' = st"
  shows "meet_effect st w (stage_after st w') g' w'"
  using assms by (cases "st = 0") (simp_all add: meet_effect_def meet_glob_def)

text \<open>Locking: the waiters and the notifier.\<close>

lemma meet_effect_lock:
  assumes pre: "meet_pre F tid t st g w" and pc: "pt_pc w = PW_lock \<and> k = PW_ready \<or> pt_pc w = PN_lock \<and> k = PN_store"
    and step: "meet_call F tid (CV_op_mutex M1_op_lock) (meet_unwrap k) e t g w = Some (g', w')"
  shows "meet_effect st w (stage_after st w') g' w'"
proof -
  from pre pc have l: "cv_pc (pt_cv w) = CV_client"
    "m1_outside (cv_m1 (pt_cv w)) \<or> m1_entering (cv_m1 (pt_cv w))"
    by (auto simp: meet_pre_def meet_ok_def)
  from step obtain x l' where cv: "cv_prog F tid (with_call (CV_op_mutex M1_op_lock) e) t (mt_cv g) (pt_cv w) = Some (x, l')"
    and g': "g' = g\<lparr>mt_cv := x\<rparr>"
    and w': "w' = w\<lparr>pt_cv := l', pt_pc := (if cv_returned l' then meet_unwrap k l' else pt_pc w)\<rparr>"
    by (auto simp: meet_call_def split: option.splits)
  from cv_mutex_call [OF l(1) cv] have c: "cv_var x = cv_var (mt_cv g)" "cv_pc l' = CV_client"
    and m: "m1_prog tid (with_call M1_op_lock e) t (cv_mutex (mt_cv g)) (cv_m1 (pt_cv w)) = Some (cv_mutex x, cv_m1 l')"
    by blast+
  from meet_pre_enter [OF pre l(2) m] have "\<not> m1_poisoned (cv_mutex x)" "cv_data x = cv_data (mt_cv g)"
    and m': "if m1_pc (cv_m1 l') = M1_idle then m1_last (cv_m1 l') = Some (Inr ()) \<and> m1_inside (cv_m1 l')
      else m1_entering (cv_m1 l')" by blast+
  moreover have "meet_glob st g" "pt_pc w = PN_lock \<Longrightarrow> st = 0" using pre
    by (auto simp: meet_pre_def stage_of_def)
  ultimately show ?thesis using pc
    by (cases "m1_pc (cv_m1 l') = M1_idle"; elim disjE conjE; intro meet_effect_same [of st g])
      (simp_all add: g' w' c meet_ok_def stage_after_def stage_of_def cv_returned_def meet_unwrap_def)
qed

lemma meet_effect_unlock:
  assumes pre: "meet_pre F tid t st g w" and pc: "pt_pc w = PW_unlock \<and> k = PW_done \<or> pt_pc w = PN_unlock \<and> k = PN_done"
    and step: "meet_call F tid (CV_op_mutex M1_op_unlock) (\<lambda>_. k) e t g w = Some (g', w')"
  shows "meet_effect st w (stage_after st w') g' w'"
proof -
  from pre pc have l: "cv_pc (pt_cv w) = CV_client"
    "m1_inside (cv_m1 (pt_cv w)) \<or> m1_leaving (cv_m1 (pt_cv w))"
    by (auto simp: meet_pre_def meet_ok_def)
  from step obtain x l' where cv: "cv_prog F tid (with_call (CV_op_mutex M1_op_unlock) e) t (mt_cv g) (pt_cv w) = Some (x, l')"
    and g': "g' = g\<lparr>mt_cv := x\<rparr>"
    and w': "w' = w\<lparr>pt_cv := l', pt_pc := (if cv_returned l' then k else pt_pc w)\<rparr>"
    by (auto simp: meet_call_def split: option.splits)
  from cv_mutex_call [OF l(1) cv] have c: "cv_var x = cv_var (mt_cv g)" "cv_pc l' = CV_client"
    and m: "m1_prog tid (with_call M1_op_unlock e) t (cv_mutex (mt_cv g)) (cv_m1 (pt_cv w)) = Some (cv_mutex x, cv_m1 l')"
    by blast+
  from meet_pre_leave [OF pre l(2) m] have "\<not> m1_poisoned (cv_mutex x)" "cv_data x = cv_data (mt_cv g)"
    and m': "if m1_pc (cv_m1 l') = M1_idle then m1_outside (cv_m1 l') else m1_leaving (cv_m1 l')" by blast+
  moreover have "meet_glob st g" "pt_pc w = PN_unlock \<Longrightarrow> st = 3" "pt_pc w = PW_unlock \<Longrightarrow> 0 < st" using pre
    by (auto simp: meet_pre_def stage_of_def meet_ok_def)
  ultimately show ?thesis using pc
    by (cases "m1_pc (cv_m1 l') = M1_idle"; elim disjE conjE; intro meet_effect_same [of st g])
      (simp_all add: g' w' c meet_ok_def stage_after_def stage_of_def cv_returned_def)
qed

lemma meet_effect_store:
  assumes pre: "meet_pre F tid t st g w" and pc: "pt_pc w = PN_store"
    and step: "meet_call F tid (CV_op_mutex (M1_op_write (\<lambda>_. 1))) (\<lambda>_. PN_notify) e t g w = Some (g', w')"
  shows "meet_effect st w (stage_after st w') g' w'"
proof -
  from pre pc have l: "cv_pc (pt_cv w) = CV_client" "m1_inside (cv_m1 (pt_cv w))" "st = 0"
    and sound: "\<not> m1_poisoned (cv_mutex (mt_cv g))"
    by (auto simp: meet_pre_def meet_ok_def stage_of_def meet_glob_def)
  from step obtain x l' where cv: "cv_prog F tid (with_call (CV_op_mutex (M1_op_write (\<lambda>_. 1))) e) t (mt_cv g) (pt_cv w) = Some (x, l')"
    and g': "g' = g\<lparr>mt_cv := x\<rparr>"
    and w': "w' = w\<lparr>pt_cv := l', pt_pc := (if cv_returned l' then PN_notify else pt_pc w)\<rparr>"
    by (auto simp: meet_call_def split: option.splits)
  from cv_mutex_call [OF l(1) cv] have c: "cv_var x = cv_var (mt_cv g)" "cv_pc l' = CV_client"
    and m: "m1_prog tid (with_call (M1_op_write (\<lambda>_. 1)) e) t (cv_mutex (mt_cv g)) (cv_m1 (pt_cv w)) = Some (cv_mutex x, cv_m1 l')"
    by blast+
  from m1_store [OF sound l(2) m] have "\<not> m1_poisoned (cv_mutex x)" "cv_data x = 1" "m1_inside (cv_m1 l')"
    by blast+
  moreover from this have "m1_pc (cv_m1 l') = M1_idle" by (simp add: m1_stage_pc)
  moreover have "meet_glob st g" using pre by (simp add: meet_pre_def)
  ultimately show ?thesis
    using pc l by (simp add: meet_simps g' w' c)
qed

text \<open>A step inside \<open>wait\<close>.\<close>

lemma meet_effect_wait:
  assumes pre: "meet_pre F tid t st g w" and pc: "pt_pc w = PW_wait"
    and step: "meet_call F tid CV_op_wait (\<lambda>_. PW_test) e t g w = Some (g', w')"
  shows "meet_effect st w (stage_after st w') g' w'"
proof -
  let ?l = "pt_cv w"
  from pre have glob: "meet_glob st g" and F: "futex_ok F" by (simp_all add: meet_pre_def)
  from pre pc have ok: "meet_wait_ok st (cv_pc ?l) (cv_m1 ?l)"
    by (simp add: meet_pre_def meet_ok_def)
  from glob have sound: "\<not> m1_poisoned (cv_mutex (mt_cv g))"
    and counter: "val (cv_counter (cv_var (mt_cv g))) = of_bool (2 \<le> st)" by (simp_all add: meet_glob_def)
  from step obtain x l' where cv: "cv_prog F tid (with_call CV_op_wait e) t (mt_cv g) ?l = Some (x, l')"
    and g': "g' = g\<lparr>mt_cv := x\<rparr>"
    and w': "w' = w\<lparr>pt_cv := l', pt_pc := (if cv_returned l' then PW_test else PW_wait)\<rparr>"
    using pc by (auto simp: meet_call_def split: option.splits)
  have same: "meet_effect st w (stage_after st w') g' w'"
    if "\<not> m1_poisoned (cv_mutex x)" "cv_data x = cv_data (mt_cv g)"
      "val (cv_counter (cv_var x)) = val (cv_counter (cv_var (mt_cv g)))"
      "st = 3 \<Longrightarrow> waiters (cv_counter (cv_var (mt_cv g))) = [] \<Longrightarrow> waiters (cv_counter (cv_var x)) = []"
      "if cv_returned l' then m1_inside (cv_m1 l') else meet_wait_ok st (cv_pc l') (cv_m1 l')"
    using glob that pc
    by (intro meet_effect_same [of st g])
      (simp_all add: g' w' meet_ok_def stage_after_def cv_returned_def split: if_splits)
  show ?thesis
  proof (cases "cv_pc ?l")
    case CV_client
    with ok have "m1_inside (cv_m1 ?l)" "st = 0" by simp_all
    with cv CV_client show ?thesis
      by (intro same) (auto simp: cv_prog_def cv_returned_def m1_inside_def sound split: if_splits)
  next
    case (CV_wait p)
    show ?thesis
    proof (cases p)
      case CW_load
      with cv CV_wait ok sound counter show ?thesis
        by (intro same) (auto simp: cv_prog_def cv_returned_def)
    next
      case (CW_add c)
      with cv CV_wait ok sound show ?thesis
        by (intro same) (auto simp: cv_prog_def cv_returned_def)
    next
      case (CW_unlock c)
      with cv CV_wait obtain y m' where
        m: "m1_prog tid (with_call M1_op_unlock (with_call (CV_op_wait :: int cv_op) e)) t (cv_mutex (mt_cv g)) (cv_m1 ?l) = Some (y, m')"
        and x: "x = (mt_cv g)\<lparr>cv_mutex := y\<rparr>"
          "l' = \<lparr>cv_pc = CV_wait (if m1_pc m' = M1_idle then CW_wait c else CW_unlock c), cv_m1 = m'\<rparr>"
        by (auto simp: cv_prog_def split: option.splits)
      from m have "m1_prog tid (with_call M1_op_unlock e) t (cv_mutex (mt_cv g)) (cv_m1 ?l) = Some (y, m')"
        by (simp add: with_call_def)
      from meet_pre_leave [OF pre _ this] CV_wait CW_unlock ok show ?thesis
        by (intro same) (simp_all add: x cv_returned_def split: if_splits)
    next
      case (CW_wait c)
      have "val (cv_counter (cv_var (mt_cv g))) \<noteq> c" if "st = 3"
        using counter that CW_wait CV_wait ok by simp
      moreover from CW_wait CV_wait ok have "m1_outside (cv_m1 ?l)" by simp
      ultimately show ?thesis
        using cv CV_wait CW_wait sound F
        by (intro same) (auto simp: cv_prog_def cv_returned_def futex_wait_def futex_ok_def split: if_splits)
    next
      case CW_blocked
      with cv CV_wait ok sound show ?thesis
        by (intro same) (auto simp: cv_prog_def cv_returned_def futex_return_def split: if_splits)
    next
      case CW_sub
      with cv CV_wait ok sound show ?thesis
        by (intro same) (auto simp: cv_prog_def cv_returned_def)
    next
      case CW_lock
      with cv CV_wait obtain y m' where
        m: "m1_prog tid (with_call M1_op_lock (with_call (CV_op_wait :: int cv_op) e)) t (cv_mutex (mt_cv g)) (cv_m1 ?l) = Some (y, m')"
        and x: "x = (mt_cv g)\<lparr>cv_mutex := y\<rparr>" "cv_m1 l' = m'"
          "cv_pc l' = (if m1_pc m' \<noteq> M1_idle then CV_wait CW_lock
            else if m1_last m' = Some (Inr ()) then CV_client else CV_wait CW_unwrap)"
        by (auto simp: cv_prog_def split: option.splits)
      from m have "m1_prog tid (with_call M1_op_lock e) t (cv_mutex (mt_cv g)) (cv_m1 ?l) = Some (y, m')"
        by (simp add: with_call_def)
      from meet_pre_enter [OF pre _ this] CV_wait CW_lock ok show ?thesis
        by (intro same) (simp_all add: x cv_returned_def split: if_splits)
    next
      case CW_unwrap
      with ok CV_wait show ?thesis by simp
    qed
  qed (use ok in simp_all)
qed

text \<open>A step inside \<open>notify_all\<close>.\<close>

lemma meet_effect_notify:
  assumes pre: "meet_pre F tid t st g w" and pc: "pt_pc w = PN_notify"
    and step: "meet_call F tid CV_op_notify_all (\<lambda>_. PN_unlock) e t g w = Some (g', w')"
  shows "meet_effect st w (stage_after st w') g' w'"
proof -
  let ?l = "pt_cv w"
  from pre pc have F: "futex_ok F" and st: "st = meet_stage PN_notify (cv_pc ?l)"
    and empty: "cv_waiting (cv_var (mt_cv g)) = 0 \<Longrightarrow> waiters (cv_counter (cv_var (mt_cv g))) = []"
    and inside: "m1_inside (cv_m1 ?l)" and cvpc: "cv_pc ?l = CV_client \<or> (\<exists>q. cv_pc ?l = CV_all q)"
    and glob: "meet_glob st g"
    by (auto simp: meet_pre_def meet_ok_def stage_of_def)
  from inside have idle: "m1_pc (cv_m1 ?l) = M1_idle" by (rule m1_stage_pc)
  from step obtain x l' where cv: "cv_prog F tid (with_call CV_op_notify_all e) t (mt_cv g) ?l = Some (x, l')"
    and g': "g' = g\<lparr>mt_cv := x\<rparr>"
    and w': "w' = w\<lparr>pt_cv := l', pt_pc := (if cv_returned l' then PN_unlock else PN_notify)\<rparr>"
    using pc by (auto simp: meet_call_def split: option.splits)
  from cvpc show ?thesis
  proof
    assume "cv_pc ?l = CV_client"
    with cv idle inside glob st pc show ?thesis by (auto simp: cv_prog_def meet_simps g' w')
  next
    assume "\<exists>q. cv_pc ?l = CV_all q"
    then obtain q where q: "cv_pc ?l = CV_all q" ..
    show ?thesis
    proof (cases q)
      case CA_add
      with q cv idle inside glob st pc show ?thesis
        by (auto simp: cv_prog_def cv_bump_def meet_simps g' w')
    next
      case CA_load
      with q cv idle inside glob st pc empty show ?thesis
        by (cases "cv_waiting (cv_var (mt_cv g)) = 0") (auto simp: cv_prog_def meet_simps g' w')
    next
      case CA_wake
      with q cv idle inside glob st pc show ?thesis
        by (auto simp: cv_prog_def meet_simps g' w' futex_ok_wake_all [OF F])
    qed
  qed
qed

lemma meet_prog_effect:
  assumes pre: "meet_pre F tid t st g w" and step: "meet_prog F tid c e t g w = Some (g', w')"
  shows "meet_effect st w (stage_after st w') g' w'"
proof (cases "pt_pc w")
  case PW_lock
  with step show ?thesis by (intro meet_effect_lock [OF pre]) (auto simp: meet_prog_def)
next
  case PN_lock
  with step show ?thesis by (intro meet_effect_lock [OF pre]) (auto simp: meet_prog_def)
next
  case PW_unlock
  with step show ?thesis by (intro meet_effect_unlock [OF pre]) (auto simp: meet_prog_def)
next
  case PN_unlock
  with step show ?thesis by (intro meet_effect_unlock [OF pre]) (auto simp: meet_prog_def)
next
  case PN_store
  with step show ?thesis by (intro meet_effect_store [OF pre]) (auto simp: meet_prog_def)
next
  case PW_wait
  with step show ?thesis by (intro meet_effect_wait [OF pre]) (auto simp: meet_prog_def)
next
  case PN_notify
  with step show ?thesis by (intro meet_effect_notify [OF pre]) (auto simp: meet_prog_def)
qed (use pre step in \<open>auto simp: meet_prog_def meet_pre_def meet_simps split: if_splits\<close>)

text \<open>What the others know survives the step: the stage leaves 0 only under the mutex.\<close>

lemma meet_ok_mono:
  assumes "meet_ok st w" and "st \<le> st'" and "st = 0 \<Longrightarrow> 0 < st' \<Longrightarrow> \<not> m1_inside (cv_m1 (pt_cv w))"
  shows "meet_ok st' w"
proof (cases "st' = st")
  case False
  with assms(2,3) have "0 < st'" "st = 0 \<Longrightarrow> \<not> m1_inside (cv_m1 (pt_cv w))" by auto
  with assms(1) show ?thesis unfolding meet_ok_def
    by (cases "(st, pt_pc w, cv_pc (pt_cv w), cv_m1 (pt_cv w))" rule: meet_pc_ok.cases;
        cases "(st, cv_pc (pt_cv w), cv_m1 (pt_cv w))" rule: meet_wait_ok.cases)
      (auto simp: meet_ok_def)
qed (use assms(1) in simp)

definition meet_inv :: "nat \<Rightarrow> (meeting, party) sys \<Rightarrow> bool" where
  "meet_inv n s \<longleftrightarrow> length (locs s) = Suc n \<and> meet_glob (stage_of (locs s ! 0)) (glob s) \<and>
     (\<forall>t < length (locs s). meet_ok (stage_of (locs s ! 0)) (locs s ! t) \<and>
        (notifying (pt_pc (locs s ! t)) \<longleftrightarrow> t = 0))"

lemma meet_inv_start: "meet_start F tid n s \<Longrightarrow> meet_inv n s"
  by (auto simp: meet_start_def meet_inv_def meet_glob_def meet_ok_def stage_of_def cv_idle_def cv_new_def
    m1_new_def m1_fresh_def m1_outside_def nth_Cons split: nat.splits)

lemma meet_start_bound: "reachable (meet_prog F tid c) (meet_start F tid n) s \<Longrightarrow> futex_ok F \<and> Suc n < 2 ^ 32"
  by (induction rule: reachable.induct) (auto simp: meet_start_def)

lemma meet_inv_pre:
  assumes reach: "reachable (meet_prog F tid c) (meet_start F tid n) s" and inv: "meet_inv n s"
    and t: "t < length (locs s)"
  shows "meet_pre F tid t (stage_of (locs s ! 0)) (glob s) (locs s ! t)"
proof -
  note cv = meet_cv.view_reachable [OF reach]
  have "cv_waiting (cv_var (mt_cv (glob s))) = 0 \<longrightarrow> waiters (cv_counter (cv_var (mt_cv (glob s)))) = []"
    using cv_waiting_pos [OF cv] meet_start_bound [OF reach] inv by (auto simp: sys_view_def meet_inv_def)
  moreover have "\<exists>S. reachable (m1_prog tid) (m1_start tid) S \<and> t < length (locs S) \<and>
      glob S = cv_mutex (mt_cv (glob s)) \<and> locs S ! t = cv_m1 (pt_cv (locs s ! t))"
    using cv_mutex_reachable [OF cv] t
    by (intro exI [of _ "cv_mutex_view (sys_view mt_cv pt_cv s)"]) (simp add: cv_mutex_view_def sys_view_def)
  moreover have "futex_ok F" using meet_start_bound [OF reach] by simp
  ultimately show ?thesis
    using inv t unfolding meet_pre_def meet_inv_def by blast
qed

lemma meet_invariant:
  "reachable (meet_prog F tid c) (meet_start F tid n) s \<Longrightarrow> meet_inv n s"
proof (induction rule: reachable.induct)
  case (reachable_init s)
  then show ?case by (rule meet_inv_start)
next
  case (reachable_step s a s')
  let ?t = "fst a" let ?w = "locs s ! fst a" let ?st = "stage_of (locs s ! 0)"
  from reachable_step.hyps(2) obtain g' w' where t: "?t < length (locs s)"
    and step: "meet_prog F tid c (snd a) ?t (glob s) ?w = Some (g', w')"
    and s': "s' = \<lparr>glob = g', locs = (locs s)[?t := w']\<rparr>" by (rule sys_step_SomeE)
  let ?st' = "stage_after ?st w'"
  from meet_prog_effect [OF meet_inv_pre [OF reachable_step.hyps(1) reachable_step.IH t] step]
  have glob: "meet_glob ?st' g'" and ok: "meet_ok ?st' w'"
    and not: "notifying (pt_pc w') \<longleftrightarrow> notifying (pt_pc ?w)" and le: "?st \<le> ?st'"
    and left: "?st = 0 \<Longrightarrow> 0 < ?st' \<Longrightarrow> m1_inside (cv_m1 (pt_cv ?w))"
    unfolding meet_effect_def by blast+
  from reachable_step.IH have n: "length (locs s) = Suc n"
    and oks: "\<And>u. u < length (locs s) \<Longrightarrow> meet_ok ?st (locs s ! u)"
    and nots: "\<And>u. u < length (locs s) \<Longrightarrow> notifying (pt_pc (locs s ! u)) \<longleftrightarrow> u = 0"
    unfolding meet_inv_def by blast+
  have st': "stage_of ((locs s)[?t := w'] ! 0) = ?st'"
    using not nots [OF t] t by (cases "?t = 0") (simp_all add: stage_after_def)
  have others: "meet_ok ?st' (locs s ! u)" if u: "u < length (locs s)" "u \<noteq> ?t" for u
  proof (rule meet_ok_mono [OF oks [OF u(1)] le])
    assume "?st = 0" "0 < ?st'"
    with left have "m1_owns (cv_m1 (pt_cv ?w))" by (simp add: m1_inside_def m1_owns_def)
    moreover note m1_lock.holders_equal [OF cv_mutex_reachable [OF meet_cv.view_reachable
      [OF reachable_step.hyps(1)]], of ?t u]
    ultimately show "\<not> m1_inside (cv_m1 (pt_cv (locs s ! u)))"
      using t u by (auto simp: cv_mutex_view_def sys_view_def m1_inside_def m1_owns_def)
  qed
  have "meet_ok ?st' ((locs s)[?t := w'] ! u) \<and> (notifying (pt_pc ((locs s)[?t := w'] ! u)) \<longleftrightarrow> u = 0)"
    if "u < length (locs s)" for u
    using ok not nots [OF t] t others [OF that] nots [OF that] by (cases "u = ?t") simp_all
  with glob n st' show ?case unfolding meet_inv_def s' by simp
qed

section \<open>Properties\<close>

text \<open>
  C33: A notification reaches every waiter.  With one thread that sets the data under the mutex and calls \<open>notify_all\<close>, and any number of threads that
  wait in a loop for the data: once \<open>notify_all\<close> has returned, no thread is blocked on the
  condition variable, and a thread that was can go on; no \<open>unwrap\<close> and no assertion ever fails; and a
  thread that has left its loop finds the data set.\<close>

theorem cv_notification_reaches_all:
  assumes "reachable (meet_prog F tid c) (meet_start F tid n) s"
  shows "(pt_pc (locs s ! 0) \<in> {PN_unlock, PN_done} \<longrightarrow>
      waiters (cv_counter (cv_var (mt_cv (glob s)))) = [] \<and>
      (\<forall>t < length (locs s). \<forall>e. pt_pc (locs s ! t) = PW_wait \<longrightarrow>
        cv_pc (pt_cv (locs s ! t)) = CV_wait CW_blocked \<longrightarrow> sys_step (meet_prog F tid c) (t, e) s \<noteq> None)) \<and>
    (\<forall>w \<in> set (locs s). pt_pc w \<noteq> P_panicked \<and>
      (pt_pc w \<in> {PW_assert, PW_unlock, PW_done} \<longrightarrow> cv_data (mt_cv (glob s)) = 1))"
proof -
  let ?st = "stage_of (locs s ! 0)"
  from meet_invariant [OF assms] have glob: "meet_glob ?st (glob s)"
    and ok: "\<And>t. t < length (locs s) \<Longrightarrow> meet_ok ?st (locs s ! t)" unfolding meet_inv_def by blast+
  have "waiters (cv_counter (cv_var (mt_cv (glob s)))) = []" if "pt_pc (locs s ! 0) \<in> {PN_unlock, PN_done}"
    using glob that by (auto simp: meet_glob_def stage_of_def)
  then have "waiters (cv_counter (cv_var (mt_cv (glob s)))) = [] \<and>
      (\<forall>t < length (locs s). \<forall>e. pt_pc (locs s ! t) = PW_wait \<longrightarrow>
        cv_pc (pt_cv (locs s ! t)) = CV_wait CW_blocked \<longrightarrow> sys_step (meet_prog F tid c) (t, e) s \<noteq> None)"
    if "pt_pc (locs s ! 0) \<in> {PN_unlock, PN_done}"
    using that by (simp add: sys_step_def meet_prog_def meet_call_def cv_prog_def futex_return_def)
  moreover have "pt_pc w \<noteq> P_panicked \<and> (pt_pc w \<in> {PW_assert, PW_unlock, PW_done} \<longrightarrow>
      cv_data (mt_cv (glob s)) = 1)" if "w \<in> set (locs s)" for w
  proof -
    from that ok have "meet_ok ?st w" by (auto simp: in_set_conv_nth)
    with glob show ?thesis by (auto simp: meet_ok_def meet_glob_def Suc_le_eq)
  qed
  ultimately show ?thesis by blast
qed

text \<open>One waiter, blocked when the notifier comes; the notifier has notified all.\<close>

definition meet_two :: "(meeting, party) sys" where
  "meet_two = \<lparr>glob = \<lparr>mt_cv = \<lparr>cv_var = cv_new, cv_mutex = m1_new 0\<rparr>, mt_ready = 0\<rparr>,
     locs = [\<lparr>pt_pc = PN_spin, pt_cv = cv_idle\<rparr>, \<lparr>pt_pc = PW_lock, pt_cv = cv_idle\<rparr>]\<rparr>"

lemma meet_two_reachable:
  "reachable (meet_prog fifo_futex tid_succ 1) (meet_start fifo_futex tid_succ 1) meet_two"
proof (rule reachable_init)
  have "m1_new 0 = (m1_new (0 :: int))\<lparr>park_tokens := {}\<rparr>" by (simp add: m1_new_def)
  moreover have "tid_ok tid_succ (Suc 1)" by (rule tid_succ_ok) simp
  ultimately show "meet_start fifo_futex tid_succ 1 meet_two"
    unfolding meet_start_def meet_two_def using fifo_futex_ok by auto
qed

theorem cv_notification_reaches_all_witness:
  "\<exists>s. run (meet_prog fifo_futex tid_succ 1)
      (replicate 18 (1, quiet ()) @ replicate 11 (0, quiet ())) meet_two = Some s \<and>
    cv_pc (pt_cv (locs s ! 1)) = CV_wait CW_blocked \<and>
    sys_step (meet_prog fifo_futex tid_succ 1) (1, quiet ()) s \<noteq> None"
proof -
  let ?as = "replicate 18 (1 :: nat, quiet ()) @ replicate 11 (0, quiet ())"
  obtain s where run: "run (meet_prog fifo_futex tid_succ 1) ?as meet_two = Some s"
    and pcs: "pt_pc (locs s ! 0) = PN_unlock" "pt_pc (locs s ! 1) = PW_wait" "1 < length (locs s)"
      "cv_pc (pt_cv (locs s ! 1)) = CV_wait CW_blocked"
    by (simp add: cv_run_eval meet_prog_def meet_call_def meet_unwrap_def cv_returned_def meet_two_def)
  have "sys_step (meet_prog fifo_futex tid_succ 1) (1, quiet ()) s \<noteq> None"
    using cv_notification_reaches_all [OF run_reachable [OF meet_two_reachable run]] pcs by simp
  with run pcs show ?thesis by blast
qed

end
