(* ===== verification/RingUse.thy ===== *)
theory RingUse
  imports RingBuffer Embedding "HOL-Library.Multiset"
begin

text \<open>
  The threads of \<open>test_high_contention_try_push\<close> of \<open>src/utils/ring_buffer.rs\<close>: each has a list of values and calls
  \<open>try_push\<close> for each of them until it succeeds; nobody pops meanwhile.  Whatever the threads do to each
  other's compare-exchanges, in the end the buffer holds what was pushed, each value once.
\<close>

section \<open>The client threads\<close>

record 'a pusher =
  ps_todo :: "'a list"
  ps_rb :: "'a rb_thread"

text \<open>\<open>while buffer.try_push(i).is_err() { yield_now() }\<close> for each value.\<close>

definition pusher_prog :: "bool \<Rightarrow> (unit, 'a ring, 'a pusher) program" where
  "pusher_prog checks e t r w =
     (case ps_todo w of
        [] \<Rightarrow> None
      | v # vs \<Rightarrow>
          (case rb_prog checks (with_call (Rb_op_try_push v) e) t r (ps_rb w) of
             None \<Rightarrow> None
           | Some (r', l') \<Rightarrow> Some (r', w\<lparr>ps_rb := l', ps_todo :=
               (if rb_pc l' = Rb_idle \<and> rb_last l' = Some (Push_result (Inr ())) then vs else v # vs)\<rparr>)))"

definition pusher_start :: "nat \<Rightarrow> 'a list list \<Rightarrow> ('a ring, 'a pusher) sys \<Rightarrow> bool" where
  "pusher_start k todos s \<longleftrightarrow> k < 64 \<and> rb_new (2 ^ k) = Some (glob s) \<and>
     locs s = map (\<lambda>vs. \<lparr>ps_todo = vs, ps_rb = rb_idle\<rparr>) todos"

lemma pusher_simulates:
  "pusher_prog checks e t r w = Some (r', w') \<Longrightarrow>
    id r' = id r \<and> ps_rb w' = ps_rb w \<or> (\<exists>e'. rb_prog checks e' t (id r) (ps_rb w) = Some (id r', ps_rb w'))"
  by (auto simp: pusher_prog_def split: list.splits option.splits)

lemma pusher_start_view: "pusher_start k todos s \<Longrightarrow> k < 64 \<and> rb_init k (sys_view id ps_rb s)"
  by (auto simp: pusher_start_def rb_init_def sys_view_def comp_def map_replicate_const)

interpretation pushers: embedding "pusher_prog checks" "pusher_start k todos" "rb_prog checks"
    "\<lambda>s. k < 64 \<and> rb_init k s" id ps_rb
  for checks :: bool and k :: nat and todos :: "'a list list"
  by unfold_locales (fact pusher_simulates, fact pusher_start_view)

section \<open>Invariant\<close>

text \<open>A thread inside \<open>try_push\<close> pushes the first of its values, and no thread panics.\<close>

definition pusher_ok :: "'a pusher \<Rightarrow> bool" where
  "pusher_ok w \<longleftrightarrow> rb_pc (ps_rb w) = Rb_idle \<or>
     (\<exists>v vs p. ps_todo w = v # vs \<and> rb_pc (ps_rb w) = Rb_try_push v p)"

text \<open>The values for which a thread has not yet reserved a slot.\<close>

definition unsent :: "'a pusher \<Rightarrow> 'a list" where
  "unsent w = (if rb_pending (rb_pc (ps_rb w)) = None then ps_todo w else tl (ps_todo w))"

definition pusher_effect :: "'a ring \<Rightarrow> 'a pusher \<Rightarrow> 'a ring \<Rightarrow> 'a pusher \<Rightarrow> bool" where
  "pusher_effect r w r' w' \<longleftrightarrow> pusher_ok w' \<and> hist_popped r' = [] \<and> (hist_raced r' \<longleftrightarrow> hist_raced r) \<and>
     (let p = rb_pending (rb_pc (ps_rb w)); p' = rb_pending (rb_pc (ps_rb w')) in
      hist_pushed r' = hist_pushed r \<and> hist_written r' = hist_written r \<and> unsent w' = unsent w \<and> p' = p \<or>
      (\<exists>v. hist_pushed r' = hist_pushed r @ [v] \<and> hist_written r' = hist_written r \<and>
        unsent w = v # unsent w' \<and> p = None \<and> p' = Some (length (hist_pushed r))) \<or>
      (\<exists>h. hist_pushed r' = hist_pushed r \<and> hist_written r' = insert h (hist_written r) \<and>
        unsent w' = unsent w \<and> p = Some h \<and> p' = None))"

lemma pusher_prog_effect:
  assumes step: "pusher_prog checks e t r w = Some (r', w')" and ok: "pusher_ok w"
    and core: "rb_core k r" and rb: "rb_ok r (rb_pc (ps_rb w))" and popped: "hist_popped r = []"
  shows "pusher_effect r w r' w'"
proof -
  from step obtain v vs where todo: "ps_todo w = v # vs" by (auto simp: pusher_prog_def split: list.splits)
  from core popped have r: "unat (tail r) = 0" "unat (head r) = length (hist_pushed r)"
    "rb_size r = 2 ^ k" "k < 64" by (simp_all add: rb_core_def)
  from r(4) have "(2 :: nat) ^ k < 2 ^ 64 - 1"
    using power_increasing [of k 63 "2 :: nat"] by simp
  then have small: "h \<noteq> USIZE_MAX" if "unat h < 2 ^ k" for h :: usize
    using that by (auto simp: unat_USIZE_MAX)
  show ?thesis
  proof (cases "rb_pc (ps_rb w)")
    case Rb_idle
    with step todo popped show ?thesis
      by (auto simp: pusher_prog_def rb_prog_def pusher_effect_def pusher_ok_def unsent_def Let_def)
  next
    case (Rb_try_push u p)
    with ok todo have "u = v" by (auto simp: pusher_ok_def)
    with Rb_try_push step todo popped rb r small show ?thesis
      by (cases p) (auto simp: pusher_prog_def rb_prog_def pusher_effect_def pusher_ok_def unsent_def Let_def
        rb_access_defs sub_overflows_def inc_overflows_def split: if_splits)
  qed (use ok in \<open>auto simp: pusher_ok_def\<close>)
qed

definition pushers_inv :: "'a list list \<Rightarrow> ('a ring, 'a pusher) sys \<Rightarrow> bool" where
  "pushers_inv todos s \<longleftrightarrow>
     (\<forall>w \<in> set (locs s). pusher_ok w) \<and> hist_popped (glob s) = [] \<and> \<not> hist_raced (glob s) \<and>
     length (hist_pushed (glob s)) < 2 ^ 64 \<and>
     (\<forall>i < length (hist_pushed (glob s)). i \<in> hist_written (glob s) \<or>
       (\<exists>t < length (locs s). rb_pending (rb_pc (ps_rb (locs s ! t))) = Some i)) \<and>
     mset (hist_pushed (glob s)) + sum_list (map (\<lambda>w. mset (unsent w)) (locs s)) = sum_list (map mset todos)"

lemma pushers_inv_start:
  assumes "pusher_start k todos s"
  shows "pushers_inv todos s"
proof -
  from assms have "glob s = rb_empty (2 ^ k)" by (auto simp: pusher_start_def rb_new_def split: if_splits)
  with assms show ?thesis
    by (auto simp: pusher_start_def pushers_inv_def rb_empty_def pusher_ok_def unsent_def rb_idle_def comp_def)
qed

lemma pushers_inv_step:
  assumes inv: "pushers_inv todos s" and reach: "rb_inv k (sys_view id ps_rb s)"
    and step: "sys_step (pusher_prog checks) a s = Some s'"
  shows "pushers_inv todos s'"
proof -
  let ?t = "fst a" let ?w = "locs s ! fst a" let ?g = "glob s"
  from step obtain g' w' where t: "?t < length (locs s)"
    and prog: "pusher_prog checks (snd a) ?t ?g ?w = Some (g', w')"
    and s': "s' = \<lparr>glob = g', locs = (locs s)[?t := w']\<rparr>" by (rule sys_step_SomeE)
  from inv have inv': "\<forall>w \<in> set (locs s). pusher_ok w" "hist_popped ?g = []" "\<not> hist_raced ?g"
    "length (hist_pushed ?g) < 2 ^ 64"
    "\<And>i. i < length (hist_pushed ?g) \<Longrightarrow> i \<in> hist_written ?g \<or>
      (\<exists>t < length (locs s). rb_pending (rb_pc (ps_rb (locs s ! t))) = Some i)"
    "mset (hist_pushed ?g) + sum_list (map (\<lambda>w. mset (unsent w)) (locs s)) = sum_list (map mset todos)"
    by (auto simp: pushers_inv_def)
  have core: "rb_core k ?g" and ok: "rb_ok ?g (rb_pc (ps_rb ?w))"
    using reach inv'(4) t by (auto simp: rb_inv_def sys_view_def each_def)
  have eff: "pusher_effect ?g ?w g' w'"
    using prog inv'(1) t core ok inv'(2) by (intro pusher_prog_effect) auto
  from core inv'(2) have "length (hist_pushed ?g) \<le> 2 ^ k" "k < 64" by (auto simp: rb_core_def)
  then have room: "length (hist_pushed ?g) \<le> 2 ^ 63"
    using power_increasing [of k 63 "2 :: nat"] by simp
  let ?u = "\<lambda>w. mset (unsent w)"
  have "\<forall>w \<in> set (locs s'). pusher_ok w"
    using inv'(1) eff set_update_subset_insert [of "locs s" ?t w'] by (auto simp: s' pusher_effect_def)
  moreover have "hist_popped g' = []" "\<not> hist_raced g'" using eff inv'(3) by (auto simp: pusher_effect_def)
  moreover have "length (hist_pushed g') < 2 ^ 64"
    using eff room by (auto simp: pusher_effect_def Let_def)
  moreover have "i \<in> hist_written g' \<or>
      (\<exists>t < length (locs s). rb_pending (rb_pc (ps_rb ((locs s)[?t := w'] ! t))) = Some i)"
    if i: "i < length (hist_pushed g')" for i
  proof (cases "i < length (hist_pushed ?g)")
    case True
    show ?thesis
    proof (cases "i \<in> hist_written ?g")
      case True
      with eff show ?thesis by (auto simp: pusher_effect_def Let_def)
    next
      case False
      with inv'(5) [OF True] obtain u where u: "u < length (locs s)"
        "rb_pending (rb_pc (ps_rb (locs s ! u))) = Some i" by blast
      show ?thesis
      proof (cases "u = ?t")
        case True
        with u eff t show ?thesis
          by (auto simp: pusher_effect_def Let_def intro!: exI [of _ ?t])
      next
        case False
        with u show ?thesis by (intro disjI2 exI [of _ u]) simp
      qed
    qed
  next
    case False
    with i eff have "rb_pending (rb_pc (ps_rb w')) = Some i"
      by (auto simp: pusher_effect_def Let_def less_Suc_eq)
    with t show ?thesis by (intro disjI2 exI [of _ ?t]) simp
  qed
  moreover have "mset (hist_pushed g') + sum_list (map ?u ((locs s)[?t := w'])) = sum_list (map mset todos)"
  proof -
    have "mset (hist_pushed g') + ?u w' = mset (hist_pushed ?g) + ?u ?w"
      using eff by (auto simp: pusher_effect_def Let_def)
    then have "(mset (hist_pushed g') + ?u w') + (sum_list (map ?u ((locs s)[?t := w'])) + ?u ?w) =
        (mset (hist_pushed ?g) + ?u ?w) + (sum_list (map ?u (locs s)) + ?u w')"
      using sum_list_map_update [OF t, of ?u w'] by (simp only:)
    then have "mset (hist_pushed g') + sum_list (map ?u ((locs s)[?t := w'])) =
        mset (hist_pushed ?g) + sum_list (map ?u (locs s))" by (simp add: ac_simps)
    with inv'(6) show ?thesis by simp
  qed
  ultimately show ?thesis by (simp add: pushers_inv_def s')
qed

lemma pushers_invariant:
  "reachable (pusher_prog checks) (pusher_start k todos) s \<Longrightarrow> pushers_inv todos s"
proof (induction rule: reachable.induct)
  case (reachable_step s a s')
  with rb_sys.reachable_inv [OF pushers.view_reachable [OF reachable_step.hyps(1)]] show ?case
    using pushers_inv_step by blast
qed (rule pushers_inv_start)

text \<open>Sums of multisets.\<close>

lemma size_sum_list_mset: "size (sum_list (map mset xss)) = length (concat xss)"
  by (induction xss) auto

lemma sum_list_mset_nonempty:
  "t < length ws \<Longrightarrow> f (ws ! t) \<noteq> [] \<Longrightarrow> 0 < size (sum_list (map (\<lambda>w. mset (f w)) ws))"
proof (induction ws arbitrary: t)
  case (Cons w ws)
  then show ?case by (cases t) (auto simp: nonempty_has_size)
qed simp

section \<open>Progress\<close>

text \<open>The steps a thread takes alone until its next value is in the buffer, if there is room.\<close>

definition pusher_rank :: "'a ring \<Rightarrow> 'a pusher \<Rightarrow> nat" where
  "pusher_rank r w =
     (case rb_pc (ps_rb w) of
        Rb_try_push v p \<Rightarrow>
          (case p of PU_tail \<Rightarrow> 4 | PU_head _ \<Rightarrow> 3 | PU_cas h \<Rightarrow> (if h = head r then 2 else 6) | PU_write _ \<Rightarrow> 1)
      | _ \<Rightarrow> 5)"

definition has_room :: "nat \<Rightarrow> 'a ring \<Rightarrow> 'a pusher \<Rightarrow> bool" where
  "has_room k r w \<longleftrightarrow> rb_pending (rb_pc (ps_rb w)) \<noteq> None \<or> length (hist_pushed r) < 2 ^ k"

lemma pusher_advances:
  assumes todo: "ps_todo w \<noteq> []" and ok: "pusher_ok w" and room: "has_room k r w"
    and core: "rb_core k r" and rb: "rb_ok r (rb_pc (ps_rb w))" and popped: "hist_popped r = []"
  shows "\<exists>r' w'. pusher_prog checks (quiet ()) t r w = Some (r', w') \<and>
    (length (ps_todo w') < length (ps_todo w) \<or>
     length (ps_todo w') = length (ps_todo w) \<and> has_room k r' w' \<and> pusher_rank r' w' < pusher_rank r w)"
proof -
  from todo obtain v vs where todo: "ps_todo w = v # vs" by (cases "ps_todo w") auto
  from core popped have r: "tail r = 0" "unat (head r) = length (hist_pushed r)" "rb_size r = 2 ^ k" "k < 64"
    by (simp_all add: rb_core_def unat_eq_0)
  from r(4) have "(2 :: nat) ^ k < 2 ^ 64 - 1" using power_increasing [of k 63 "2 :: nat"] by simp
  then have small: "h \<noteq> USIZE_MAX" if "unat h < 2 ^ k" for h :: usize using that by (auto simp: unat_USIZE_MAX)
  show ?thesis
  proof (cases "rb_pc (ps_rb w)")
    case Rb_idle
    with todo room show ?thesis by (simp add: pusher_prog_def rb_prog_def pusher_rank_def has_room_def)
  next
    case (Rb_try_push u p)
    with ok todo have "u = v" by (auto simp: pusher_ok_def)
    with Rb_try_push todo rb r room small show ?thesis
      by (cases p) (auto simp: pusher_prog_def rb_prog_def pusher_rank_def has_room_def rb_access_defs
        sub_overflows_def inc_overflows_def unat_eq_0)
  qed (use ok in \<open>auto simp: pusher_ok_def\<close>)
qed

lemma pusher_visit:
  assumes reach: "reachable (pusher_prog checks) (pusher_start k todos) s"
    and t: "t < length (locs s)" and todo: "ps_todo (locs s ! t) \<noteq> []" and room: "has_room k (glob s) (locs s ! t)"
  shows "\<exists>s'. can_reach (pusher_prog checks) s s' \<and>
    sum_list (map (length \<circ> ps_todo) (locs s')) < sum_list (map (length \<circ> ps_todo) (locs s))"
proof -
  let ?n = "length \<circ> ps_todo"
  define m where "m = ?n (locs s ! t)"
  have "\<exists>g' w'. can_reach (pusher_prog checks) s \<lparr>glob = g', locs = (locs s)[t := w']\<rparr> \<and> ?n w' < m"
  proof (rule can_reach_alone [where way = "\<lambda>g w. ?n w = m \<and> has_room k g w" and dist = pusher_rank, OF _ reach t])
    fix s
    assume s: "reachable (pusher_prog checks) (pusher_start k todos) s" "t < length (locs s)"
      and way: "?n (locs s ! t) = m \<and> has_room k (glob s) (locs s ! t)"
    from todo have "m \<noteq> 0" by (simp add: m_def)
    with way have "ps_todo (locs s ! t) \<noteq> []" by auto
    moreover have "pushers_inv todos s" using s(1) by (rule pushers_invariant)
    moreover from this have "rb_core k (glob s)" "rb_ok (glob s) (rb_pc (ps_rb (locs s ! t)))"
      using rb_sys.reachable_inv [OF pushers.view_reachable [OF s(1)]] s(2)
      by (auto simp: rb_inv_def sys_view_def pushers_inv_def each_def)
    ultimately show "\<exists>e g' w'. pusher_prog checks e t (glob s) (locs s ! t) = Some (g', w') \<and>
        (?n w' < m \<or> (?n w' = m \<and> has_room k g' w') \<and> pusher_rank g' w' < pusher_rank (glob s) (locs s ! t))"
      using pusher_advances [of "locs s ! t" k "glob s" checks t] way s(2) by (fastforce simp: pushers_inv_def)
  qed (simp add: m_def room)
  then obtain g' w' where "can_reach (pusher_prog checks) s \<lparr>glob = g', locs = (locs s)[t := w']\<rparr>"
    and "?n w' < ?n (locs s ! t)" by (auto simp: m_def)
  with t show ?thesis
    by (intro exI [of _ "\<lparr>glob = g', locs = (locs s)[t := w']\<rparr>"]) (simp add: sum_list_map_update_less del: comp_apply)
qed

text \<open>If the values fit into the buffer, the threads can always finish.\<close>

lemma pushers_complete:
  assumes "reachable (pusher_prog checks) (pusher_start k todos) s" and fits: "length (concat todos) \<le> 2 ^ k"
  shows "\<exists>s'. can_reach (pusher_prog checks) s s' \<and> (\<forall>w \<in> set (locs s'). ps_todo w = [])"
proof (rule can_reach_closer [where way = "\<lambda>_. True" and dist = "\<lambda>s. sum_list (map (length \<circ> ps_todo) (locs s))", OF _ assms(1)])
  fix s
  assume s: "reachable (pusher_prog checks) (pusher_start k todos) s"
  have inv: "pushers_inv todos s" using s by (rule pushers_invariant)
  show "\<exists>s'. can_reach (pusher_prog checks) s s' \<and> ((\<forall>w \<in> set (locs s'). ps_todo w = []) \<or>
      True \<and> sum_list (map (length \<circ> ps_todo) (locs s')) < sum_list (map (length \<circ> ps_todo) (locs s)))"
  proof (cases "\<forall>w \<in> set (locs s). ps_todo w = []")
    case False
    then obtain t where t: "t < length (locs s)" "ps_todo (locs s ! t) \<noteq> []" by (auto simp: in_set_conv_nth)
    have "has_room k (glob s) (locs s ! t)"
    proof (rule ccontr)
      assume no: "\<not> has_room k (glob s) (locs s ! t)"
      then have full: "2 ^ k \<le> length (hist_pushed (glob s))" and "unsent (locs s ! t) \<noteq> []"
        using t(2) by (auto simp: has_room_def unsent_def)
      then have "0 < size (sum_list (map (\<lambda>w. mset (unsent w)) (locs s)))"
        using t(1) by (auto simp: sum_list_mset_nonempty)
      moreover have "size (mset (hist_pushed (glob s)) + sum_list (map (\<lambda>w. mset (unsent w)) (locs s))) =
          length (concat todos)"
        using inv by (simp add: pushers_inv_def size_sum_list_mset)
      ultimately show False using full fits by simp
    qed
    with pusher_visit [OF s t] show ?thesis by blast
  qed blast
qed simp

section \<open>Draining the buffer\<close>

text \<open>
  \<open>while let Some(val) = buffer.try_pop()\<close>, with the values it sees.  The list says of each call of \<open>try_pop\<close>
  whether its weak exchange fails spuriously; there is no result when the list is too short, a
  call panics, or an uninitialised slot is read.
\<close>

fun drain :: "bool \<Rightarrow> bool list \<Rightarrow> 'a ring \<Rightarrow> ('a ring \<times> 'a list) option" where
  "drain checks [] r = None"
| "drain checks (weak # fails) r =
     (case rb_try_pop_alone checks weak r of
        Returns r' None \<Rightarrow> Some (r', [])
      | Returns r' (Some (Init v)) \<Rightarrow> map_option (\<lambda>(r'', vs). (r'', v # vs)) (drain checks fails r')
      | _ \<Rightarrow> None)"

lemma rb_try_pop_alone_empty: "rb_length r = 0 \<Longrightarrow> rb_try_pop_alone checks weak r = Returns r None"
  by (simp add: rb_try_pop_alone_def solo_numeral rb_length_def unat_eq_0)

lemma rb_try_pop_alone_some:
  assumes ready: "rb_ready checks 0 r" and c: "rb_contents r = x # xs"
  shows "rb_try_pop_alone checks weak r =
    (if weak then Returns (rb_discard (Init x) (rb_note_read (tail r) r)) None
     else Returns (rb_popped (Init x) r) (Some (Init x)))"
proof -
  from ready have wf: "rb_wf r" by (simp add: rb_ready_def)
  have ne: "head r \<noteq> tail r" using c rb_length_contents [OF wf] by (auto simp: rb_length_def)
  have x: "buffer r ! (unat (tail r) mod rb_size r) = Init x"
    using rb_wf_popped [OF wf c] by (simp add: rb_slot_def)
  have "\<not> inc_overflows checks (tail r)"
  proof
    assume "inc_overflows checks (tail r)"
    then have "checks" "tail r = USIZE_MAX" by (simp_all add: inc_overflows_def)
    with ready have "USIZE_MAX \<le> head r" by (simp add: rb_ready_def word_le_nat_alt)
    with ne \<open>tail r = USIZE_MAX\<close> show False by (simp add: word_order.extremum_unique)
  qed
  with ne x show ?thesis
    by (simp add: rb_try_pop_alone_def solo_numeral idx_mod_def rb_popped_def rb_note_read_def)
qed

lemma rb_discard_contents:
  "rb_contents (rb_discard v (rb_note_read i r)) = rb_contents r"
  "rb_wf (rb_discard v (rb_note_read i r)) \<longleftrightarrow> rb_wf r"
  by (simp_all add: rb_discard_def rb_note_read_def rb_contents_def rb_slots_def rb_length_def rb_slot_def
      rb_wf_def comp_def)

text \<open>The loop takes the oldest values up to the first spurious failure and leaves the rest.\<close>

lemma drain_takes:
  "rb_ready checks 0 r \<Longrightarrow> length (rb_contents r) < length fails \<Longrightarrow>
    \<exists>r'. drain checks fails r = Some (r', take (length (takeWhile Not fails)) (rb_contents r)) \<and>
      rb_wf r' \<and> rb_contents r' = drop (length (takeWhile Not fails)) (rb_contents r)"
proof (induction fails arbitrary: r)
  case (Cons weak fails)
  then have wf: "rb_wf r" by (simp add: rb_ready_def)
  show ?case
  proof (cases "rb_contents r")
    case Nil
    with wf rb_length_contents [OF wf] show ?thesis by (simp add: rb_try_pop_alone_empty)
  next
    case (Cons x xs)
    note pop = rb_try_pop_alone_some [OF Cons.prems(1) Cons]
    show ?thesis
    proof (cases weak)
      case True
      with wf Cons show ?thesis by (simp add: pop rb_discard_contents)
    next
      case False
      have "rb_ready checks 0 (rb_popped (Init x) r)" "rb_contents (rb_popped (Init x) r) = xs"
        using rb_ready_popped [OF Cons.prems(1) Cons] rb_wf_popped [OF wf Cons] by blast+
      with Cons.IH [of "rb_popped (Init x) r"] Cons.prems(2) False Cons show ?thesis by (auto simp: pop)
    qed
  qed
qed simp

lemma take_all_Not: "True \<notin> set (take n bs) \<Longrightarrow> n \<le> length bs \<Longrightarrow> n \<le> length (takeWhile Not bs)"
proof (induction bs arbitrary: n)
  case (Cons b bs)
  then show ?case by (cases n) auto
qed simp

lemma sum_list_mset_concat: "sum_mset (sum_list (map mset xss)) = sum_list (map sum_list xss)"
  by (induction xss) (auto simp: sum_mset_sum_list)

section \<open>Properties\<close>

text \<open>The buffer when all threads are done.\<close>

lemma pushers_done:
  assumes "reachable (pusher_prog checks) (pusher_start k todos) s" and "\<forall>w \<in> set (locs s). ps_todo w = []"
  shows "rb_ready checks 0 (glob s) \<and> mset (rb_contents (glob s)) = sum_list (map mset todos)"
proof -
  let ?g = "glob s"
  have inv: "pushers_inv todos s" using assms(1) by (rule pushers_invariant)
  have idle: "rb_pc (ps_rb (locs s ! t)) = Rb_idle" if "t < length (locs s)" for t
    using inv assms(2) nth_mem [OF that] by (auto simp: pushers_inv_def pusher_ok_def)
  have core: "rb_core k ?g"
    using rb_sys.reachable_inv [OF pushers.view_reachable [OF assms(1)]] inv
    by (auto simp: rb_inv_def sys_view_def pushers_inv_def)
  have written: "{..<length (hist_pushed ?g)} \<subseteq> hist_written ?g"
    using inv idle by (fastforce simp: pushers_inv_def)
  from core inv have g: "k < 64" "rb_size ?g = 2 ^ k" "unat (tail ?g) = 0" "unat (head ?g) = length (hist_pushed ?g)"
    "length (hist_pushed ?g) \<le> 2 ^ k" "\<not> hist_raced ?g" by (auto simp: rb_core_def pushers_inv_def)
  from g(3) have "tail ?g = 0" by (simp add: unat_eq_0)
  then have len: "rb_length ?g = length (hist_pushed ?g)" using g(4) by (simp add: rb_length_def)
  have "rb_slots ?g = map Init (hist_pushed ?g)"
  proof (rule nth_equalityI)
    fix i
    assume "i < length (rb_slots ?g)"
    then have i: "i < length (hist_pushed ?g)" by (simp add: rb_slots_def len)
    with written have "i \<in> hist_written ?g" by blast
    then have "buffer ?g ! (i mod 2 ^ k) = Init (hist_pushed ?g ! i)"
      using core g(3,6) by (simp add: rb_core_def)
    then show "rb_slots ?g ! i = map Init (hist_pushed ?g) ! i"
      using i g(2,3) by (simp add: rb_slots_def len rb_slot_def)
  qed (simp add: rb_slots_def len)
  then have contents: "rb_contents ?g = hist_pushed ?g" and "Uninit \<notin> set (rb_slots ?g)"
    by (simp_all add: rb_contents_eqI image_iff)
  then have wf: "rb_wf ?g" using g len by (auto simp: rb_wf_def)
  have "sum_list (map (\<lambda>w. mset (unsent w)) ws) = {#}" if "\<forall>w \<in> set ws. ps_todo w = []" for ws :: "'a pusher list"
    using that by (induction ws) (auto simp: unsent_def)
  with assms(2) inv contents have "mset (rb_contents ?g) = sum_list (map mset todos)" by (auto simp: pushers_inv_def)
  moreover have "rb_ready checks 0 ?g"
    using wf g(3) unsigned_less [where 'a = nat, of "head ?g"] by (simp add: rb_ready_def)
  ultimately show ?thesis by blast
qed

text \<open>
  C15: Concurrent pushes arrive.  When any number of threads have each pushed their values with \<open>try_push\<close>,
  repeating a call that failed, the buffer is well-formed and holds the values of all threads, each once, in some
  order, in builds with and without overflow checks.  The loop of the test, which calls \<open>try_pop\<close> until it returns
  nothing, then sees the oldest of these values up to the first call whose weak exchange fails spuriously, and the others stay in the
  buffer.  If no exchange fails while the buffer is not empty, the loop sees every value once, leaves the buffer empty, and
  the sum that the test computes is the sum of what was pushed.\<close>

theorem rb_pushes_arrive:
  fixes s :: "('a :: comm_monoid_add ring, 'a pusher) sys"
  assumes "reachable (pusher_prog checks) (pusher_start k todos) s" and "\<forall>w \<in> set (locs s). ps_todo w = []"
    and "length (rb_contents (glob s)) < length fails"
  shows "rb_wf (glob s) \<and> mset (rb_contents (glob s)) = sum_list (map mset todos) \<and>
    (\<exists>r' vs. drain checks fails (glob s) = Some (r', vs) \<and> rb_wf r' \<and>
      vs = take (length (takeWhile Not fails)) (rb_contents (glob s)) \<and> vs @ rb_contents r' = rb_contents (glob s) \<and>
      (True \<notin> set (take (length (rb_contents (glob s))) fails) \<longrightarrow>
        mset vs = sum_list (map mset todos) \<and> rb_contents r' = [] \<and> sum_list vs = sum_list (map sum_list todos)))"
proof -
  let ?c = "rb_contents (glob s)" and ?n = "length (takeWhile Not fails)"
  have ready: "rb_ready checks 0 (glob s)" and mset: "mset ?c = sum_list (map mset todos)"
    using pushers_done [OF assms(1,2)] by blast+
  from drain_takes [OF ready assms(3)] obtain r' where r': "drain checks fails (glob s) = Some (r', take ?n ?c)"
    "rb_wf r'" "rb_contents r' = drop ?n ?c" by blast
  moreover have "take ?n ?c = ?c \<and> drop ?n ?c = []" if "True \<notin> set (take (length ?c) fails)"
    using take_all_Not [OF that] assms(3) by simp
  moreover have "sum_list ?c = sum_list (map sum_list todos)"
    using arg_cong [OF mset, of sum_mset] by (simp add: sum_mset_sum_list sum_list_mset_concat)
  ultimately show ?thesis using ready mset by (auto simp: rb_ready_def)
qed

text \<open>Two threads with a value each on a buffer of two slots; their calls overlap.\<close>

definition pusher_pair :: "(nat ring, nat pusher) sys" where
  "pusher_pair = \<lparr>glob = rb_empty 2, locs = map (\<lambda>vs. \<lparr>ps_todo = vs, ps_rb = rb_idle\<rparr>) [[7], [8]]\<rparr>"

lemma pusher_pair_reachable: "reachable (pusher_prog checks) (pusher_start 1 [[7], [8]]) pusher_pair"
  by (rule reachable_init) (simp add: pusher_start_def pusher_pair_def rb_new_def)

theorem rb_pushes_arrive_witness:
  "\<exists>s r' vs. run (pusher_prog True) (replicate 3 (0, quiet ()) @ replicate 5 (1, quiet ()) @ replicate 6 (0, quiet ()))
      pusher_pair = Some s \<and> mset (rb_contents (glob s)) = {#7, 8#} \<and>
    drain True (replicate 3 False) (glob s) = Some (r', vs) \<and> sum_list vs = 15 \<and>
    drain True (replicate 3 True) (glob s) \<noteq> drain True (replicate 3 False) (glob s)"
proof -
  let ?as = "replicate 3 (0 :: nat, quiet ()) @ replicate 5 (1, quiet ()) @ replicate 6 (0, quiet ())"
  obtain s where run: "run (pusher_prog True) ?as pusher_pair = Some s"
    and fin: "\<forall>w \<in> set (locs s). ps_todo w = []" and eight: "rb_contents (glob s) = [8, 7]"
    by (simp add: rb_run_eval pusher_prog_def with_call_def pusher_pair_def rb_contents_def rb_slots_def
        rb_length_def rb_slot_def upt_rec)
  note here = rb_pushes_arrive [OF run_reachable [OF pusher_pair_reachable run] fin]
  from here [of "replicate 3 False"] here [of "replicate 3 True"] run eight show ?thesis by auto
qed

end
