(* ===== verification/Monitor.thy ===== *)
theory Monitor
  imports CondVar
begin

text \<open>
  What a condition variable promises, as an abstract object: a monitor.  It has a lock with data, a
  notification stamp, the threads inside \<open>wait\<close>, the stamp each of them read while it held
  the lock, the threads asleep, and what each notifying thread still has to do.  Every run of the
  threads of \<open>src/condvar.rs\<close>, read as a history of events, is an execution of this object.
\<close>

section \<open>The abstract monitor\<close>

datatype mon_duty = Duty_stamp | Duty_wake_one | Duty_wake_all

record 'd monitor =
  mon_lock :: "'d lock_view"
  mon_inside :: "nat set"
  mon_ticket :: "nat \<Rightarrow> u32 option"
  mon_asleep :: "nat set"
  mon_stamp :: u32
  mon_duties :: "nat \<Rightarrow> mon_duty list"

datatype 'd mon_event =
    Mon_lock "'d lock_event"
  | Mon_enter nat | Mon_load nat | Mon_sleep nat | Mon_skip nat | Mon_early nat
  | Mon_return nat | Mon_fail nat
  | Mon_begin_one nat | Mon_begin_all nat | Mon_stamp nat | Mon_wake_one nat "nat list" | Mon_wake_all nat

abbreviation mon_owner :: "nat \<Rightarrow> 'd monitor \<Rightarrow> bool" where
  "mon_owner t m \<equiv> t \<in> lv_writers (mon_lock m)"

abbreviation mon_calm :: "nat \<Rightarrow> 'd monitor \<Rightarrow> bool" where
  "mon_calm t m \<equiv> t \<notin> mon_inside m \<and> mon_duties m t = []"

text \<open>
  A thread enters \<open>wait\<close> and reads the stamp while it owns the lock.  It falls asleep only when it
  has released the lock and no notification has changed the stamp since.  It returns only when it
  owns the lock again; it fails without the lock.  A notifier first changes the stamp; then
  \<open>notify_one\<close> wakes one sleeper if there is any, and \<open>notify_all\<close> wakes all.
\<close>

fun mon_one_woken :: "nat list \<Rightarrow> nat set \<Rightarrow> bool" where
  "mon_one_woken [] A = (A = {})"
| "mon_one_woken [u] A = (u \<in> A)"
| "mon_one_woken _ A = False"

fun mon_exec :: "'d mon_event \<Rightarrow> 'd monitor \<Rightarrow> 'd monitor option" where
  "mon_exec (Mon_lock x) m =
     (case lock_exec x (mon_lock m) of None \<Rightarrow> None | Some v \<Rightarrow> Some (m\<lparr>mon_lock := v\<rparr>))"
| "mon_exec (Mon_enter t) m =
     (if mon_owner t m \<and> mon_calm t m then Some (m\<lparr>mon_inside := insert t (mon_inside m)\<rparr>) else None)"
| "mon_exec (Mon_load t) m =
     (if mon_owner t m \<and> t \<in> mon_inside m \<and> mon_ticket m t = None
      then Some (m\<lparr>mon_ticket := (mon_ticket m)(t \<mapsto> mon_stamp m)\<rparr>) else None)"
| "mon_exec (Mon_sleep t) m =
     (if \<not> mon_owner t m \<and> t \<in> mon_inside m \<and> mon_ticket m t = Some (mon_stamp m)
      then Some (m\<lparr>mon_ticket := (mon_ticket m)(t := None), mon_asleep := insert t (mon_asleep m)\<rparr>) else None)"
| "mon_exec (Mon_skip t) m =
     (if \<not> mon_owner t m \<and> t \<in> mon_inside m \<and> mon_ticket m t \<noteq> None
      then Some (m\<lparr>mon_ticket := (mon_ticket m)(t := None)\<rparr>) else None)"
| "mon_exec (Mon_early t) m =
     (if t \<in> mon_asleep m then Some (m\<lparr>mon_asleep := mon_asleep m - {t}\<rparr>) else None)"
| "mon_exec (Mon_return t) m =
     (if mon_owner t m \<and> t \<in> mon_inside m \<and> mon_ticket m t = None \<and> t \<notin> mon_asleep m
      then Some (m\<lparr>mon_inside := mon_inside m - {t}\<rparr>) else None)"
| "mon_exec (Mon_fail t) m =
     (if \<not> mon_owner t m \<and> t \<in> mon_inside m \<and> mon_ticket m t = None \<and> t \<notin> mon_asleep m
      then Some (m\<lparr>mon_inside := mon_inside m - {t}\<rparr>) else None)"
| "mon_exec (Mon_begin_one t) m =
     (if mon_calm t m
      then Some (m\<lparr>mon_duties := (mon_duties m)(t := [Duty_stamp, Duty_wake_one])\<rparr>) else None)"
| "mon_exec (Mon_begin_all t) m =
     (if mon_calm t m
      then Some (m\<lparr>mon_duties := (mon_duties m)(t := [Duty_stamp, Duty_wake_all])\<rparr>) else None)"
| "mon_exec (Mon_stamp t) m =
     (case mon_duties m t of
        Duty_stamp # ds \<Rightarrow> Some (m\<lparr>mon_stamp := mon_stamp m + 1, mon_duties := (mon_duties m)(t := ds)\<rparr>)
      | _ \<Rightarrow> None)"
| "mon_exec (Mon_wake_one t us) m =
     (if mon_duties m t = [Duty_wake_one] \<and> mon_one_woken us (mon_asleep m)
      then Some (m\<lparr>mon_asleep := mon_asleep m - set us, mon_duties := (mon_duties m)(t := [])\<rparr>) else None)"
| "mon_exec (Mon_wake_all t) m =
     (if mon_duties m t = [Duty_wake_all]
      then Some (m\<lparr>mon_asleep := {}, mon_duties := (mon_duties m)(t := [])\<rparr>) else None)"

fun mon_execs :: "'d mon_event list \<Rightarrow> 'd monitor \<Rightarrow> 'd monitor option" where
  "mon_execs [] m = Some m"
| "mon_execs (x # xs) m = (case mon_exec x m of None \<Rightarrow> None | Some m' \<Rightarrow> mon_execs xs m')"

lemma mon_execs_append:
  "mon_execs (xs @ ys) m = (case mon_execs xs m of None \<Rightarrow> None | Some m' \<Rightarrow> mon_execs ys m')"
  by (induction xs arbitrary: m) (auto split: option.splits)

lemma mon_execs_lock:
  "mon_execs (map Mon_lock xs) m =
    (case lock_execs xs (mon_lock m) of None \<Rightarrow> None | Some v \<Rightarrow> Some (m\<lparr>mon_lock := v\<rparr>))"
  by (induction xs arbitrary: m) (auto split: option.splits)

text \<open>
  The monitor loses no notification: a thread that falls asleep on a ticket has not been passed
  by a notification since it read the stamp (up to a multiple of 2^32 of them).
\<close>

definition mon_stamps :: "'d mon_event list \<Rightarrow> nat" where
  "mon_stamps xs = length (filter (\<lambda>x. \<exists>t. x = Mon_stamp t) xs)"

lemma mon_exec_stamp: "mon_exec x m = Some m' \<Longrightarrow> mon_stamp m' = mon_stamp m + of_nat (mon_stamps [x])"
  by (cases x) (auto simp: mon_stamps_def split: if_splits option.splits list.splits mon_duty.splits)

lemma mon_execs_stamp: "mon_execs xs m = Some m' \<Longrightarrow> mon_stamp m' = mon_stamp m + of_nat (mon_stamps xs)"
proof (induction xs arbitrary: m)
  case (Cons x xs)
  then obtain m1 where m1: "mon_exec x m = Some m1" "mon_execs xs m1 = Some m'"
    by (auto split: option.splits)
  have "mon_stamps (x # xs) = mon_stamps [x] + mon_stamps xs" by (simp add: mon_stamps_def)
  with Cons.IH [OF m1(2)] mon_exec_stamp [OF m1(1)] show ?case by simp
qed (simp add: mon_stamps_def)

lemma mon_sleep_not_notified:
  assumes "mon_exec (Mon_load t) m = Some m1" and "mon_execs xs m1 = Some m2"
    and "mon_ticket m2 t = mon_ticket m1 t" and "mon_exec (Mon_sleep t) m2 = Some m3"
  shows "(of_nat (mon_stamps xs) :: u32) = 0"
  using assms mon_execs_stamp [OF assms(2)] by (auto split: if_splits)

section \<open>The monitor in a state of the code\<close>

fun cv_inside :: "cv_pc \<Rightarrow> bool" where
  "cv_inside (CV_wait _) = True"
| "cv_inside _ = False"

fun cv_ticket :: "cv_pc \<Rightarrow> u32 option" where
  "cv_ticket (CV_wait (CW_add n)) = Some n"
| "cv_ticket (CV_wait (CW_unlock n)) = Some n"
| "cv_ticket (CV_wait (CW_wait n)) = Some n"
| "cv_ticket _ = None"

fun cv_duties :: "cv_pc \<Rightarrow> mon_duty list" where
  "cv_duties (CV_one CO_add) = [Duty_stamp, Duty_wake_one]"
| "cv_duties (CV_one CO_wake) = [Duty_wake_one]"
| "cv_duties (CV_all CA_add) = [Duty_stamp, Duty_wake_all]"
| "cv_duties (CV_all _) = [Duty_wake_all]"
| "cv_duties _ = []"

definition mon_view :: "('a cv_state, cv_thread) sys \<Rightarrow> 'a monitor" where
  "mon_view s =
     \<lparr>mon_lock = lock_view_of (\<lambda>_. False) cv_owns cv_data s,
      mon_inside = {t. t < length (locs s) \<and> cv_inside (cv_pc (locs s ! t))},
      mon_ticket = (\<lambda>t. if t < length (locs s) then cv_ticket (cv_pc (locs s ! t)) else None),
      mon_asleep = set (waiters (cv_counter (cv_var (glob s)))),
      mon_stamp = val (cv_counter (cv_var (glob s))),
      mon_duties = (\<lambda>t. if t < length (locs s) then cv_duties (cv_pc (locs s ! t)) else [])\<rparr>"

text \<open>
  The events of a step of thread \<open>t\<close>: those of the lock, then what its place in the code stands
  for.  \<open>q\<close> and \<open>q'\<close> are the threads blocked on the counter before and after the step.
\<close>

fun cv_events :: "nat \<Rightarrow> nat list \<Rightarrow> nat list \<Rightarrow> cv_thread \<Rightarrow> cv_pc \<Rightarrow> 'd mon_event list" where
  "cv_events t q q' l' CV_client =
     (case cv_pc l' of CV_client \<Rightarrow> [] | CV_wait _ \<Rightarrow> [Mon_enter t]
      | CV_one _ \<Rightarrow> [Mon_begin_one t] | CV_all _ \<Rightarrow> [Mon_begin_all t])"
| "cv_events t q q' l' (CV_wait CW_load) = [Mon_load t]"
| "cv_events t q q' l' (CV_wait (CW_wait _)) = (if t \<in> set q' then [Mon_sleep t] else [Mon_skip t])"
| "cv_events t q q' l' (CV_wait CW_blocked) = (if t \<in> set q then [Mon_early t] else [])"
| "cv_events t q q' l' (CV_wait CW_lock) = (if cv_pc l' = CV_client then [Mon_return t] else [])"
| "cv_events t q q' l' (CV_wait CW_unwrap) = (if cv_pc l' = CV_client then [Mon_fail t] else [])"
| "cv_events t q q' l' (CV_wait _) = []"
| "cv_events t q q' l' (CV_one CO_add) = [Mon_stamp t]"
| "cv_events t q q' l' (CV_one CO_wake) = [Mon_wake_one t (filter (\<lambda>u. u \<notin> set q') q)]"
| "cv_events t q q' l' (CV_all CA_add) = [Mon_stamp t]"
| "cv_events t q q' l' (CV_all CA_load) = (if cv_pc l' = CV_client then [Mon_wake_all t] else [])"
| "cv_events t q q' l' (CV_all CA_wake) = [Mon_wake_all t]"

definition mon_step_events ::
  "nat \<Rightarrow> ('a cv_state, cv_thread) sys \<Rightarrow> ('a cv_state, cv_thread) sys \<Rightarrow> 'a mon_event list" where
  "mon_step_events t s s' =
     map Mon_lock (lock_step_events (\<lambda>_. False) cv_owns cv_data t s s') @
     cv_events t (waiters (cv_counter (cv_var (glob s)))) (waiters (cv_counter (cv_var (glob s'))))
       (locs s' ! t) (cv_pc (locs s ! t))"

fun mon_history ::
  "futex_api \<Rightarrow> (nat \<Rightarrow> usize) \<Rightarrow> (nat \<times> 'a cv_op env) list \<Rightarrow> ('a cv_state, cv_thread) sys \<Rightarrow>
     'a mon_event list" where
  "mon_history F tid [] s = []"
| "mon_history F tid (a # as) s =
     (case sys_step (cv_prog F tid) a s of
        None \<Rightarrow> []
      | Some s' \<Rightarrow> mon_step_events (fst a) s s' @ mon_history F tid as s')"

text \<open>No thread is blocked twice.\<close>

definition cv_queue_ok :: "futex_api \<Rightarrow> ('a cv_state, cv_thread) sys \<Rightarrow> bool" where
  "cv_queue_ok F s \<longleftrightarrow> cv_inv F s \<and> distinct (waiters (cv_counter (cv_var (glob s))))"

lemma cv_queue_ok_step:
  assumes inv: "cv_queue_ok F \<lparr>glob = g, locs = ls\<rparr>" and t: "t < length ls"
    and step: "cv_prog F tid e t g (ls ! t) = Some (g', l')"
  shows "cv_queue_ok F \<lparr>glob = g', locs = ls[t := l']\<rparr>"
proof -
  let ?c = "cv_counter (cv_var g)"
  from inv have cv: "cv_inv F \<lparr>glob = g, locs = ls\<rparr>" and dist: "distinct (waiters ?c)"
    by (simp_all add: cv_queue_ok_def)
  from cv t have F: "futex_ok F" and
    here: "t \<in> set (waiters ?c) \<Longrightarrow> cv_pc (ls ! t) = CV_wait CW_blocked"
    by (auto simp: cv_inv_def each_def)
  have "distinct (waiters (cv_counter (cv_var g')))"
  proof (cases "cv_pc (ls ! t)")
    case CV_client
    with step dist show ?thesis
      by (cases "call e") (auto simp: cv_prog_def cv_mutex_step_def split: if_splits option.splits)
  next
    case (CV_wait p)
    with step dist here show ?thesis
      by (cases p) (auto simp: cv_prog_def futex_return_def futex_wait_def distinct_removeAll
        split: if_splits option.splits)
  next
    case (CV_one p)
    with step dist futex_ok_wake_one [OF F, of ?c e] futex_ok_wake_one_empty [OF F, of ?c e]
    show ?thesis
      by (cases p; cases "waiters ?c = []") (auto simp: cv_prog_def cv_bump_def)
  next
    case (CV_all p)
    with step dist show ?thesis
      by (cases p) (auto simp: cv_prog_def cv_bump_def futex_ok_wake_all [OF F])
  qed
  with cv_inv_step [OF cv t step] show ?thesis by (simp add: cv_queue_ok_def)
qed

interpretation cv_queue: invariant_system "cv_prog F tid" "cv_start F tid" "cv_queue_ok F"
  for F :: futex_api and tid :: "nat \<Rightarrow> usize"
proof
  fix s :: "('a cv_state, cv_thread) sys"
  assume "cv_start F tid s"
  then show "cv_queue_ok F s"
    using cv_inv_start [of F tid s] by (auto simp: cv_queue_ok_def cv_start_def cv_new_def)
qed (fact cv_queue_ok_step)

section \<open>Each step is an execution of the monitor\<close>

text \<open>The view after a step, in terms of the view before it.\<close>

lemma collect_update:
  assumes "t < length ls"
  shows "{u. u < length ls \<and> P (ls[t := l] ! u)} =
    (if P l then insert t {u. u < length ls \<and> P (ls ! u)} else {u. u < length ls \<and> P (ls ! u)} - {t})"
  using assms by (auto simp: nth_list_update)

lemma mon_view_update:
  assumes t: "t < length (locs s)" and s': "s' = \<lparr>glob = g', locs = (locs s)[t := l']\<rparr>"
  shows "mon_view s' = \<lparr>mon_lock = mon_lock (mon_view s'),
      mon_inside = (if cv_inside (cv_pc l') then insert t (mon_inside (mon_view s))
        else mon_inside (mon_view s) - {t}),
      mon_ticket = (mon_ticket (mon_view s))(t := cv_ticket (cv_pc l')),
      mon_asleep = set (waiters (cv_counter (cv_var g'))),
      mon_stamp = val (cv_counter (cv_var g')),
      mon_duties = (mon_duties (mon_view s))(t := cv_duties (cv_pc l'))\<rparr>"
  using t collect_update [OF t, of "\<lambda>l. cv_inside (cv_pc l)" l']
  by (auto simp: mon_view_def s' fun_eq_iff nth_list_update)

lemma mon_view_here:
  assumes "t < length (locs s)"
  shows "t \<in> mon_inside (mon_view s) \<longleftrightarrow> cv_inside (cv_pc (locs s ! t))"
    and "mon_ticket (mon_view s) t = cv_ticket (cv_pc (locs s ! t))"
    and "mon_duties (mon_view s) t = cv_duties (cv_pc (locs s ! t))"
    and "mon_owner t (mon_view s) \<longleftrightarrow> cv_owns (locs s ! t)"
  using assms by (auto simp: mon_view_def lock_view_of_def)

lemma mon_view_futex [simp]:
  "mon_asleep (mon_view s) = set (waiters (cv_counter (cv_var (glob s))))"
  "mon_stamp (mon_view s) = val (cv_counter (cv_var (glob s)))"
  "mon_lock (mon_view s) = lock_view_of (\<lambda>_. False) cv_owns cv_data s"
  by (simp_all add: mon_view_def)

lemma filter_eq_distinct: "distinct q \<Longrightarrow> t \<in> set q \<Longrightarrow> filter (\<lambda>u. u = t) q = [t]"
  by (induction q) (auto simp: filter_empty_conv)

text \<open>\<open>wake_one\<close> wakes at most one thread, and one if there is any.\<close>

lemma futex_wake_one_woken:
  assumes F: "futex_ok F" and "distinct (waiters f)"
  shows "mon_one_woken (filter (\<lambda>u. u \<notin> set (waiters (futex_wake_one F e f))) (waiters f)) (set (waiters f)) \<and>
    set (waiters (futex_wake_one F e f)) =
      set (waiters f) - set (filter (\<lambda>u. u \<notin> set (waiters (futex_wake_one F e f))) (waiters f))"
proof (cases "waiters f = []")
  case True
  then show ?thesis using futex_ok_wake_one_empty [OF F, of f e] by simp
next
  case False
  from futex_ok_wake_one [OF F this] obtain t where t: "t \<in> set (waiters f)"
    and f': "futex_wake_one F e f = f\<lparr>waiters := remove1 t (waiters f)\<rparr>" by blast
  have set': "set (remove1 t (waiters f)) = set (waiters f) - {t}" using assms(2) by simp
  have "filter (\<lambda>u. u \<notin> set (remove1 t (waiters f))) (waiters f) = filter (\<lambda>u. u = t) (waiters f)"
    by (intro filter_cong refl) (auto simp: set' simp del: set_remove1_eq)
  also have "\<dots> = [t]" using assms(2) t by (rule filter_eq_distinct)
  finally show ?thesis using t set' by (auto simp: f')
qed

text \<open>What the invariants say of the thread that takes a step, and of the futex.\<close>

definition cv_here :: "futex_api \<Rightarrow> nat \<Rightarrow> 'a cv_state \<Rightarrow> cv_thread \<Rightarrow> bool" where
  "cv_here F t g l \<longleftrightarrow>
     futex_ok F \<and> cv_local_ok (cv_pc l) (cv_m1 l) \<and> distinct (waiters (cv_counter (cv_var g))) \<and>
     (t \<in> set (waiters (cv_counter (cv_var g))) \<longrightarrow> cv_pc l = CV_wait CW_blocked) \<and>
     (waiters (cv_counter (cv_var g)) \<noteq> [] \<longrightarrow> cv_waiting (cv_var g) \<noteq> 0)"

lemma cv_here:
  assumes "reachable (cv_prog F tid) (cv_start F tid) s" and "length (locs s) < 2 ^ 32"
    and "t < length (locs s)"
  shows "cv_here F t (glob s) (locs s ! t)"
  using cv_queue.reachable_inv [OF assms(1)] cv_waiting_pos [OF assms(1,2)] assms(3)
  by (auto simp: cv_here_def cv_queue_ok_def cv_inv_def each_def)

text \<open>
  One step of the code, on a monitor with the lock after the step: \<open>w\<close> and \<open>w'\<close> are the threads
  that own it.
\<close>

lemma cv_events_exec:
  assumes here: "cv_here F t g l" and step: "cv_prog F tid e t g l = Some (g', l')"
    and I: "t \<in> I \<longleftrightarrow> cv_inside (cv_pc l)" and T: "T t = cv_ticket (cv_pc l)"
    and D: "D t = cv_duties (cv_pc l)" and w: "t \<in> lv_writers v \<longleftrightarrow> cv_owns l'"
    and dead: "m1_pc (cv_m1 l') = M1_dead \<longrightarrow> \<not> cv_owns l'"
  shows "mon_execs (cv_events t (waiters (cv_counter (cv_var g))) (waiters (cv_counter (cv_var g'))) l' (cv_pc l))
      \<lparr>mon_lock = v, mon_inside = I, mon_ticket = T, mon_asleep = set (waiters (cv_counter (cv_var g))),
        mon_stamp = val (cv_counter (cv_var g)), mon_duties = D\<rparr> =
    Some \<lparr>mon_lock = v,
      mon_inside = (if cv_inside (cv_pc l') then insert t I else I - {t}),
      mon_ticket = T(t := cv_ticket (cv_pc l')),
      mon_asleep = set (waiters (cv_counter (cv_var g'))),
      mon_stamp = val (cv_counter (cv_var g')),
      mon_duties = D(t := cv_duties (cv_pc l'))\<rparr>"
proof -
  let ?c = "cv_counter (cv_var g)"
  from here have F: "futex_ok F" and ok: "cv_local_ok (cv_pc l) (cv_m1 l)"
    and dist: "distinct (waiters ?c)"
    and blocked: "t \<in> set (waiters ?c) \<longrightarrow> cv_pc l = CV_wait CW_blocked"
    and waiting: "waiters ?c \<noteq> [] \<longrightarrow> cv_waiting (cv_var g) \<noteq> 0" by (simp_all add: cv_here_def)
  show ?thesis
  proof (cases "cv_pc l")
    case CV_client
    with step I T D w show ?thesis
      by (cases "call e") (auto simp: cv_prog_def cv_mutex_step_def m1_owns_def fun_upd_idem insert_absorb
        split: if_splits option.splits)
  next
    case (CV_wait p)
    show ?thesis
    proof (cases p)
      case CW_lock
      with CV_wait step obtain x m' where
        m: "m1_prog tid (with_call M1_op_lock e) t (cv_mutex g) (cv_m1 l) = Some (x, m')"
        and g': "g' = g\<lparr>cv_mutex := x\<rparr>"
        and l': "l' = \<lparr>cv_pc = (if m1_pc m' \<noteq> M1_idle then CV_wait CW_lock
          else if m1_last m' = Some (Inr ()) then CV_client else CV_wait CW_unwrap), cv_m1 = m'\<rparr>"
        by (auto simp: cv_prog_def split: option.splits)
      have "m1_pc m' = M1_idle \<Longrightarrow> m1_last m' = Some (Inr ()) \<Longrightarrow> m1_guard m'"
        using m1_prog_relocking [OF m] ok CV_wait CW_lock by auto
      with I T D w l' g' CV_wait CW_lock blocked show ?thesis
        by (auto simp: m1_owns_def fun_upd_idem insert_absorb)
    next
      case CW_blocked
      with CV_wait step I T D w show ?thesis
        by (auto simp: cv_prog_def futex_return_def fun_upd_idem insert_absorb split: if_splits option.splits)
    next
      case (CW_wait n)
      have "\<not> blocks F (pick e) False" using F by (simp add: futex_ok_def)
      with CW_wait CV_wait step I T D w ok blocked show ?thesis
        by (cases "val ?c = n") (auto simp: cv_prog_def futex_wait_def m1_owns_def fun_upd_idem insert_absorb split: if_splits)
    next
      case CW_load
      with CV_wait step I T D w ok show ?thesis
        by (auto simp: cv_prog_def m1_owns_def insert_absorb fun_upd_idem)
    next
      case CW_unlock
      with CV_wait step I T D show ?thesis
        by (auto simp: cv_prog_def insert_absorb fun_upd_idem split: option.splits)
    next
      case CW_unwrap
      with CV_wait step obtain x m' where g': "g' = g\<lparr>cv_mutex := x\<rparr>"
        and l': "l' = \<lparr>cv_pc = (if m1_pc m' = M1_dead then CV_client else CV_wait CW_unwrap), cv_m1 = m'\<rparr>"
        by (auto simp: cv_prog_def split: option.splits)
      show ?thesis
      proof (cases "m1_pc m' = M1_dead")
        case True
        with CV_wait CW_unwrap I T D w dead blocked g' l' show ?thesis by (simp add: fun_upd_idem)
      next
        case False
        with CV_wait CW_unwrap I T D g' l' show ?thesis by (simp add: insert_absorb fun_upd_idem)
      qed
    qed (use CV_wait step I T D in \<open>auto simp: cv_prog_def insert_absorb fun_upd_idem\<close>)
  next
    case (CV_one p)
    show ?thesis
    proof (cases p)
      case CO_add
      with CV_one step I T D show ?thesis by (auto simp: cv_prog_def cv_bump_def fun_upd_idem)
    next
      case CO_wake
      define us where "us = filter (\<lambda>u. u \<notin> set (waiters (futex_wake_one F e ?c))) (waiters ?c)"
      have woken: "mon_one_woken us (set (waiters ?c))"
        and set': "set (waiters (futex_wake_one F e ?c)) = set (waiters ?c) - set us"
        using futex_wake_one_woken [OF F dist, of e] unfolding us_def by blast+
      from CV_one CO_wake step have g': "cv_counter (cv_var g') = futex_wake_one F e ?c"
        and l': "cv_pc l' = CV_client" by (auto simp: cv_prog_def)
      show ?thesis
        using I T D woken
        by (simp add: CV_one CO_wake g' l' us_def [symmetric] fun_upd_idem) (simp add: set')
    qed
  next
    case (CV_all p)
    show ?thesis
    proof (cases "p = CA_load \<and> cv_waiting (cv_var g) \<noteq> 0")
      case True
      with CV_all step I T D show ?thesis by (auto simp: cv_prog_def fun_upd_idem)
    next
      case False
      with CV_all step I T D waiting show ?thesis
        by (cases p) (auto simp: cv_prog_def cv_bump_def futex_ok_wake_all [OF F] fun_upd_idem)
    qed
  qed
qed

text \<open>A dead thread has no guard of the mutex.\<close>

lemma cv_dead_owns_not:
  assumes "reachable (cv_prog F tid) (cv_start F tid) s" and "t < length (locs s)"
    and "m1_pc (cv_m1 (locs s ! t)) = M1_dead"
  shows "\<not> cv_owns (locs s ! t)"
proof -
  have "m1_inv tid (cv_mutex_view s)"
    using cv_mutex_reachable [OF assms(1)] by (rule m1.reachable_inv)
  then have "m1_ok tid (cv_mutex (glob s)) t (cv_m1 (locs s ! t))"
    using assms(2) by (auto simp: m1_inv_def cv_mutex_view_def sys_view_def each_def)
  with assms(3) show ?thesis by (auto simp: m1_ok_def m1_owns_def)
qed

lemma mon_step_refines:
  assumes reach: "reachable (cv_prog F tid) (cv_start F tid) s" and len: "length (locs s) < 2 ^ 32"
    and step: "sys_step (cv_prog F tid) a s = Some s'"
  shows "mon_execs (mon_step_events (fst a) s s') (mon_view s) = Some (mon_view s')"
proof -
  let ?t = "fst a" and ?l = "locs s ! fst a"
  from step obtain g' l' where t: "?t < length (locs s)"
    and p: "cv_prog F tid (snd a) ?t (glob s) ?l = Some (g', l')"
    and s': "s' = \<lparr>glob = g', locs = (locs s)[?t := l']\<rparr>" by (rule sys_step_SomeE)
  let ?v = "lock_view_of (\<lambda>_. False) cv_owns cv_data s'"
  have lock: "lock_execs (lock_step_events (\<lambda>_. False) cv_owns cv_data ?t s s') (mon_lock (mon_view s)) = Some ?v"
    using cv_inner.outside.lock.step_refines [OF reach step] by simp
  have here: "locs s' ! ?t = l'" "?t < length (locs s')" using t by (simp_all add: s')
  have own: "?t \<in> lv_writers ?v \<longleftrightarrow> cv_owns l'" using here by (simp add: lock_view_of_def)
  have dead: "m1_pc (cv_m1 l') = M1_dead \<longrightarrow> \<not> cv_owns l'"
    using cv_dead_owns_not [OF reachable_step [OF reach step] here(2)] here(1) by simp
  have before: "(mon_view s)\<lparr>mon_lock := ?v\<rparr> = \<lparr>mon_lock = ?v, mon_inside = mon_inside (mon_view s),
      mon_ticket = mon_ticket (mon_view s), mon_asleep = set (waiters (cv_counter (cv_var (glob s)))),
      mon_stamp = val (cv_counter (cv_var (glob s))), mon_duties = mon_duties (mon_view s)\<rparr>"
    by (simp add: mon_view_def)
  have "mon_execs (cv_events ?t (waiters (cv_counter (cv_var (glob s)))) (waiters (cv_counter (cv_var g'))) l' (cv_pc ?l))
      ((mon_view s)\<lparr>mon_lock := ?v\<rparr>) = Some (mon_view s')"
    unfolding before
    by (subst mon_view_update [OF t s'], subst mon_view_futex(3))
      (rule cv_events_exec [OF cv_here [OF reach len t] p, where I = "mon_inside (mon_view s)" and
          T = "mon_ticket (mon_view s)" and D = "mon_duties (mon_view s)" and v = ?v,
        OF mon_view_here(1-3) [OF t] own dead])
  with lock here show ?thesis
    by (simp add: mon_step_events_def mon_execs_append mon_execs_lock s')
qed

section \<open>The refinement\<close>

text \<open>
  C8: The condition variable with its mutex implements a monitor.  Every run of threads that
  lock, wait, notify, write and panic, read as its events, is an execution of the abstract
  monitor, with fewer than 2^32 threads.  So \<open>wait\<close> reads the stamp while it owns the lock, sleeps only after it
  has released the lock and only if no notification has changed the stamp since, and returns only when
  it owns the lock again; \<open>notify_one\<close> changes the stamp and then wakes one sleeper if there is any;
  \<open>notify_all\<close> changes the stamp and then leaves no sleeper, also on its shortcut.\<close>

theorem cv_refines_monitor:
  assumes "reachable (cv_prog F tid) (cv_start F tid) s" and "length (locs s) < 2 ^ 32"
    and "run (cv_prog F tid) as s = Some s'"
  shows "mon_execs (mon_history F tid as s) (mon_view s) = Some (mon_view s')"
  using assms
proof (induction as arbitrary: s)
  case (Cons a as)
  then obtain s1 where s1: "sys_step (cv_prog F tid) a s = Some s1" "run (cv_prog F tid) as s1 = Some s'"
    by (auto split: option.splits)
  moreover have "length (locs s1) < 2 ^ 32" using sys_step_length [OF s1(1)] Cons.prems(2) by simp
  ultimately have "mon_execs (mon_history F tid as s1) (mon_view s1) = Some (mon_view s')"
    using Cons.IH [OF reachable_step [OF Cons.prems(1) s1(1)]] by blast
  with mon_step_refines [OF Cons.prems(1,2) s1(1)] s1 show ?case by (simp add: mon_execs_append)
qed simp

text \<open>
  In the exchange of \<open>cv_exchange\<close> thread 0 sleeps, and thread 1 changes the data and notifies all.
\<close>

lemma cv_refines_monitor_witness:
  "\<exists>s'. run (cv_prog fifo_futex tid_succ) cv_exchange cv_duo = Some s' \<and>
    mon_execs [Mon_lock (Lock_write 0), Mon_enter 0, Mon_load 0, Mon_lock (Unlock_write 0), Mon_sleep 0,
        Mon_lock (Lock_write 1), Mon_lock (Store 1 5), Mon_lock (Unlock_write 1),
        Mon_begin_all 1, Mon_stamp 1, Mon_wake_all 1, Mon_lock (Lock_write 0), Mon_return 0]
      (mon_view cv_duo) = Some (mon_view s')"
proof -
  have "run (cv_prog fifo_futex tid_succ) cv_exchange cv_duo \<noteq> None"
    by (simp add: cv_run_eval cv_exchange_def cv_duo_def)
  then obtain s' where run: "run (cv_prog fifo_futex tid_succ) cv_exchange cv_duo = Some s'" by blast
  moreover have "mon_history fifo_futex tid_succ cv_exchange cv_duo =
      [Mon_lock (Lock_write 0), Mon_enter 0, Mon_load 0, Mon_lock (Unlock_write 0), Mon_sleep 0,
        Mon_lock (Lock_write 1), Mon_lock (Store 1 5), Mon_lock (Unlock_write 1),
        Mon_begin_all 1, Mon_stamp 1, Mon_wake_all 1, Mon_lock (Lock_write 0), Mon_return 0]"
    by (simp add: cv_run_eval cv_exchange_def cv_duo_def mon_step_events_def lock_step_events_def m1_owns_def)
  moreover have "length (locs cv_duo) < 2 ^ 32" by (simp add: cv_duo_def)
  ultimately show ?thesis using cv_refines_monitor [OF cv_duo_reachable _ run] by auto
qed

end
