(* ===== verification/Spec2Isabelle.thy ===== *)
theory Spec2Isabelle
  imports LockTests DataTests CondVarUse RingUse Monitor
begin

text \<open>
  A verification of the synchronisation primitives of this crate: two mutexes, a spinlock, a
  reader-writer lock, a semaphore, a condition variable, a bounded channel over a ring buffer,
  and a reference-counted pointer.

  \<^bold>\<open>The parts of the program and their theories.\<close>

  \<^item> \<open>src/spinlock.rs\<close>: \<open>SpinLock\<close>.  A word holds the identifier of the owner.
  \<^item> \<open>src/utils/mutex_common.rs\<close>: \<open>MutexCommon\<close>.  The errors both mutexes return.
  \<^item> \<open>src/mutex_v1.rs\<close>: \<open>MutexV1\<close>.  An owner word, and a queue of parked threads guarded by a
    spin bit.
  \<^item> \<open>src/mutex_v2.rs\<close>: \<open>MutexV2\<close>.  A word with three values on which threads block.
  \<^item> \<open>src/rwlock.rs\<close>: \<open>RwLock\<close>.  A word counts readers in steps of 2, its lowest bit is the mark of a
    waiting writer, and the maximal value is a writer; a second word lets writers wait.
  \<^item> \<open>src/semaphore.rs\<close>: \<open>Semaphore\<close>.  A count of permits and one of waiting threads.
  \<^item> \<open>src/condvar.rs\<close>: \<open>CondVar\<close>.  A counter to block on; \<open>wait\<close> embeds the unlock and lock of
    \<open>MutexV1\<close>.  \<open>Monitor\<close> holds what the condition variable promises, as an abstract object, and the refinement.
  \<^item> \<open>src/utils/ring_buffer.rs\<close>: \<open>RingBuffer\<close>.  Two indices and an array of slots that may be
    uninitialised.
  \<^item> \<open>src/channel.rs\<close>: \<open>Channel\<close>.  A ring buffer, the number of senders, and two words to block
    on; its functions embed those of \<open>RingBuffer\<close>.
  \<^item> \<open>src/arc.rs\<close>: \<open>ArcModel\<close>.  An allocation with two counts.

  \<open>Prelude\<close> holds what they share: machine words, threads and schedules, reachability, the
  locale of a program with its invariant, lemmas on lists of threads, and the interface of the
  futex calls.  The contracts are locales:

  \<^item> \<open>Locking\<close>: a lock whose holder excludes the others and alone changes the data; every lock and the exclusive
    borrow of \<open>Arc::get_mut\<close> interpret it.
  \<^item> \<open>LockSpec\<close>: the lock as an abstract object with readers, a writer and data.  Each run of a
    lock, read as its acquisitions, stores and releases, is an execution of that object.
  \<^item> \<open>BoundedQueue\<close>: a bounded queue, which the ring buffer and, on top of it, the channel interpret.
  \<^item> \<open>Progress\<close>: calls that return within a number of steps of their own thread; and what some
    schedule can bring about.
  \<^item> \<open>Embedding\<close>: a program that is built around another one, whose theorems carry over.
  \<^item> \<open>Worker\<close>: threads that lock, change the data and unlock again and again, over any lock; and the locks
    whose users can always finish.

  \<^bold>\<open>Clients.\<close>  The tests of the crate are its clients.  The stress tests of the locks are the threads
  of \<open>Worker\<close> over each lock (\<open>m2_counters\<close>, \<open>m1_counters\<close>, \<open>spin_racers\<close>); \<open>SemaphoreUse\<close>,
  \<open>CondVarUse\<close> and \<open>RingUse\<close> hold those of the semaphore, of the condition variable and of the ring buffer.  What these tests
  assert is a theorem for all schedules and any number of threads.  The sequential tests are scripts
  (\<open>Script\<close>) that are run on the models in \<open>LockTests\<close> and \<open>DataTests\<close>.

  \<^bold>\<open>How a component is modelled.\<close>  Its shared state is a record with the fields of the source's
  struct at their width.  A function of the source is a step function over a datatype of its
  program points, one atomic access per step; a step goes on, returns a result, panics, or (with
  the option type) cannot move because the thread is blocked.  A caller embeds the step function
  of its callee.  A client thread owns what Rust's types say a thread owns, such as a guard or a
  handle, and calls any operation those permit, in any order.  A system is the shared state and any
  number of threads; a schedule picks the next thread and the choices of its environment: the
  operation it calls, spurious failures of weak exchanges, early returns of blocking calls, and
  the clock.  A theorem on reachable states holds for all schedules and numbers of threads, up to
  the bounds below.  Fields that are not in the source record history (the messages sent and
  received, handles in existence, what was dropped or freed); no step of the source's code reads
  them, only the guards of client threads do.

  \<^bold>\<open>What the lemmas show.\<close>

  \<^item> The locks: at most one owner (or one writer, or readers), data changed by the owner only and
    stable against the steps of the others, errors on re-entrance, poisoning by a panic of a writer and by nothing else.
  \<^item> Blocking: for mutex v2, the semaphore, the channel's receiver and the queue of mutex v1, that no
    wake-up is lost, or the exact condition under which a waiter may rely on one; and,
    as closed theorems on a concrete schedule, where wake-ups are lost.
  \<^item> Progress: the calls of \<open>RwLock\<close>, \<open>Channel\<close> and \<open>Arc\<close> that do not block or retry return within
    a fixed number of steps of their thread, whatever the others do.  The threads that use mutex v2, the spinlock, the
    semaphore, or \<open>try_push\<close> on a buffer with room, can always finish: from each reachable state some schedule leads to
    the end of all their work, so there is no deadlock.  Mutex v1, the reader-writer lock and the channel do not
    have this property: their theories show states in which threads sleep for ever.
  \<^item> The ring buffer: use without interference refines the bounded queue, and so does the channel's; concurrent threads exchange the
    values in the order of their reservations, unless a read overtakes a write.  The channel inherits this by a
    simulation that maps a thread of the channel to one of the ring.
  \<^item> The condition variable: each run, read as its locks, waits and notifications, is an execution of an abstract
    monitor in which a waiter sleeps only without the lock and only if no notification came since it entered, and returns only
    with the lock; the theorems of mutex v1 carry over.
  \<^item> The pointer: counts are exact, no access after free, everything freed once, \<open>get_mut\<close> is
    exclusive.  An abstract protocol of roles carries the proof: each step of the code is a move
    of the protocol.
  \<^item> Each interpretation of \<open>invariant_system\<close> gives the invariant in all reachable states.  The
    theorems whose names end in \<open>witness\<close> apply a property to a concrete reachable state.

  \<^bold>\<open>Bounds.\<close>  \<open>usize\<close> has 64 bits.  Where a component counts threads in a word, the number of
  threads is assumed to fit (the start predicates say which bound).  Runs of known length are
  given as such: no fuel is used, since a step function always returns and loops are schedules.  There are
  two exceptions.  In \<open>Script\<close> a call of a sequential test gets 30 steps; each call returns within them.  A function body that
  runs alone (\<open>solo\<close> in \<open>BoundedQueue\<close>) gets the steps of its longest path without a retry (4 in the ring buffer, 6 or 8 in the
  channel); its outcome is a return, a panic, a blocked thread, or, when it goes round a loop, \<open>Runs_on\<close>.

  \<^bold>\<open>Overflow.\<close>  Plain additions and subtractions of the source panic in a build with overflow checks and wrap in one without.  In
  \<open>RwLock\<close>, \<open>RingBuffer\<close> and \<open>Channel\<close> the parameter \<open>checks\<close> says which; their theorems hold for both, and where the
  results differ, as for the indices of the ring buffer, they say how.  \<open>weak_fails\<close> is the spurious failure of
  a weak exchange; theorems on calls that run alone say what it changes, or exclude it by name.

  \<^bold>\<open>Parameters.\<close>  \<open>wait\<close>, \<open>wake_one\<close> and \<open>wake_all\<close> of the crate \<open>atomic_wait\<close> are a record of
  functions with their documented behaviour as a predicate, \<open>futex_ok\<close>.  The
  identifiers of the crate \<open>thread_id\<close> are a function, not 0 and different for different threads
  where \<open>tid_ok\<close> is a hypothesis.

  \<^bold>\<open>Not modelled.\<close>  The \<open>Ordering\<close> arguments: interleavings are sequentially consistent, so the
  theorems do not show that the chosen orderings suffice on weak memory.  Progress of the loops that
  spin or retry under a fair scheduler: \<open>lock\<close>, \<open>read\<close>, \<open>write\<close>, \<open>push\<close>, \<open>pop\<close>, \<open>downgrade\<close> and \<open>upgrade\<close> have no
  bound on their steps.  The overflow of the deadline that \<open>try_wait_duration\<close> computes (the clock is a natural number), and
  what the \<open>Drop\<close> of the data inside an \<open>Arc\<close> does (it is one step).  \<open>Send\<close>, \<open>Sync\<close> and negative implementations and derived \<open>Debug\<close> output,
  which have no behaviour here; \<open>src/lib.rs\<close> and \<open>src/utils/mod.rs\<close>, which declare modules; and
  the tests that measure time, print sizes, or use the primitives the way a modelled test does, the concurrent pushes and pops of
  \<open>test_high_contention_mpmc\<close>, and the atomic inside an \<open>Arc\<close> of \<open>test_thread_safety\<close>.
\<close>

end
